(* ===== verification/Prelude.thy ===== *)
theory Prelude
  imports Main "HOL-Library.Word"
begin

text \<open>
  What every component of the development shares: the theorem collections, the type synonyms for
  Go's sized integers, the result type of code that may panic, and the generic facts on lists that
  the component theories use (prefixes cut with \<open>take\<close>, indices that come from Go's signed
  integers, folds).
\<close>

section \<open>Collections\<close>

named_theorems frame_simps \<open>what an operation leaves unchanged, field by field\<close>
named_theorems step_simps \<open>defining equations of handlers and steps\<close>

section \<open>Go's types and effects\<close>

text \<open>
  \<open>int32\<close> and \<open>int64\<close> values (node ids, terms, log indices, Lamport times) are read as
  mathematical integers: they start at 0 or -1 and are only ever incremented or compared, so a
  wrap-around needs \<open>2 ^ 31\<close> or \<open>2 ^ 63\<close> increments. Values whose wrap-around the code computes with
  (the FNV hash) are machine words.
\<close>

type_synonym int32 = int
type_synonym int64 = int

text \<open>
  A function that may panic returns an option: \<open>None\<close> is the panic. \<open>then_do\<close> is Go's
  sequencing of such calls: a panic of the first ends the whole.
\<close>

type_synonym 'a go = "'a option"

abbreviation then_do :: "'a go \<Rightarrow> ('a \<Rightarrow> 'b go) \<Rightarrow> 'b go" where
  "then_do m k \<equiv> Option.bind m k"

text \<open>A slice read \<open>xs[i]\<close> with a signed index: out of range it panics.\<close>

definition slice_get :: "'a list \<Rightarrow> int \<Rightarrow> 'a go" where
  "slice_get xs i = (if 0 \<le> i \<and> i < int (length xs) then Some (xs ! nat i) else None)"

text \<open>A slice write \<open>xs[i] = v\<close>.\<close>

definition slice_set :: "'a list \<Rightarrow> int \<Rightarrow> 'a \<Rightarrow> 'a list go" where
  "slice_set xs i v = (if 0 \<le> i \<and> i < int (length xs) then Some (xs[nat i := v]) else None)"

lemma slice_get_in [simp]: "0 \<le> i \<Longrightarrow> i < int (length xs) \<Longrightarrow> slice_get xs i = Some (xs ! nat i)"
  by (simp add: slice_get_def)

lemma slice_set_in [simp]:
  "0 \<le> i \<Longrightarrow> i < int (length xs) \<Longrightarrow> slice_set xs i v = Some (xs[nat i := v])"
  by (simp add: slice_set_def)

lemma slice_get_Some: "slice_get xs i = Some x \<longleftrightarrow> 0 \<le> i \<and> i < int (length xs) \<and> x = xs ! nat i"
  by (auto simp: slice_get_def)

lemma slice_set_Some:
  "slice_set xs i v = Some ys \<longleftrightarrow> 0 \<le> i \<and> i < int (length xs) \<and> ys = xs[nat i := v]"
  by (auto simp: slice_set_def)

section \<open>Lists\<close>

lemma take_eq_nth: "take k xs = take k ys \<Longrightarrow> i < k \<Longrightarrow> xs ! i = ys ! i"
  by (metis nth_take)

lemma take_eq_mono: "take n xs = take n ys \<Longrightarrow> k \<le> n \<Longrightarrow> take k xs = take k ys"
  by (metis min.absorb1 take_take)

lemma take_eq_length: "take n xs = take n ys \<Longrightarrow> n \<le> length ys \<Longrightarrow> n \<le> length xs"
  by (metis length_take min.absorb2 min.cobounded1)

lemma take_Suc_eq_nth: "take (Suc k) xs = take (Suc k) ys \<Longrightarrow> xs ! k = ys ! k"
  by (rule take_eq_nth) auto

lemma last_conv_nth': "xs \<noteq> [] \<Longrightarrow> last xs = xs ! (length xs - Suc 0)"
  by (simp add: last_conv_nth)

end
