(* ===== verification/RaftLog.thy ===== *)
theory RaftLog
  imports Prelude
begin

text \<open>
  The append-only log of \<open>hw3/internal/log/log.go\<close>: 1-indexed, a sentinel at position 0. Indices
  are the signed integers of the code, so every range test of the code is a test here.
\<close>

section \<open>Data\<close>

record LogEntry =
  le_Index :: int64
  le_Term :: int64
  le_Command :: string

record Log =
  entries :: "LogEntry list"

definition zeroEntry :: LogEntry where
  "zeroEntry = \<lparr>le_Index = 0, le_Term = 0, le_Command = []\<rparr>"

section \<open>Operations\<close>

definition newLog :: Log where
  "newLog = \<lparr>entries = [\<lparr>le_Index = 0, le_Term = 0, le_Command = []\<rparr>]\<rparr>"

definition LastIndex :: "Log \<Rightarrow> int64" where
  "LastIndex l = int (length (entries l)) - 1"

text \<open>\<open>Append\<close> panics when the entry's index is not the next one.\<close>

definition Append :: "Log \<Rightarrow> LogEntry \<Rightarrow> Log go" where
  "Append l entry =
     (let expected = LastIndex l + 1
      in if le_Index entry \<noteq> expected then None
         else Some (l\<lparr>entries := entries l @ [entry]\<rparr>))"

definition At :: "Log \<Rightarrow> int64 \<Rightarrow> LogEntry \<times> bool" where
  "At l index =
     (if index \<le> 0 \<or> index \<ge> int (length (entries l)) then (zeroEntry, False)
      else (entries l ! nat index, True))"

text \<open>The slice is never empty (the sentinel stays, \<open>log_nonempty\<close> below), so the read is in range.\<close>

definition LastTerm :: "Log \<Rightarrow> int64" where
  "LastTerm l = le_Term (entries l ! (length (entries l) - 1))"

definition Truncate :: "Log \<Rightarrow> int64 \<Rightarrow> Log" where
  "Truncate l fromIndex =
     (if fromIndex \<le> 0 \<or> fromIndex \<ge> int (length (entries l)) then l
      else l\<lparr>entries := take (nat fromIndex) (entries l)\<rparr>)"

definition Entries :: "Log \<Rightarrow> int64 \<Rightarrow> int64 \<Rightarrow> LogEntry list" where
  "Entries l from to =
     (let n = int (length (entries l));
          from1 = (if from \<le> 0 then 1 else from);
          to1 = (if to > n then n else to)
      in if from1 \<ge> to1 then [] else take (nat (to1 - from1)) (drop (nat from1) (entries l)))"

definition Len :: "Log \<Rightarrow> int64" where
  "Len l = int (length (entries l)) - 1"

section \<open>Well-formedness\<close>

text \<open>
  The sentinel is in place and every entry carries its own position: what the panic of \<open>Append\<close>
  protects.
\<close>

definition wf_entries :: "LogEntry list \<Rightarrow> bool" where
  "wf_entries es \<longleftrightarrow> es \<noteq> [] \<and> es ! 0 = zeroEntry \<and> (\<forall>k < length es. le_Index (es ! k) = int k)"

definition wf_log :: "Log \<Rightarrow> bool" where
  "wf_log l \<longleftrightarrow> wf_entries (entries l)"

lemma log_nonempty: "wf_log l \<Longrightarrow> entries l \<noteq> []"
  by (simp add: wf_log_def wf_entries_def)

lemma wf_entries_take: "wf_entries es \<Longrightarrow> 0 < n \<Longrightarrow> wf_entries (take n es)"
  by (auto simp: wf_entries_def)

lemma wf_entries_snoc:
  "wf_entries es \<Longrightarrow> le_Index e = int (length es) \<Longrightarrow> wf_entries (es @ [e])"
  by (auto simp: wf_entries_def nth_append less_Suc_eq)

lemma wf_newLog: "wf_log newLog"
  by (simp add: wf_log_def wf_entries_def newLog_def zeroEntry_def)

lemma wf_Append: "wf_log l \<Longrightarrow> Append l e = Some l' \<Longrightarrow> wf_log l'"
  by (auto simp: wf_log_def Append_def Let_def LastIndex_def intro!: wf_entries_snoc split: if_splits)

lemma wf_Truncate: "wf_log l \<Longrightarrow> wf_log (Truncate l i)"
  by (auto simp: wf_log_def Truncate_def intro!: wf_entries_take)

section \<open>What the operations return\<close>

lemma Append_next [simp]:
  "le_Index e = LastIndex l + 1 \<Longrightarrow> Append l e = Some (l\<lparr>entries := entries l @ [e]\<rparr>)"
  by (simp add: Append_def)

lemma entry_copy [simp]:
  "\<lparr>le_Index = le_Index e, le_Term = le_Term e, le_Command = le_Command e\<rparr> = (e :: LogEntry)"
  by simp

lemma entries_newLog [simp]: "entries newLog = [zeroEntry]"
  by (simp add: newLog_def zeroEntry_def)

lemma zeroEntry_simps [simp]:
  "le_Index zeroEntry = 0" "le_Term zeroEntry = 0" "le_Command zeroEntry = []"
  by (simp_all add: zeroEntry_def)

lemma At_nat:
  "At l (int k) = (if 0 < k \<and> k < length (entries l) then (entries l ! k, True) else (zeroEntry, False))"
  by (auto simp: At_def)

lemma At_True: "At l i = (e, True) \<longleftrightarrow> 0 < i \<and> i < int (length (entries l)) \<and> e = entries l ! nat i"
  by (auto simp: At_def)

lemma At_False: "snd (At l i) = False \<longleftrightarrow> i \<le> 0 \<or> int (length (entries l)) \<le> i"
  by (auto simp: At_def)

lemma LastTerm_last: "entries l \<noteq> [] \<Longrightarrow> LastTerm l = le_Term (last (entries l))"
  by (simp add: LastTerm_def last_conv_nth)

lemma Truncate_nat:
  "0 < k \<Longrightarrow> entries (Truncate l (int k)) = take k (entries l)"
  by (auto simp: Truncate_def)

lemma Entries_from:
  "0 < k \<Longrightarrow> Entries l (int k) (LastIndex l + 1) = drop k (entries l)"
  by (auto simp: Entries_def LastIndex_def Let_def nat_diff_distrib)

lemma Entries_upto:
  assumes "0 \<le> a" and "a < int (length (entries l))"
  shows "Entries l 1 (a + 1) = drop 1 (take (Suc (nat a)) (entries l))"
proof -
  obtain n where "a = int n" using assms(1) nonneg_int_cases by blast
  then show ?thesis using assms(2) by (auto simp: Entries_def Let_def drop_take)
qed

end
