(* ===== verification/ClusterConfig.thy ===== *)
theory ClusterConfig
  imports Prelude
begin

text \<open>
  The cluster configuration (\<open>config/config.go\<close>, the same file in \<open>hw2\<close> and \<open>hw3\<close>): the
  node descriptors and the lookups \<open>Self\<close> and \<open>Peers\<close>. Reading the file and parsing the JSON
  (\<open>os.ReadFile\<close>, \<open>json.Unmarshal\<close>) is an argument of \<open>Load\<close>.
\<close>

section \<open>Data and operations\<close>

record NodeConfig =
  ID :: int32
  ClientAddr :: string
  PeerAddr :: string

record ClusterConfig =
  Nodes :: "NodeConfig list"

datatype config_error = ReadError string | ParseError string | NoNodes string | NoNode int32

text \<open>
  \<open>Load\<close>: \<open>readFile\<close> and \<open>unmarshal\<close> are the operating system's and \<open>encoding/json\<close>'s
  part, \<open>None\<close> where they return an error.
\<close>

definition Load ::
  "(string \<Rightarrow> 'bytes option) \<Rightarrow> ('bytes \<Rightarrow> ClusterConfig option) \<Rightarrow> string
     \<Rightarrow> config_error + ClusterConfig" where
  "Load readFile unmarshal path =
     (case readFile path of
        None \<Rightarrow> Inl (ReadError path)
      | Some data \<Rightarrow>
          (case unmarshal data of
             None \<Rightarrow> Inl (ParseError path)
           | Some cfg \<Rightarrow> if length (Nodes cfg) = 0 then Inl (NoNodes path) else Inr cfg))"

fun self_loop :: "NodeConfig list \<Rightarrow> int32 \<Rightarrow> config_error + NodeConfig" where
  "self_loop [] i = Inl (NoNode i)"
| "self_loop (n # ns) i = (if ID n = i then Inr n else self_loop ns i)"

definition Self :: "ClusterConfig \<Rightarrow> int32 \<Rightarrow> config_error + NodeConfig" where
  "Self c i = self_loop (Nodes c) i"

fun peers_loop :: "NodeConfig list \<Rightarrow> int32 \<Rightarrow> NodeConfig list \<Rightarrow> NodeConfig list" where
  "peers_loop [] i peers = peers"
| "peers_loop (n # ns) i peers = peers_loop ns i (if ID n \<noteq> i then peers @ [n] else peers)"

definition Peers :: "ClusterConfig \<Rightarrow> int32 \<Rightarrow> NodeConfig list" where
  "Peers c i = peers_loop (Nodes c) i []"

text \<open>The ids of a configuration, and the shape of the shipped files: node \<open>k\<close> has id \<open>k\<close>.\<close>

definition node_ids :: "ClusterConfig \<Rightarrow> int32 set" where
  "node_ids c = ID ` set (Nodes c)"

definition positional :: "ClusterConfig \<Rightarrow> bool" where
  "positional c \<longleftrightarrow> map ID (Nodes c) = map int [0..<length (Nodes c)]"

section \<open>Facts\<close>

lemma self_loop_Inr:
  "self_loop ns i = Inr n \<Longrightarrow> n \<in> set ns \<and> ID n = i"
  by (induction ns) (auto split: if_splits)

lemma self_loop_Inl: "self_loop ns i = Inl e \<longleftrightarrow> i \<notin> ID ` set ns \<and> e = NoNode i"
  by (induction ns) auto

lemma peers_loop_filter: "peers_loop ns i acc = acc @ filter (\<lambda>n. ID n \<noteq> i) ns"
  by (induction ns arbitrary: acc) auto

lemma Peers_filter: "Peers c i = filter (\<lambda>n. ID n \<noteq> i) (Nodes c)"
  by (simp add: Peers_def peers_loop_filter)

lemma Load_nonempty: "Load rd um p = Inr c \<Longrightarrow> Nodes c \<noteq> []"
  by (auto simp: Load_def split: option.splits if_splits)

lemma positional_ids: "positional c \<Longrightarrow> node_ids c = int ` {0..<length (Nodes c)}"
  unfolding node_ids_def by (metis list.set_map positional_def set_upt)

lemma positional_distinct: "positional c \<Longrightarrow> distinct (map ID (Nodes c))"
  by (simp add: positional_def distinct_map)

lemma positional_nth: "positional c \<Longrightarrow> k < length (Nodes c) \<Longrightarrow> ID (Nodes c ! k) = int k"
  by (metis add_0 diff_zero length_upt nth_map nth_upt positional_def)

lemma int_image_range: "i \<in> int ` {0..<n} \<longleftrightarrow> 0 \<le> i \<and> i < int n"
proof
  assume "0 \<le> i \<and> i < int n"
  then have "i = int (nat i)" and "nat i \<in> {0..<n}" by auto
  then show "i \<in> int ` {0..<n}" by blast
qed auto

lemma positional_id_range:
  "positional c \<Longrightarrow> i \<in> node_ids c \<longleftrightarrow> 0 \<le> i \<and> i < int (length (Nodes c))"
  by (simp add: positional_ids int_image_range)

lemma card_node_ids: "positional c \<Longrightarrow> card (node_ids c) = length (Nodes c)"
  unfolding node_ids_def by (metis distinct_card length_map list.set_map positional_distinct)

lemma Self_positional:
  assumes "positional c" and "0 \<le> i" and "i < int (length (Nodes c))"
  shows "\<exists>n. Self c i = Inr n \<and> n = Nodes c ! nat i"
proof (cases "Self c i")
  case (Inl e)
  then show ?thesis using assms positional_id_range [OF assms(1), of i]
    by (auto simp: Self_def self_loop_Inl node_ids_def)
next
  case (Inr n)
  then have "n \<in> set (Nodes c)" and "ID n = i"
    using self_loop_Inr by (auto simp: Self_def)
  then obtain k where "k < length (Nodes c)" and "n = Nodes c ! k"
    by (metis in_set_conv_nth)
  with \<open>ID n = i\<close> show ?thesis using positional_nth [OF assms(1)] Inr by auto
qed

end
