(* ===== verification/RaftNode.thy ===== *)
theory RaftNode
  imports RaftLog ClusterConfig
begin

text \<open>
  One Raft instance (\<open>hw3/raft/raft.go\<close>): the record is the struct, every function here is the
  body of one method between taking and releasing \<open>rf.mu\<close>. A method that releases the lock around
  an RPC is split there: \<open>startElection\<close> and \<open>election_reply\<close>, \<open>send_prepare\<close> and
  \<open>send_reply\<close>. The theory of the cluster composes the halves.

  Three parts of the struct are read as follows. The timer holds the duration it was last armed
  with; \<open>rng\<close> is the stream of values the global random source will return for
  \<open>rand.Int63n(max - min)\<close>; \<open>commitCh\<close> is the sequence of all messages sent on the channel so
  far. Signals on \<open>applyCond\<close> carry no data and only wake the apply goroutine.
\<close>

section \<open>Data\<close>

datatype RaftState = Follower | Candidate | Leader

definition Millisecond :: int where
  "Millisecond = 1000000"

definition HeartbeatInterval :: int where
  "HeartbeatInterval = 100 * Millisecond"

definition ElectionTimeoutMin :: int where
  "ElectionTimeoutMin = 150 * Millisecond"

definition ElectionTimeoutMax :: int where
  "ElectionTimeoutMax = 300 * Millisecond"

definition RPCTimeout :: int where
  "RPCTimeout = 50 * Millisecond"

record ApplyMsg =
  am_Index :: int64
  am_Term :: int64
  am_Command :: string

record Raft =
  currentTerm :: int64
  votedFor :: int32
  log :: Log
  commitIndex :: int64
  lastApplied :: int64
  nextIndex :: "int64 list"
  matchIndex :: "int64 list"
  rid :: int32
  peers :: "NodeConfig list"
  rstate :: RaftState
  electionTimer :: "int option"
  rng :: "nat \<Rightarrow> int"
  peerConns :: "int32 set"
  commitCh :: "ApplyMsg list"
  dead :: bool

record RequestVoteArgs =
  rv_Term :: int64
  rv_CandidateId :: int32
  rv_LastLogIndex :: int64
  rv_LastLogTerm :: int64

record RequestVoteReply =
  vr_Term :: int64
  vr_VoteGranted :: bool

text \<open>The wire entries have the three fields of the log's entries and are copied field by field.\<close>

record AppendEntriesArgs =
  ae_Term :: int64
  ae_LeaderId :: int32
  ae_PrevLogIndex :: int64
  ae_PrevLogTerm :: int64
  ae_Entries :: "LogEntry list"
  ae_LeaderCommit :: int64

record AppendEntriesReply =
  ar_Term :: int64
  ar_Success :: bool
  ar_ConflictIndex :: int64
  ar_ConflictTerm :: int64

record InstallSnapshotReply =
  is_Term :: int64

section \<open>Timer, roles, construction\<close>

definition resetElectionTimer :: "Raft \<Rightarrow> Raft" where
  "resetElectionTimer rf =
     rf\<lparr>electionTimer := Some (ElectionTimeoutMin + rng rf 0), rng := (\<lambda>k. rng rf (Suc k))\<rparr>"

definition becomeFollower :: "int64 \<Rightarrow> Raft \<Rightarrow> Raft" where
  "becomeFollower t rf =
     resetElectionTimer (rf\<lparr>currentTerm := t, rstate := Follower, votedFor := -1\<rparr>)"

definition quorum :: "Raft \<Rightarrow> int" where
  "quorum rf = int (length (peers rf)) div 2 + 1"

definition NewPaused :: "int32 \<Rightarrow> ClusterConfig \<Rightarrow> (nat \<Rightarrow> int) \<Rightarrow> Raft" where
  "NewPaused i cfg rand =
     \<lparr>currentTerm = 0, votedFor = -1, log = newLog, commitIndex = 0, lastApplied = 0,
      nextIndex = replicate (length (Nodes cfg)) 0,
      matchIndex = replicate (length (Nodes cfg)) 0,
      rid = i, peers = Nodes cfg, rstate = Follower, electionTimer = None, rng = rand,
      peerConns = {}, commitCh = [], dead = False\<rparr>"

definition Resume :: "Raft \<Rightarrow> Raft" where
  "Resume rf = resetElectionTimer rf"

definition SetPeerClient :: "Raft \<Rightarrow> int32 \<Rightarrow> Raft" where
  "SetPeerClient rf i = rf\<lparr>peerConns := insert i (peerConns rf)\<rparr>"

text \<open>\<open>dial\<close> tells whether \<open>grpc.NewClient\<close> accepts the address; otherwise \<open>log.Fatalf\<close>.\<close>

fun connect_loop :: "(string \<Rightarrow> bool) \<Rightarrow> NodeConfig list \<Rightarrow> Raft \<Rightarrow> Raft go" where
  "connect_loop dial [] rf = Some rf"
| "connect_loop dial (p # ps) rf =
     (if dial (PeerAddr p) then connect_loop dial ps (SetPeerClient rf (ID p)) else None)"

definition New ::
  "(string \<Rightarrow> bool) \<Rightarrow> int32 \<Rightarrow> ClusterConfig \<Rightarrow> (nat \<Rightarrow> int) \<Rightarrow> Raft go" where
  "New dial i cfg rand =
     then_do (connect_loop dial (Peers cfg i) (NewPaused i cfg rand)) (\<lambda>rf. Some (Resume rf))"

definition GetState :: "Raft \<Rightarrow> int64 \<times> bool" where
  "GetState rf = (currentTerm rf, rstate rf = Leader)"

definition Kill :: "Raft \<Rightarrow> Raft" where
  "Kill rf = rf\<lparr>dead := True\<rparr>"

definition killed :: "Raft \<Rightarrow> bool" where
  "killed rf = dead rf"

definition InstallSnapshot :: "Raft \<Rightarrow> InstallSnapshotReply" where
  "InstallSnapshot rf = \<lparr>is_Term = currentTerm rf\<rparr>"

text \<open>The loop over \<open>rf.peers\<close> that skips the node itself.\<close>

definition other_peers :: "Raft \<Rightarrow> int32 list" where
  "other_peers rf = map ID (filter (\<lambda>p. ID p \<noteq> rid rf) (peers rf))"

section \<open>Elections\<close>

definition RequestVote :: "Raft \<Rightarrow> RequestVoteArgs \<Rightarrow> Raft \<times> RequestVoteReply" where
  "RequestVote rf req =
     (if rv_Term req < currentTerm rf
      then (rf, \<lparr>vr_Term = currentTerm rf, vr_VoteGranted = False\<rparr>)
      else
        let rf1 = (if rv_Term req > currentTerm rf then becomeFollower (rv_Term req) rf else rf);
            alreadyVoted = (votedFor rf1 \<noteq> -1 \<and> votedFor rf1 \<noteq> rv_CandidateId req);
            logOK = (rv_LastLogTerm req > LastTerm (log rf1) \<or>
                     (rv_LastLogTerm req = LastTerm (log rf1) \<and>
                      rv_LastLogIndex req \<ge> LastIndex (log rf1)))
        in if alreadyVoted then (rf1, \<lparr>vr_Term = currentTerm rf1, vr_VoteGranted = False\<rparr>)
           else if \<not> logOK then (rf1, \<lparr>vr_Term = currentTerm rf1, vr_VoteGranted = False\<rparr>)
           else
             let rf2 = resetElectionTimer (rf1\<lparr>votedFor := rv_CandidateId req\<rparr>)
             in (rf2, \<lparr>vr_Term = currentTerm rf2, vr_VoteGranted = True\<rparr>))"

text \<open>
  The first half of \<open>startElection\<close>: \<open>None\<close> is the early return, otherwise the request and the
  peers that get it.
\<close>

definition startElection :: "Raft \<Rightarrow> Raft \<times> (RequestVoteArgs \<times> int32 list) option" where
  "startElection rf =
     (if rstate rf = Leader \<or> dead rf then (rf, None)
      else
        let rf1 = resetElectionTimer
              (rf\<lparr>currentTerm := currentTerm rf + 1, rstate := Candidate, votedFor := rid rf\<rparr>);
            args = \<lparr>rv_Term = currentTerm rf1, rv_CandidateId = rid rf1,
                    rv_LastLogIndex = LastIndex (log rf1), rv_LastLogTerm = LastTerm (log rf1)\<rparr>
        in (rf1, Some (args, other_peers rf1)))"

definition becomeLeader :: "Raft \<Rightarrow> Raft go" where
  "becomeLeader rf =
     (let lastIndex = LastIndex (log rf);
          noop = \<lparr>le_Index = LastIndex (log rf) + 1, le_Term = currentTerm rf,
                  le_Command = ''noop''\<rparr>
      in then_do (Append (log rf) noop)
           (\<lambda>lg. Some (rf\<lparr>rstate := Leader,
                          nextIndex := map (\<lambda>_. lastIndex + 1) (nextIndex rf),
                          matchIndex := map (\<lambda>_. 0) (matchIndex rf),
                          log := lg\<rparr>)))"

text \<open>
  The second half: one goroutine's handling of a vote reply. \<open>t\<close> and \<open>votes\<close> are the variables
  of the \<open>startElection\<close> call it closes over.
\<close>

definition election_reply :: "Raft \<Rightarrow> int64 \<Rightarrow> int \<Rightarrow> RequestVoteReply \<Rightarrow> (Raft \<times> int) go" where
  "election_reply rf t votes reply =
     (if vr_Term reply > currentTerm rf then Some (becomeFollower (vr_Term reply) rf, votes)
      else if rstate rf \<noteq> Candidate \<or> currentTerm rf \<noteq> t then Some (rf, votes)
      else if vr_VoteGranted reply then
        let votes1 = votes + 1
        in if votes1 \<ge> quorum rf then then_do (becomeLeader rf) (\<lambda>rf1. Some (rf1, votes1))
           else Some (rf, votes1)
      else Some (rf, votes))"

section \<open>Replication\<close>

definition Start :: "Raft \<Rightarrow> string \<Rightarrow> (Raft \<times> int64 \<times> int64 \<times> bool) go" where
  "Start rf command =
     (if rstate rf \<noteq> Leader then Some (rf, 0, currentTerm rf, False)
      else
        let entry = \<lparr>le_Index = LastIndex (log rf) + 1, le_Term = currentTerm rf,
                     le_Command = command\<rparr>
        in then_do (Append (log rf) entry)
             (\<lambda>lg. Some (rf\<lparr>log := lg\<rparr>, le_Index entry, le_Term entry, True)))"

text \<open>The merge loop: skip what matches, truncate on a conflict, append the rest.\<close>

fun merge_loop :: "Log \<Rightarrow> int64 \<Rightarrow> int64 \<Rightarrow> LogEntry list \<Rightarrow> Log go" where
  "merge_loop lg prev i [] = Some lg"
| "merge_loop lg prev i (e # es) =
     (let idx = prev + i + 1; existing = At lg idx
      in if snd existing \<and> le_Term (fst existing) = le_Term e
         then merge_loop lg prev (i + 1) es
         else
           let lg1 = (if snd existing then Truncate lg idx else lg)
           in then_do (Append lg1 \<lparr>le_Index = le_Index e, le_Term = le_Term e,
                                   le_Command = le_Command e\<rparr>)
                (\<lambda>lg2. merge_loop lg2 prev (i + 1) es))"

definition follow_commit :: "Raft \<Rightarrow> int64 \<Rightarrow> Raft" where
  "follow_commit rf leaderCommit =
     (if leaderCommit > commitIndex rf then
        let last = LastIndex (log rf)
        in rf\<lparr>commitIndex := (if last < leaderCommit then last else leaderCommit)\<rparr>
      else rf)"

definition ae_reply :: "Raft \<Rightarrow> bool \<Rightarrow> AppendEntriesReply" where
  "ae_reply rf ok =
     \<lparr>ar_Term = currentTerm rf, ar_Success = ok, ar_ConflictIndex = 0, ar_ConflictTerm = 0\<rparr>"

definition prev_consistent :: "Raft \<Rightarrow> AppendEntriesArgs \<Rightarrow> bool" where
  "prev_consistent rf req =
     (ae_PrevLogIndex req > 0 \<longrightarrow>
        (let existing = At (log rf) (ae_PrevLogIndex req)
         in snd existing \<and> le_Term (fst existing) = ae_PrevLogTerm req))"

definition AppendEntries ::
  "Raft \<Rightarrow> AppendEntriesArgs \<Rightarrow> (Raft \<times> AppendEntriesReply) go" where
  "AppendEntries rf req =
     (if ae_Term req < currentTerm rf then Some (rf, ae_reply rf False)
      else
        let rf1 = (if ae_Term req > currentTerm rf then becomeFollower (ae_Term req) rf
                   else resetElectionTimer rf)
        in if \<not> prev_consistent rf1 req then Some (rf1, ae_reply rf1 False)
           else
             then_do (merge_loop (log rf1) (ae_PrevLogIndex req) 0 (ae_Entries req))
               (\<lambda>lg. let rf2 = follow_commit (rf1\<lparr>log := lg\<rparr>) (ae_LeaderCommit req)
                     in Some (rf2, ae_reply rf2 True)))"

text \<open>\<open>advanceCommitIndex\<close>: the inner count over the peers, then the downward scan.\<close>

fun count_loop :: "Raft \<Rightarrow> int64 \<Rightarrow> NodeConfig list \<Rightarrow> int \<Rightarrow> int go" where
  "count_loop rf n [] count = Some count"
| "count_loop rf n (p # ps) count =
     (if ID p \<noteq> rid rf
      then then_do (slice_get (matchIndex rf) (ID p))
             (\<lambda>m. count_loop rf n ps (if m \<ge> n then count + 1 else count))
      else count_loop rf n ps count)"

function commit_scan :: "Raft \<Rightarrow> int64 \<Rightarrow> Raft go" where
  "commit_scan rf n =
     (if n > commitIndex rf then
        let entry = At (log rf) n
        in if \<not> snd entry \<or> le_Term (fst entry) \<noteq> currentTerm rf then commit_scan rf (n - 1)
           else
             (case count_loop rf n (peers rf) 1 of
                None \<Rightarrow> None
              | Some count \<Rightarrow>
                  if count \<ge> quorum rf then Some (rf\<lparr>commitIndex := n\<rparr>)
                  else commit_scan rf (n - 1))
      else Some rf)"
  by pat_completeness auto
termination
  by (relation "measure (\<lambda>(rf, n). nat (n - commitIndex rf))") auto

declare commit_scan.simps [simp del]

definition advanceCommitIndex :: "Raft \<Rightarrow> Raft go" where
  "advanceCommitIndex rf = commit_scan rf (LastIndex (log rf))"

text \<open>One round of the heartbeat loop: the peers it sends to, \<open>None\<close> when the loop ends.\<close>

definition heartbeat_round :: "Raft \<Rightarrow> int32 list option" where
  "heartbeat_round rf =
     (if killed rf then None else if rstate rf \<noteq> Leader then None else Some (other_peers rf))"

text \<open>
  One pass of the loop of \<open>sendAppendEntries\<close> up to the RPC: the outer option is the panic of the
  slice read, the inner one the return of a node that is not leader.
\<close>

definition send_prepare :: "Raft \<Rightarrow> int32 \<Rightarrow> AppendEntriesArgs option go" where
  "send_prepare rf peerID =
     (if rstate rf \<noteq> Leader then Some None
      else
        then_do (slice_get (nextIndex rf) peerID)
          (\<lambda>ni.
             let prevLogIndex = ni - 1;
                 prevLogTerm =
                   (if prevLogIndex > 0 then
                      (let e = At (log rf) prevLogIndex in if snd e then le_Term (fst e) else 0)
                    else 0);
                 ilogEntries = Entries (log rf) ni (LastIndex (log rf) + 1)
             in Some (Some
                  \<lparr>ae_Term = currentTerm rf, ae_LeaderId = rid rf, ae_PrevLogIndex = prevLogIndex,
                   ae_PrevLogTerm = prevLogTerm, ae_Entries = ilogEntries,
                   ae_LeaderCommit = commitIndex rf\<rparr>)))"

text \<open>
  The rest of the pass, with the variables of the first half in \<open>args\<close> (\<open>sentTerm\<close> is its term).
  The flag says whether the loop goes round again.
\<close>

definition send_reply ::
  "Raft \<Rightarrow> int32 \<Rightarrow> AppendEntriesArgs \<Rightarrow> AppendEntriesReply \<Rightarrow> (Raft \<times> bool) go" where
  "send_reply rf peerID args reply =
     (if ar_Term reply > currentTerm rf then Some (becomeFollower (ar_Term reply) rf, False)
      else if rstate rf \<noteq> Leader \<or> currentTerm rf \<noteq> ae_Term args then Some (rf, False)
      else if ar_Success reply then
        let newMatch = ae_PrevLogIndex args + int (length (ae_Entries args))
        in then_do (slice_get (matchIndex rf) peerID)
             (\<lambda>m. then_do
                (if newMatch > m then
                   then_do (slice_set (matchIndex rf) peerID newMatch)
                     (\<lambda>mi. then_do (slice_set (nextIndex rf) peerID (newMatch + 1))
                       (\<lambda>ni. Some (rf\<lparr>matchIndex := mi, nextIndex := ni\<rparr>)))
                 else Some rf)
                (\<lambda>rf1. then_do (advanceCommitIndex rf1)
                   (\<lambda>rf2. Some (rf2, commitIndex rf2 > commitIndex rf1))))
      else
        then_do (slice_get (nextIndex rf) peerID)
          (\<lambda>ni. if ni > 1 then
                  then_do (slice_set (nextIndex rf) peerID (ni - 1))
                    (\<lambda>nis. Some (rf\<lparr>nextIndex := nis\<rparr>, True))
                else Some (rf, True)))"

section \<open>Applying\<close>

text \<open>
  One pass of the inner loop of \<open>applyLoop\<close>; the flag says whether the loop goes round again.
  The lock is released between passes, so other methods may run in between.
\<close>

definition apply_one :: "Raft \<Rightarrow> Raft \<times> bool" where
  "apply_one rf =
     (if lastApplied rf < commitIndex rf then
        let rf1 = rf\<lparr>lastApplied := lastApplied rf + 1\<rparr>;
            entry = At (log rf1) (lastApplied rf1)
        in if \<not> snd entry then (rf1, False)
           else
             let msg = \<lparr>am_Index = le_Index (fst entry), am_Term = le_Term (fst entry),
                        am_Command = le_Command (fst entry)\<rparr>
             in (rf1\<lparr>commitCh := commitCh rf1 @ [msg]\<rparr>, True)
      else (rf, False))"

text \<open>The inner loop when nothing else runs in between.\<close>

function apply_drain :: "Raft \<Rightarrow> Raft" where
  "apply_drain rf = (if snd (apply_one rf) then apply_drain (fst (apply_one rf)) else fst (apply_one rf))"
  by pat_completeness auto
termination
  by (relation "measure (\<lambda>rf. nat (commitIndex rf - lastApplied rf))")
    (auto simp: apply_one_def Let_def split: if_splits)

declare apply_drain.simps [simp del]

end
