(* ===== verification/RaftCluster.thy ===== *)
theory RaftCluster
  imports RaftNode
begin

text \<open>
  The cluster: the Raft instances of all nodes, the RPCs in flight and the goroutines waiting for
  their replies. An event is one critical section of the code (what runs between taking and
  releasing one node's mutex) together with the RPC it sends or consumes; any interleaving of
  events is a run. A message that is never delivered is lost; the RPC timeout is a reply that is
  never consumed.

  Requests and replies stay in their pools after delivery, so the runs also cover duplicated and
  reordered delivery. A vote goroutine processes one reply and ends (\<open>voteGos\<close>), which is what
  keeps a vote from being counted twice. \<open>votes\<close> holds the variable \<open>votes\<close> of each call of
  \<open>startElection\<close>, addressed by the candidate and the term of that call.
\<close>

section \<open>State\<close>

record cluster =
  nodes :: "int32 \<Rightarrow> Raft"
  voteReqs :: "(int32 \<times> RequestVoteArgs) set"
  voteReps :: "(int32 \<times> int32 \<times> int64 \<times> RequestVoteReply) set"
  voteGos :: "(int32 \<times> int32 \<times> int64) set"
  votes :: "int32 \<Rightarrow> int64 \<Rightarrow> int"
  appReqs :: "(int32 \<times> AppendEntriesArgs) set"
  appReps :: "(int32 \<times> int32 \<times> AppendEntriesArgs \<times> AppendEntriesReply) set"

datatype event =
    ElectionTimeout int32
  | DeliverVote int32 RequestVoteArgs
  | ReceiveVote int32 int32 int64 RequestVoteReply
  | Replicate int32 int32
  | DeliverAppend int32 AppendEntriesArgs
  | ReceiveAppend int32 int32 AppendEntriesArgs AppendEntriesReply
  | Submit int32 string
  | ApplyEntry int32
  | KillNode int32

text \<open>All nodes have returned from \<open>New\<close>, nothing has been sent.\<close>

definition initial :: "ClusterConfig \<Rightarrow> cluster \<Rightarrow> bool" where
  "initial cfg c \<longleftrightarrow>
     (\<forall>i \<in> node_ids cfg. \<exists>dial rand. New dial i cfg rand = Some (nodes c i)) \<and>
     voteReqs c = {} \<and> voteReps c = {} \<and> voteGos c = {} \<and> votes c = (\<lambda>_ _. 0) \<and>
     appReqs c = {} \<and> appReps c = {}"

section \<open>Events\<close>

text \<open>\<open>callRequestVote\<close> and \<open>callAppendEntries\<close> send nothing when no client is wired for the peer.\<close>

definition callable :: "Raft \<Rightarrow> int32 list \<Rightarrow> int32 set" where
  "callable rf ps = set ps \<inter> peerConns rf"

definition set_node :: "cluster \<Rightarrow> int32 \<Rightarrow> Raft \<Rightarrow> cluster" where
  "set_node c i rf = c\<lparr>nodes := (nodes c)(i := rf)\<rparr>"

definition fire_timeout :: "cluster \<Rightarrow> int32 \<Rightarrow> cluster" where
  "fire_timeout c i =
     (case startElection (nodes c i) of
        (rf, None) \<Rightarrow> set_node c i rf
      | (rf, Some (args, ps)) \<Rightarrow>
          (set_node c i rf)
            \<lparr>voteReqs := voteReqs c \<union> (\<lambda>p. (p, args)) ` callable rf ps,
             voteGos := voteGos c \<union> (\<lambda>p. (i, p, rv_Term args)) ` callable rf ps,
             votes := (votes c)(i := (votes c i)(rv_Term args := 1))\<rparr>)"

definition fire_deliver_vote :: "cluster \<Rightarrow> int32 \<Rightarrow> RequestVoteArgs \<Rightarrow> cluster" where
  "fire_deliver_vote c p args =
     (case RequestVote (nodes c p) args of
        (rf, reply) \<Rightarrow>
          (set_node c p rf)
            \<lparr>voteReps := insert (rv_CandidateId args, p, rv_Term args, reply) (voteReps c)\<rparr>)"

definition fire_receive_vote ::
  "cluster \<Rightarrow> int32 \<Rightarrow> int32 \<Rightarrow> int64 \<Rightarrow> RequestVoteReply \<Rightarrow> cluster go" where
  "fire_receive_vote c i p t reply =
     (case election_reply (nodes c i) t (votes c i t) reply of
        None \<Rightarrow> None
      | Some (rf, v) \<Rightarrow>
          Some ((set_node c i rf)
            \<lparr>voteGos := voteGos c - {(i, p, t)},
             votes := (votes c)(i := (votes c i)(t := v))\<rparr>))"

definition fire_replicate :: "cluster \<Rightarrow> int32 \<Rightarrow> int32 \<Rightarrow> cluster go" where
  "fire_replicate c i p =
     (case send_prepare (nodes c i) p of
        None \<Rightarrow> None
      | Some None \<Rightarrow> Some c
      | Some (Some args) \<Rightarrow> Some (c\<lparr>appReqs := appReqs c \<union> (\<lambda>q. (q, args)) ` callable (nodes c i) [p]\<rparr>))"

definition fire_deliver_append :: "cluster \<Rightarrow> int32 \<Rightarrow> AppendEntriesArgs \<Rightarrow> cluster go" where
  "fire_deliver_append c p args =
     (case AppendEntries (nodes c p) args of
        None \<Rightarrow> None
      | Some (rf, reply) \<Rightarrow>
          Some ((set_node c p rf)
            \<lparr>appReps := insert (ae_LeaderId args, p, args, reply) (appReps c)\<rparr>))"

definition fire_receive_append ::
  "cluster \<Rightarrow> int32 \<Rightarrow> int32 \<Rightarrow> AppendEntriesArgs \<Rightarrow> AppendEntriesReply \<Rightarrow> cluster go" where
  "fire_receive_append c i p args reply =
     (case send_reply (nodes c i) p args reply of
        None \<Rightarrow> None
      | Some (rf, again) \<Rightarrow> Some (set_node c i rf))"

definition fire_submit :: "cluster \<Rightarrow> int32 \<Rightarrow> string \<Rightarrow> cluster go" where
  "fire_submit c i cmd =
     (case Start (nodes c i) cmd of
        None \<Rightarrow> None
      | Some (rf, index, t, isLeader) \<Rightarrow> Some (set_node c i rf))"

text \<open>
  Which events can happen: RPCs only when the message is there, and a vote reply only while its
  goroutine waits. \<open>sendAppendEntries\<close> runs at any time for any peer, as the heartbeat loop,
  \<open>Start\<close> and its own loop start it; it checks itself whether the node leads.
\<close>

fun enabled :: "ClusterConfig \<Rightarrow> cluster \<Rightarrow> event \<Rightarrow> bool" where
  "enabled cfg c (ElectionTimeout i) = (i \<in> node_ids cfg)"
| "enabled cfg c (DeliverVote p args) = ((p, args) \<in> voteReqs c)"
| "enabled cfg c (ReceiveVote i p t reply) = ((i, p, t, reply) \<in> voteReps c \<and> (i, p, t) \<in> voteGos c)"
| "enabled cfg c (Replicate i p) = (i \<in> node_ids cfg \<and> p \<in> set (other_peers (nodes c i)))"
| "enabled cfg c (DeliverAppend p args) = ((p, args) \<in> appReqs c)"
| "enabled cfg c (ReceiveAppend i p args reply) = ((i, p, args, reply) \<in> appReps c)"
| "enabled cfg c (Submit i cmd) = (i \<in> node_ids cfg)"
| "enabled cfg c (ApplyEntry i) = (i \<in> node_ids cfg)"
| "enabled cfg c (KillNode i) = (i \<in> node_ids cfg)"

text \<open>What an event does; \<open>None\<close> is a panic of the handler.\<close>

fun fire :: "cluster \<Rightarrow> event \<Rightarrow> cluster go" where
  "fire c (ElectionTimeout i) = Some (fire_timeout c i)"
| "fire c (DeliverVote p args) = Some (fire_deliver_vote c p args)"
| "fire c (ReceiveVote i p t reply) = fire_receive_vote c i p t reply"
| "fire c (Replicate i p) = fire_replicate c i p"
| "fire c (DeliverAppend p args) = fire_deliver_append c p args"
| "fire c (ReceiveAppend i p args reply) = fire_receive_append c i p args reply"
| "fire c (Submit i cmd) = fire_submit c i cmd"
| "fire c (ApplyEntry i) = Some (set_node c i (fst (apply_one (nodes c i))))"
| "fire c (KillNode i) = Some (set_node c i (Kill (nodes c i)))"

inductive cluster_step :: "ClusterConfig \<Rightarrow> cluster \<Rightarrow> cluster \<Rightarrow> bool" for cfg where
  fires: "enabled cfg c ev \<Longrightarrow> fire c ev = Some c' \<Longrightarrow> cluster_step cfg c c'"

inductive reachable :: "ClusterConfig \<Rightarrow> cluster \<Rightarrow> bool" for cfg where
  boot: "initial cfg c \<Longrightarrow> reachable cfg c"
| next_state: "reachable cfg c \<Longrightarrow> cluster_step cfg c c' \<Longrightarrow> reachable cfg c'"

inductive_cases cluster_stepE: "cluster_step cfg c c'"
inductive_simps cluster_step_iff: "cluster_step cfg c c'"

text \<open>Runs as lists of events, for evaluating concrete executions.\<close>

fun run :: "ClusterConfig \<Rightarrow> cluster \<Rightarrow> event list \<Rightarrow> cluster option" where
  "run cfg c [] = Some c"
| "run cfg c (ev # evs) =
     (if enabled cfg c ev then
        (case fire c ev of None \<Rightarrow> None | Some c' \<Rightarrow> run cfg c' evs)
      else None)"

lemma run_reachable: "reachable cfg c \<Longrightarrow> run cfg c evs = Some c' \<Longrightarrow> reachable cfg c'"
  by (induction evs arbitrary: c)
    (auto split: if_splits option.splits, blast intro: reachable.next_state cluster_step.fires)

lemma run_append:
  "run cfg c (evs @ evs') = (case run cfg c evs of None \<Rightarrow> None | Some c' \<Rightarrow> run cfg c' evs')"
  by (induction evs arbitrary: c) (auto split: option.splits)

section \<open>Majorities\<close>

definition is_majority :: "ClusterConfig \<Rightarrow> int32 set \<Rightarrow> bool" where
  "is_majority cfg Q \<longleftrightarrow>
     Q \<subseteq> node_ids cfg \<and> int (card Q) \<ge> int (length (Nodes cfg)) div 2 + 1"

lemma card_node_ids_le: "card (node_ids cfg) \<le> length (Nodes cfg)"
  unfolding node_ids_def by (metis card_length length_map list.set_map)

lemma majorities_meet:
  assumes "is_majority cfg Q" and "is_majority cfg Q'"
  shows "Q \<inter> Q' \<noteq> {}"
proof
  assume "Q \<inter> Q' = {}"
  moreover have fin: "finite (node_ids cfg)" by (simp add: node_ids_def)
  then have "finite Q" "finite Q'"
    using assms finite_subset unfolding is_majority_def by blast+
  ultimately have "card (Q \<union> Q') = card Q + card Q'" by (simp add: card_Un_disjoint)
  moreover have "card (Q \<union> Q') \<le> length (Nodes cfg)"
    using assms card_mono [of "node_ids cfg" "Q \<union> Q'"] card_node_ids_le [of cfg] fin
    unfolding is_majority_def by simp
  ultimately show False using assms unfolding is_majority_def by linarith
qed

end
