(* ===== verification/RaftNodeFacts.thy ===== *)
theory RaftNodeFacts
  imports RaftNode
begin

text \<open>
  Functional facts on single operations of \<open>raft.go\<close> that need no cluster: what the commit scan
  finds, what the apply loop delivers, how the timer is armed.
\<close>

section \<open>Timer and term changes\<close>

lemma reset_fields [simp, frame_simps]:
  "currentTerm (resetElectionTimer rf) = currentTerm rf" "votedFor (resetElectionTimer rf) = votedFor rf"
  "log (resetElectionTimer rf) = log rf" "commitIndex (resetElectionTimer rf) = commitIndex rf"
  "lastApplied (resetElectionTimer rf) = lastApplied rf" "nextIndex (resetElectionTimer rf) = nextIndex rf"
  "matchIndex (resetElectionTimer rf) = matchIndex rf" "rid (resetElectionTimer rf) = rid rf"
  "peers (resetElectionTimer rf) = peers rf" "rstate (resetElectionTimer rf) = rstate rf"
  "peerConns (resetElectionTimer rf) = peerConns rf" "commitCh (resetElectionTimer rf) = commitCh rf"
  "dead (resetElectionTimer rf) = dead rf"
  by (simp_all add: resetElectionTimer_def)

lemma follower_fields [simp, frame_simps]:
  "currentTerm (becomeFollower t rf) = t" "votedFor (becomeFollower t rf) = -1"
  "log (becomeFollower t rf) = log rf" "commitIndex (becomeFollower t rf) = commitIndex rf"
  "lastApplied (becomeFollower t rf) = lastApplied rf" "nextIndex (becomeFollower t rf) = nextIndex rf"
  "matchIndex (becomeFollower t rf) = matchIndex rf" "rid (becomeFollower t rf) = rid rf"
  "peers (becomeFollower t rf) = peers rf" "rstate (becomeFollower t rf) = Follower"
  "peerConns (becomeFollower t rf) = peerConns rf" "commitCh (becomeFollower t rf) = commitCh rf"
  "dead (becomeFollower t rf) = dead rf"
  by (simp_all add: becomeFollower_def)

section \<open>The commit scan\<close>

text \<open>The peers, the node itself left out, whose \<open>matchIndex\<close> has reached \<open>n\<close>.\<close>

definition matching :: "Raft \<Rightarrow> int64 \<Rightarrow> NodeConfig list" where
  "matching rf n = filter (\<lambda>p. ID p \<noteq> rid rf \<and> n \<le> matchIndex rf ! nat (ID p)) (peers rf)"

definition can_commit :: "Raft \<Rightarrow> int64 \<Rightarrow> bool" where
  "can_commit rf n \<longleftrightarrow>
     commitIndex rf < n \<and> 0 < n \<and> n < int (length (entries (log rf))) \<and>
     le_Term (entries (log rf) ! nat n) = currentTerm rf \<and>
     quorum rf \<le> 1 + int (length (matching rf n))"

definition tracks_peers :: "Raft \<Rightarrow> bool" where
  "tracks_peers rf \<longleftrightarrow> (\<forall>p \<in> set (peers rf). 0 \<le> ID p \<and> ID p < int (length (matchIndex rf)))"

lemma count_loop_eq:
  "\<forall>p \<in> set ps. 0 \<le> ID p \<and> ID p < int (length (matchIndex rf)) \<Longrightarrow>
     count_loop rf n ps c =
       Some (c + int (length (filter (\<lambda>p. ID p \<noteq> rid rf \<and> n \<le> matchIndex rf ! nat (ID p)) ps)))"
  by (induction ps arbitrary: c) auto

lemma count_loop_matching:
  "tracks_peers rf \<Longrightarrow> count_loop rf n (peers rf) 1 = Some (1 + int (length (matching rf n)))"
  by (simp add: tracks_peers_def count_loop_eq matching_def)

lemma commit_scan_unfold:
  assumes "tracks_peers rf"
  shows "commit_scan rf n =
    (if commitIndex rf < n
     then if can_commit rf n then Some (rf\<lparr>commitIndex := n\<rparr>) else commit_scan rf (n - 1)
     else Some rf)"
  using assms
  by (subst commit_scan.simps) (auto simp: can_commit_def At_def count_loop_matching Let_def)

text \<open>The scan returns the largest index at or below its start that can be committed.\<close>

lemma commit_scan_result:
  assumes "tracks_peers rf"
  shows "\<exists>N. commit_scan rf n = Some (rf\<lparr>commitIndex := N\<rparr>) \<and>
    (N = commitIndex rf \<or> can_commit rf N \<and> N \<le> n) \<and> (\<forall>k. N < k \<and> k \<le> n \<longrightarrow> \<not> can_commit rf k)"
proof (induction "nat (n - commitIndex rf)" arbitrary: n)
  case 0
  then show ?case
    by (intro exI [of _ "commitIndex rf"]) (auto simp: commit_scan_unfold [OF assms] can_commit_def)
next
  case (Suc d)
  have less: "commitIndex rf < n" using Suc.hyps(2) by simp
  show ?case
  proof (cases "can_commit rf n")
    case True
    then show ?thesis
      using less by (intro exI [of _ n]) (auto simp: commit_scan_unfold [OF assms, of n])
  next
    case False
    have "d = nat (n - 1 - commitIndex rf)" using Suc.hyps(2) by simp
    from Suc.hyps(1) [OF this] obtain N where
      N: "commit_scan rf (n - 1) = Some (rf\<lparr>commitIndex := N\<rparr>)"
        "N = commitIndex rf \<or> can_commit rf N \<and> N \<le> n - 1"
        "\<forall>k. N < k \<and> k \<le> n - 1 \<longrightarrow> \<not> can_commit rf k" by blast
    have "\<forall>k. N < k \<and> k \<le> n \<longrightarrow> \<not> can_commit rf k"
      using N(3) False by (metis zle_diff1_eq order_le_less)
    then show ?thesis
      using N(1,2) less False by (intro exI [of _ N]) (auto simp: commit_scan_unfold [OF assms, of n])
  qed
qed

lemma can_commit_in_log: "can_commit rf k \<Longrightarrow> k \<le> LastIndex (log rf)"
  by (simp add: can_commit_def LastIndex_def)

lemma advanceCommitIndex_result:
  assumes "tracks_peers rf"
  shows "\<exists>N. advanceCommitIndex rf = Some (rf\<lparr>commitIndex := N\<rparr>) \<and>
    (N = commitIndex rf \<or> can_commit rf N) \<and> (\<forall>k > N. \<not> can_commit rf k)"
  using commit_scan_result [OF assms, of "LastIndex (log rf)"] can_commit_in_log [of rf]
  unfolding advanceCommitIndex_def by blast

section \<open>The merge loop\<close>

text \<open>
  What \<open>AppendEntries\<close> is meant to do with the entries it gets: find the first one that conflicts
  with, or is missing from, the log; from there on the received entries replace the log's tail.
\<close>

definition matched :: "LogEntry list \<Rightarrow> LogEntry list \<Rightarrow> nat" where
  "matched L es = length (takeWhile (\<lambda>(a, b). le_Term a = le_Term b) (zip L es))"

definition merged :: "LogEntry list \<Rightarrow> nat \<Rightarrow> LogEntry list \<Rightarrow> LogEntry list" where
  "merged L k es =
     (let j = matched (drop k L) es
      in if j = length es then L else take (k + j) L @ drop j es)"

definition consecutive :: "int \<Rightarrow> LogEntry list \<Rightarrow> bool" where
  "consecutive n es \<longleftrightarrow> (\<forall>k < length es. le_Index (es ! k) = n + int k)"

lemma consecutive_Cons:
  "consecutive n (e # es) \<longleftrightarrow> le_Index e = n \<and> consecutive (n + 1) es"
  by (auto simp: consecutive_def nth_Cons less_Suc_eq_0_disj split: nat.split)

lemma matched_Nil [simp]: "matched [] es = 0" "matched L [] = 0"
  by (simp_all add: matched_def)

lemma matched_Cons [simp]:
  "matched (a # L) (e # es) = (if le_Term a = le_Term e then Suc (matched L es) else 0)"
  by (simp add: matched_def)

lemma matched_le: "matched L es \<le> length es" "matched L es \<le> length L"
  unfolding matched_def
  by (metis length_takeWhile_le length_zip min.bounded_iff)+

lemma merge_loop_append:
  "LastIndex l = prev + i \<Longrightarrow> consecutive (prev + i + 1) es \<Longrightarrow>
     \<exists>l'. merge_loop l prev i es = Some l' \<and> entries l' = entries l @ es"
proof (induction es arbitrary: l i)
  case (Cons e es)
  let ?l1 = "l\<lparr>entries := entries l @ [e]\<rparr>"
  have "\<not> snd (At l (prev + i + 1))" using Cons.prems(1) by (auto simp: At_def LastIndex_def)
  moreover have "Append l \<lparr>le_Index = le_Index e, le_Term = le_Term e, le_Command = le_Command e\<rparr> = Some ?l1"
    using Cons.prems by (simp add: consecutive_Cons)
  ultimately have "merge_loop l prev i (e # es) = merge_loop ?l1 prev (i + 1) es"
    by (simp add: Let_def)
  moreover have "LastIndex ?l1 = prev + (i + 1)" using Cons.prems(1) by (simp add: LastIndex_def)
  ultimately show ?case using Cons.IH [of ?l1 "i + 1"] Cons.prems(2)
    by (auto simp: consecutive_Cons ac_simps)
qed simp

lemma merge_loop_merged:
  assumes "0 \<le> prev + i" and "prev + i \<le> LastIndex l" and "consecutive (prev + i + 1) es"
  shows "\<exists>l'. merge_loop l prev i es = Some l' \<and>
    entries l' = merged (entries l) (nat (prev + i + 1)) es"
  using assms
proof (induction es arbitrary: i)
  case Nil
  then show ?case by (simp add: merged_def)
next
  case (Cons e es)
  let ?L = "entries l" and ?k = "nat (prev + i + 1)"
  show ?case
  proof (cases "prev + i = LastIndex l")
    case True
    then have "length ?L \<le> ?k" using Cons.prems(1) by (simp add: LastIndex_def)
    then show ?thesis
      using merge_loop_append [OF True [symmetric] Cons.prems(3)] by (simp add: merged_def)
  next
    case False
    then have k: "?k < length ?L" "prev + i + 1 = int ?k" "0 < ?k"
      using Cons.prems(1,2) by (auto simp: LastIndex_def)
    have d: "drop ?k ?L = ?L ! ?k # drop (Suc ?k) ?L" using k(1) by (rule Cons_nth_drop_Suc [symmetric])
    have at: "At l (prev + i + 1) = (?L ! ?k, True)"
      using k(1) Cons.prems(1) by (auto simp: At_True nat_less_iff)
    show ?thesis
    proof (cases "le_Term (?L ! ?k) = le_Term e")
      case True
      have n: "nat (prev + (i + 1) + 1) = Suc ?k" using k by simp
      have "merge_loop l prev i (e # es) = merge_loop l prev (i + 1) es" using True at by (simp add: Let_def)
      moreover have "\<exists>l'. merge_loop l prev (i + 1) es = Some l' \<and> entries l' = merged ?L (Suc ?k) es"
        using Cons.IH [of "i + 1"] Cons.prems k(1) unfolding n
        by (auto simp: consecutive_Cons ac_simps LastIndex_def)
      moreover have "merged ?L (Suc ?k) es = merged ?L ?k (e # es)"
        using True by (simp add: merged_def d Let_def)
      ultimately show ?thesis by simp
    next
      case False
      let ?l1 = "(Truncate l (prev + i + 1))\<lparr>entries := entries (Truncate l (prev + i + 1)) @ [e]\<rparr>"
      have tr: "entries (Truncate l (prev + i + 1)) = take ?k ?L" using k(2,3) Truncate_nat by metis
      have li: "LastIndex (Truncate l (prev + i + 1)) = prev + i"
        using k(1,2) by (simp add: LastIndex_def tr)
      have "Append (Truncate l (prev + i + 1))
          \<lparr>le_Index = le_Index e, le_Term = le_Term e, le_Command = le_Command e\<rparr> = Some ?l1"
        using Cons.prems(3) li by (simp add: consecutive_Cons)
      then have "merge_loop l prev i (e # es) = merge_loop ?l1 prev (i + 1) es"
        using False at by (simp add: Let_def)
      moreover have "\<exists>l'. merge_loop ?l1 prev (i + 1) es = Some l' \<and> entries l' = entries ?l1 @ es"
        using merge_loop_append [of ?l1 prev "i + 1" es] Cons.prems(3) li
        by (simp add: consecutive_Cons LastIndex_def ac_simps)
      ultimately show ?thesis using False by (simp add: merged_def d tr Let_def)
    qed
  qed
qed

lemma wf_merge_loop: "wf_log l \<Longrightarrow> merge_loop l prev i es = Some l' \<Longrightarrow> wf_log l'"
proof (induction es arbitrary: l i)
  case (Cons e es)
  show ?case
  proof (cases "snd (At l (prev + i + 1)) \<and> le_Term (fst (At l (prev + i + 1))) = le_Term e")
    case True
    then show ?thesis using Cons by (simp add: Let_def)
  next
    case False
    let ?l1 = "if snd (At l (prev + i + 1)) then Truncate l (prev + i + 1) else l"
    obtain l2 where l2: "Append ?l1 e = Some l2" "merge_loop l2 prev (i + 1) es = Some l'"
      using Cons.prems(2) False by (auto simp: Let_def bind_eq_Some_conv split: if_splits)
    have "wf_log ?l1" using Cons.prems(1) wf_Truncate by simp
    then show ?thesis using Cons.IH [OF wf_Append [OF _ l2(1)] l2(2)] by blast
  qed
qed simp

section \<open>AppendEntries on every branch\<close>

lemma prev_consistent_cong:
  "log rf' = log rf \<Longrightarrow> prev_consistent rf' req = prev_consistent rf req"
  by (simp add: prev_consistent_def)

lemma prev_consistent_bound:
  assumes "prev_consistent rf req" and "wf_log (log rf)" and "0 \<le> ae_PrevLogIndex req"
  shows "ae_PrevLogIndex req \<le> LastIndex (log rf)"
  using assms log_nonempty [OF assms(2)]
  by (cases "0 < ae_PrevLogIndex req")
    (auto simp: prev_consistent_def At_def LastIndex_def Let_def Suc_le_eq split: if_splits)

lemma AppendEntries_stale:
  "ae_Term req < currentTerm rf \<Longrightarrow> AppendEntries rf req = Some (rf, ae_reply rf False)"
  by (simp add: AppendEntries_def)

lemma AppendEntries_inconsistent:
  assumes "currentTerm rf \<le> ae_Term req" and "\<not> prev_consistent rf req"
  defines "rf1 \<equiv> if ae_Term req > currentTerm rf then becomeFollower (ae_Term req) rf
    else resetElectionTimer rf"
  shows "AppendEntries rf req = Some (rf1, ae_reply rf1 False)"
proof -
  have "prev_consistent rf1 req = prev_consistent rf req"
    by (rule prev_consistent_cong) (simp add: rf1_def)
  then show ?thesis using assms(1,2) by (auto simp: AppendEntries_def rf1_def Let_def)
qed

lemma AppendEntries_merges:
  assumes "currentTerm rf \<le> ae_Term req" and "prev_consistent rf req" and "wf_log (log rf)"
    and "0 \<le> ae_PrevLogIndex req" and "consecutive (ae_PrevLogIndex req + 1) (ae_Entries req)"
  defines "rf1 \<equiv> if ae_Term req > currentTerm rf then becomeFollower (ae_Term req) rf
    else resetElectionTimer rf"
  shows "\<exists>w. wf_log w \<and> entries w = merged (entries (log rf)) (Suc (nat (ae_PrevLogIndex req))) (ae_Entries req) \<and>
    AppendEntries rf req = Some (follow_commit (rf1\<lparr>log := w\<rparr>) (ae_LeaderCommit req),
      ae_reply (follow_commit (rf1\<lparr>log := w\<rparr>) (ae_LeaderCommit req)) True)"
proof -
  have l: "log rf1 = log rf" by (simp add: rf1_def)
  have pc: "prev_consistent rf1 req" using prev_consistent_cong [OF l] assms(2) by simp
  have k: "nat (ae_PrevLogIndex req + 0 + 1) = Suc (nat (ae_PrevLogIndex req))" using assms(4) by simp
  obtain w where w: "merge_loop (log rf1) (ae_PrevLogIndex req) 0 (ae_Entries req) = Some w"
    "entries w = merged (entries (log rf)) (Suc (nat (ae_PrevLogIndex req))) (ae_Entries req)"
    using merge_loop_merged [of "ae_PrevLogIndex req" 0 "log rf" "ae_Entries req"]
      prev_consistent_bound [OF assms(2-4)] assms(4,5) l unfolding k by auto
  then have "AppendEntries rf req = Some (follow_commit (rf1\<lparr>log := w\<rparr>) (ae_LeaderCommit req),
      ae_reply (follow_commit (rf1\<lparr>log := w\<rparr>) (ae_LeaderCommit req)) True)"
    using assms(1) pc unfolding AppendEntries_def rf1_def by (simp add: Let_def)
  moreover have "wf_log w" using wf_merge_loop [OF _ w(1)] assms(3) l by simp
  ultimately show ?thesis using w(2) by blast
qed

lemma follow_commit_fields [simp]:
  "currentTerm (follow_commit rf lc) = currentTerm rf" "votedFor (follow_commit rf lc) = votedFor rf"
  "log (follow_commit rf lc) = log rf" "rstate (follow_commit rf lc) = rstate rf"
  "lastApplied (follow_commit rf lc) = lastApplied rf" "commitCh (follow_commit rf lc) = commitCh rf"
  "commitIndex (follow_commit rf lc) =
     (if lc > commitIndex rf then min lc (LastIndex (log rf)) else commitIndex rf)"
  by (auto simp: follow_commit_def Let_def)

end
