(* ===== verification/RaftProtocol.thy ===== *)
theory RaftProtocol
  imports RaftLog
begin

text \<open>
  The abstract specification of the Raft core: terms, logs, ballots, elections and acknowledgements,
  without messages, timers or goroutines. The state is the history that the code only keeps
  implicitly: which node voted for whom with which log, who won each term with which voters, the
  log of each term's leader, and which prefixes a node acknowledged in which term.

  The safety argument is made here once: every log is a patchwork of prefixes of the leaders' logs
  (\<open>chained\<close>), and a prefix that a quorum acknowledged in its own term is in the log of every later
  leader (\<open>leader_completeness\<close>, inside the locale of quorum systems). The theory \<open>RaftSimulation\<close>
  shows that the code's handlers implement these steps.
\<close>

section \<open>Quorums\<close>

text \<open>What the protocol relies on: any two quorums share a node.\<close>

locale quorum_system =
  fixes quorum :: "int set \<Rightarrow> bool"
  assumes intersect: "quorum Q \<Longrightarrow> quorum Q' \<Longrightarrow> Q \<inter> Q' \<noteq> {}"
begin

lemma common_member:
  assumes "quorum Q" and "quorum Q'"
  obtains p where "p \<in> Q" and "p \<in> Q'"
  using intersect [OF assms] by blast

lemma quorum_nonempty: "quorum Q \<Longrightarrow> Q \<noteq> {}"
  using intersect by blast

text \<open>Two candidates cannot both have a quorum when every member votes for one.\<close>

lemma unique_winner:
  assumes "quorum Q" and "quorum Q'"
    and "\<And>p. p \<in> Q \<Longrightarrow> vote p = c" and "\<And>p. p \<in> Q' \<Longrightarrow> vote p = c'"
  shows "c = c'"
  using common_member [OF assms(1,2)] assms(3,4) by metis

end

section \<open>State and steps\<close>

type_synonym elog = "LogEntry list"

record proto =
  trm :: "int \<Rightarrow> int"
  lg :: "int \<Rightarrow> elog"
  ballot :: "int \<Rightarrow> int \<Rightarrow> (int \<times> elog) option"
  elect :: "int \<Rightarrow> (int \<times> int set \<times> elog) option"
  tlog :: "int \<Rightarrow> elog"
  acks :: "(int \<times> int \<times> nat) set"

definition proto_init :: proto where
  "proto_init = \<lparr>trm = (\<lambda>_. 0), lg = (\<lambda>_. [zeroEntry]), ballot = (\<lambda>_ _. None),
     elect = (\<lambda>_. None), tlog = (\<lambda>_. []), acks = {}\<rparr>"

definition up_to_date :: "elog \<Rightarrow> elog \<Rightarrow> bool" where
  "up_to_date a b \<longleftrightarrow>
     le_Term (last a) > le_Term (last b) \<or>
     (le_Term (last a) = le_Term (last b) \<and> length a \<ge> length b)"

text \<open>A follower's log after a merge: unchanged if it already covers the leader's entries.\<close>

definition agree :: "elog \<Rightarrow> elog \<Rightarrow> bool" where
  "agree L X \<longleftrightarrow> (\<forall>k < min (length L) (length X). le_Term (L ! k) = le_Term (X ! k))"

definition reconcile :: "elog \<Rightarrow> elog \<Rightarrow> elog" where
  "reconcile L X = (if agree L X \<and> length X \<le> length L then L else X)"

inductive protocol_step :: "(int set \<Rightarrow> bool) \<Rightarrow> proto \<Rightarrow> proto \<Rightarrow> bool" for quorum where
  observe: "trm s p \<le> t \<Longrightarrow> protocol_step quorum s (s\<lparr>trm := (trm s)(p := t)\<rparr>)"
| stand: "trm s p < t \<Longrightarrow>
    protocol_step quorum s
      (s\<lparr>trm := (trm s)(p := t),
         ballot := (ballot s)(p := (ballot s p)(t \<mapsto> (p, lg s p)))\<rparr>)"
| vote: "trm s p \<le> t \<Longrightarrow> ballot s p t = None \<Longrightarrow> p \<noteq> c \<Longrightarrow> ballot s c t = Some (c, cl) \<Longrightarrow>
    up_to_date cl (lg s p) \<Longrightarrow>
    protocol_step quorum s
      (s\<lparr>trm := (trm s)(p := t),
         ballot := (ballot s)(p := (ballot s p)(t \<mapsto> (c, lg s p)))\<rparr>)"
| win: "ballot s c t = Some (c, cl) \<Longrightarrow> trm s c = t \<Longrightarrow> lg s c = cl \<Longrightarrow> elect s t = None \<Longrightarrow>
    quorum V \<Longrightarrow> (\<forall>p\<in>V. \<exists>pl. ballot s p t = Some (c, pl)) \<Longrightarrow> le_Term e = t \<Longrightarrow>
    protocol_step quorum s
      (s\<lparr>elect := (elect s)(t \<mapsto> (c, V, cl)), lg := (lg s)(c := cl @ [e]),
         tlog := (tlog s)(t := cl @ [e]), acks := acks s \<union> {(c, t, k) |k. k \<le> length cl}\<rparr>)"
| extend: "elect s t = Some (c, V, el) \<Longrightarrow> trm s c = t \<Longrightarrow> le_Term e = t \<Longrightarrow>
    protocol_step quorum s
      (s\<lparr>lg := (lg s)(c := lg s c @ [e]), tlog := (tlog s)(t := lg s c @ [e]),
         acks := acks s \<union> {(c, t, k) |k. k \<le> length (lg s c)}\<rparr>)"
| accept: "elect s t = Some (c, V, el) \<Longrightarrow> p \<noteq> c \<Longrightarrow> trm s p \<le> t \<Longrightarrow>
    0 < m \<Longrightarrow> m \<le> length (tlog s t) \<Longrightarrow>
    protocol_step quorum s
      (s\<lparr>trm := (trm s)(p := t), lg := (lg s)(p := reconcile (lg s p) (take m (tlog s t))),
         acks := acks s \<union> {(p, t, k) |k. k < m}\<rparr>)"

inductive protocol_reachable :: "(int set \<Rightarrow> bool) \<Rightarrow> proto \<Rightarrow> bool" for quorum where
  start: "protocol_reachable quorum proto_init"
| step: "protocol_reachable quorum s \<Longrightarrow> protocol_step quorum s s' \<Longrightarrow> protocol_reachable quorum s'"

text \<open>Any number of protocol steps.\<close>

definition protocol_run :: "(int set \<Rightarrow> bool) \<Rightarrow> proto \<Rightarrow> proto \<Rightarrow> bool" where
  "protocol_run quorum s s' \<longleftrightarrow> rtranclp (protocol_step quorum) s s'"

lemma protocol_run_refl [simp]: "protocol_run quorum s s"
  by (simp add: protocol_run_def)

lemma protocol_run_step: "protocol_step quorum s s' \<Longrightarrow> protocol_run quorum s s'"
  by (simp add: protocol_run_def r_into_rtranclp)

lemma protocol_run_trans: "protocol_run quorum s s' \<Longrightarrow> protocol_run quorum s' s'' \<Longrightarrow> protocol_run quorum s s''"
  unfolding protocol_run_def by (rule rtranclp_trans)

lemma protocol_run_reachable:
  assumes "protocol_run quorum s s'" and "protocol_reachable quorum s"
  shows "protocol_reachable quorum s'"
  using assms unfolding protocol_run_def by (induction rule: rtranclp_induct) (auto intro: protocol_reachable.step)

section \<open>The invariant\<close>

definition chained :: "proto \<Rightarrow> elog \<Rightarrow> bool" where
  "chained s L \<longleftrightarrow> L \<noteq> [] \<and> L ! 0 = zeroEntry \<and> sorted (map le_Term L) \<and>
     (\<forall>k < length L. 0 < k \<longrightarrow>
        elect s (le_Term (L ! k)) \<noteq> None \<and> k < length (tlog s (le_Term (L ! k))) \<and>
        take (Suc k) L = take (Suc k) (tlog s (le_Term (L ! k))))"

definition holds :: "proto \<Rightarrow> int \<Rightarrow> nat \<Rightarrow> elog \<Rightarrow> bool" where
  "holds s t n L \<longleftrightarrow> take (Suc n) L = take (Suc n) (tlog s t)"

definition refuted :: "proto \<Rightarrow> int \<Rightarrow> nat \<Rightarrow> int \<Rightarrow> bool" where
  "refuted s t n b \<longleftrightarrow>
     (\<exists>u c V el. t < u \<and> u \<le> b \<and> elect s u = Some (c, V, el) \<and> \<not> holds s t n el)"

definition node_inv :: "proto \<Rightarrow> bool" where
  "node_inv s \<longleftrightarrow>
     (\<forall>p. chained s (lg s p) \<and> 0 \<le> trm s p \<and> (\<forall>e \<in> set (lg s p). le_Term e \<le> trm s p))"

definition elect_inv :: "(int set \<Rightarrow> bool) \<Rightarrow> proto \<Rightarrow> bool" where
  "elect_inv quorum s \<longleftrightarrow>
     (\<forall>t c V el. elect s t = Some (c, V, el) \<longrightarrow>
        quorum V \<and> 0 < t \<and> t \<le> trm s c \<and> chained s (tlog s t) \<and>
        ballot s c t = Some (c, el) \<and> (\<forall>p\<in>V. \<exists>pl. ballot s p t = Some (c, pl)) \<and>
        (\<forall>e \<in> set el. le_Term e < t) \<and>
        (\<exists>rest. rest \<noteq> [] \<and> tlog s t = el @ rest \<and> (\<forall>e \<in> set rest. le_Term e = t)) \<and>
        (trm s c = t \<longrightarrow> lg s c = tlog s t))"

definition ballot_inv :: "proto \<Rightarrow> bool" where
  "ballot_inv s \<longleftrightarrow>
     (\<forall>p t c pl. ballot s p t = Some (c, pl) \<longrightarrow>
        0 < t \<and> t \<le> trm s p \<and> chained s pl \<and> (\<forall>e \<in> set pl. le_Term e \<le> t) \<and>
        (\<exists>cl. ballot s c t = Some (c, cl) \<and> up_to_date cl pl))"

definition acks_inv :: "proto \<Rightarrow> bool" where
  "acks_inv s \<longleftrightarrow>
     (\<forall>p t n. (p, t, n) \<in> acks s \<longrightarrow>
        elect s t \<noteq> None \<and> n < length (tlog s t) \<and> t \<le> trm s p \<and>
        (holds s t n (lg s p) \<or> refuted s t n (trm s p)))"

definition voters_inv :: "proto \<Rightarrow> bool" where
  "voters_inv s \<longleftrightarrow>
     (\<forall>p t n u c pl. (p, t, n) \<in> acks s \<longrightarrow> ballot s p u = Some (c, pl) \<longrightarrow> t < u \<longrightarrow>
        (\<forall>c' V el. elect s u = Some (c', V, el) \<longrightarrow> p \<in> V) \<longrightarrow>
        holds s t n pl \<or> refuted s t n (u - 1))"

definition protocol_inv :: "(int set \<Rightarrow> bool) \<Rightarrow> proto \<Rightarrow> bool" where
  "protocol_inv quorum s \<longleftrightarrow>
     node_inv s \<and> elect_inv quorum s \<and> ballot_inv s \<and> acks_inv s \<and> voters_inv s"

text \<open>Everything a step leaves in place: the history only grows.\<close>

definition grows :: "proto \<Rightarrow> proto \<Rightarrow> bool" where
  "grows s s' \<longleftrightarrow>
     (\<forall>p. trm s p \<le> trm s' p) \<and>
     (\<forall>p t b. ballot s p t = Some b \<longrightarrow> ballot s' p t = Some b) \<and>
     (\<forall>t x. elect s t = Some x \<longrightarrow> elect s' t = Some x) \<and>
     (\<forall>t. elect s t \<noteq> None \<longrightarrow> (\<exists>r. tlog s' t = tlog s t @ r)) \<and>
     acks s \<subseteq> acks s'"

section \<open>Elementary facts\<close>

subsection \<open>Chained logs\<close>

lemma chained_nonempty: "chained s L \<Longrightarrow> L \<noteq> []"
  by (simp add: chained_def)

lemma chained_zero: "chained s L \<Longrightarrow> L ! 0 = zeroEntry"
  by (simp add: chained_def)

lemma chained_at:
  "chained s L \<Longrightarrow> k < length L \<Longrightarrow> 0 < k \<Longrightarrow>
     elect s (le_Term (L ! k)) \<noteq> None \<and> k < length (tlog s (le_Term (L ! k))) \<and>
     take (Suc k) L = take (Suc k) (tlog s (le_Term (L ! k)))"
  by (simp add: chained_def)

lemma chained_sorted:
  "chained s L \<Longrightarrow> i \<le> j \<Longrightarrow> j < length L \<Longrightarrow> le_Term (L ! i) \<le> le_Term (L ! j)"
  using sorted_nth_mono [of "map le_Term L" i j] by (simp add: chained_def)

lemma chained_take: "chained s L \<Longrightarrow> 0 < n \<Longrightarrow> chained s (take n L)"
  by (simp add: chained_def take_map [symmetric] sorted_wrt_take)

lemma chained_singleton: "chained s [zeroEntry]"
  by (simp add: chained_def)

text \<open>Log matching for any two chained logs.\<close>

lemma chained_match:
  assumes "chained s L" and "chained s L'" and "k < length L" and "k < length L'"
    and "le_Term (L ! k) = le_Term (L' ! k)"
  shows "take (Suc k) L = take (Suc k) L'"
proof (cases "k = 0")
  case True
  with assms(1,2) show ?thesis
    by (auto simp: chained_def take_Suc hd_conv_nth)
next
  case False
  then show ?thesis
    using chained_at [OF assms(1,3)] chained_at [OF assms(2,4)] assms(5) by simp
qed

lemma chained_agree:
  assumes "chained s L" and "chained s X" and "agree L X" and "length X \<le> length L"
  shows "take (length X) L = X"
proof -
  let ?k = "length X - 1"
  have k: "?k < length X" using chained_nonempty [OF assms(2)] by simp
  then have "le_Term (L ! ?k) = le_Term (X ! ?k)" using assms(3,4) by (simp add: agree_def)
  then have "take (Suc ?k) L = take (Suc ?k) X"
    using assms(1,2,4) k by (intro chained_match [of s]) auto
  moreover have "Suc ?k = length X" using k by simp
  ultimately show ?thesis by simp
qed

lemma chained_snoc:
  assumes "chained s L" and "\<forall>e \<in> set L. le_Term e \<le> le_Term x"
    and "elect s (le_Term x) \<noteq> None" and "\<exists>r. tlog s (le_Term x) = L @ x # r"
  shows "chained s (L @ [x])"
  unfolding chained_def
proof (intro conjI allI impI)
  show "L @ [x] \<noteq> []" by simp
  show "(L @ [x]) ! 0 = zeroEntry"
    using assms(1) by (simp add: chained_def nth_append)
  show "sorted (map le_Term (L @ [x]))"
    using assms(1,2) by (auto simp: chained_def sorted_wrt_append)
next
  fix k assume k: "k < length (L @ [x])" "0 < k"
  consider "k < length L" | "k = length L" using k by fastforce
  then have "elect s (le_Term ((L @ [x]) ! k)) \<noteq> None \<and>
      k < length (tlog s (le_Term ((L @ [x]) ! k))) \<and>
      take (Suc k) (L @ [x]) = take (Suc k) (tlog s (le_Term ((L @ [x]) ! k)))"
  proof cases
    case 1
    then show ?thesis using chained_at [OF assms(1) 1 k(2)] by (simp add: nth_append)
  next
    case 2
    then show ?thesis using assms(3,4) by auto
  qed
  then show "elect s (le_Term ((L @ [x]) ! k)) \<noteq> None"
    and "k < length (tlog s (le_Term ((L @ [x]) ! k)))"
    and "take (Suc k) (L @ [x]) = take (Suc k) (tlog s (le_Term ((L @ [x]) ! k)))"
    by auto
qed

subsection \<open>Merging\<close>

lemma reconcile_cases: "reconcile L X = L \<or> reconcile L X = X"
  by (simp add: reconcile_def)

lemma reconcile_covers:
  "chained s L \<Longrightarrow> chained s X \<Longrightarrow> take (length X) (reconcile L X) = X"
  by (simp add: reconcile_def chained_agree)

lemma reconcile_takes:
  assumes "chained s L" and "chained s (take m T)" and "m \<le> length T" and "n < m"
  shows "take (Suc n) (reconcile L (take m T)) = take (Suc n) T"
proof -
  have "length (take m T) = m" using assms(3) by simp
  then have "take m (reconcile L (take m T)) = take m T"
    using reconcile_covers [OF assms(1,2)] by metis
  then show ?thesis by (rule take_eq_mono) (use assms(4) in simp)
qed

text \<open>A merge keeps every prefix on which the follower already agrees with the leader's log.\<close>

lemma reconcile_keeps:
  assumes "take k L = take k T" and "k \<le> length L" and "m \<le> length T"
  shows "take k (reconcile L (take m T)) = take k T"
proof (cases "agree L (take m T) \<and> length (take m T) \<le> length L")
  case True
  then show ?thesis using assms(1) by (simp add: reconcile_def)
next
  case False
  have "k \<le> m"
  proof (rule ccontr)
    assume "\<not> k \<le> m"
    then have "length (take m T) \<le> length L" using assms(2) by simp
    moreover have "agree L (take m T)"
      unfolding agree_def
    proof (intro allI impI)
      fix i assume "i < min (length L) (length (take m T))"
      then show "le_Term (L ! i) = le_Term (take m T ! i)"
        using take_eq_nth [OF assms(1), of i] \<open>\<not> k \<le> m\<close> by simp
    qed
    ultimately show False using False by simp
  qed
  have "reconcile L (take m T) = take m T" using False by (auto simp: reconcile_def)
  then show ?thesis using \<open>k \<le> m\<close> by (simp add: min_def)
qed

subsection \<open>Growth\<close>

lemma growsD:
  assumes "grows s s'"
  shows "trm s p \<le> trm s' p"
    and "ballot s p t = Some b \<Longrightarrow> ballot s' p t = Some b"
    and "elect s t = Some x \<Longrightarrow> elect s' t = Some x"
    and "elect s t \<noteq> None \<Longrightarrow> \<exists>r. tlog s' t = tlog s t @ r"
    and "a \<in> acks s \<Longrightarrow> a \<in> acks s'"
  using assms unfolding grows_def by blast+

lemma grows_elected: "grows s s' \<Longrightarrow> elect s t \<noteq> None \<Longrightarrow> elect s' t \<noteq> None"
  by (metis growsD(3) not_None_eq)

lemma grows_tlog_take:
  "grows s s' \<Longrightarrow> elect s t \<noteq> None \<Longrightarrow> n \<le> length (tlog s t) \<Longrightarrow> take n (tlog s' t) = take n (tlog s t)"
  by (metis append_Nil2 append_eq_conv_conj diff_is_0_eq' growsD(4) take0 take_append)

lemma grows_tlog_length:
  "grows s s' \<Longrightarrow> elect s t \<noteq> None \<Longrightarrow> length (tlog s t) \<le> length (tlog s' t)"
  by (metis growsD(4) le_add1 length_append)

lemma grows_tlog_nth:
  "grows s s' \<Longrightarrow> elect s t \<noteq> None \<Longrightarrow> n < length (tlog s t) \<Longrightarrow> tlog s' t ! n = tlog s t ! n"
  by (metis growsD(4) nth_append)

lemma chained_grows:
  assumes "grows s s'" and "chained s L"
  shows "chained s' L"
  unfolding chained_def
proof (intro conjI allI impI)
  show "L \<noteq> []" "L ! 0 = zeroEntry" "sorted (map le_Term L)"
    using assms(2) by (auto simp: chained_def)
next
  fix k assume "k < length L" "0 < k"
  note k = chained_at [OF assms(2) this]
  show "elect s' (le_Term (L ! k)) \<noteq> None" using k grows_elected [OF assms(1)] by blast
  show "k < length (tlog s' (le_Term (L ! k)))"
    using k grows_tlog_length [OF assms(1), of "le_Term (L ! k)"] by simp
  show "take (Suc k) L = take (Suc k) (tlog s' (le_Term (L ! k)))"
    using k grows_tlog_take [OF assms(1), of "le_Term (L ! k)" "Suc k"] by simp
qed

lemma holds_grows:
  "grows s s' \<Longrightarrow> elect s t \<noteq> None \<Longrightarrow> n < length (tlog s t) \<Longrightarrow> holds s' t n L = holds s t n L"
  by (simp add: holds_def grows_tlog_take Suc_leI)

lemma refuted_grows:
  assumes "grows s s'" and "elect s t \<noteq> None" and "n < length (tlog s t)"
    and "refuted s t n b" and "b \<le> b'"
  shows "refuted s' t n b'"
  using assms(4,5) growsD(3) [OF assms(1)] holds_grows [OF assms(1-3)]
  unfolding refuted_def by (meson order.trans)

lemma holds_length: "holds s t n L \<Longrightarrow> n < length (tlog s t) \<Longrightarrow> n < length L"
  unfolding holds_def by (metis Suc_le_eq take_eq_length)

lemma holds_take: "holds s t n L \<Longrightarrow> k \<le> n \<Longrightarrow> take (Suc k) L = take (Suc k) (tlog s t)"
  unfolding holds_def by (rule take_eq_mono) auto

lemma holds_append: "holds s t n L \<Longrightarrow> n < length (tlog s t) \<Longrightarrow> holds s t n (L @ r)"
  using holds_length [of s t n L] by (simp add: holds_def)

end
