(* ===== verification/RaftSafety.thy ===== *)
theory RaftSafety
  imports RaftProtocol
begin

text \<open>
  The abstract protocol is safe: every step keeps \<open>protocol_inv\<close>, and in a quorum system the
  invariant implies leader completeness and agreement on everything committed.
\<close>

section \<open>Steps and the history\<close>

lemmas proto_inv_defs = node_inv_def elect_inv_def ballot_inv_def acks_inv_def voters_inv_def

lemma node_invD:
  assumes "node_inv s"
  shows "chained s (lg s p)" and "0 \<le> trm s p" and "e \<in> set (lg s p) \<Longrightarrow> le_Term e \<le> trm s p"
  using assms by (auto simp: node_inv_def)

lemma elect_invD:
  assumes "elect_inv quorum s" and "elect s t = Some (c, V, el)"
  shows "quorum V" and "0 < t" and "t \<le> trm s c" and "chained s (tlog s t)"
    and "ballot s c t = Some (c, el)" and "p \<in> V \<Longrightarrow> \<exists>pl. ballot s p t = Some (c, pl)"
    and "e \<in> set el \<Longrightarrow> le_Term e < t"
    and "\<exists>rest. rest \<noteq> [] \<and> tlog s t = el @ rest \<and> (\<forall>e \<in> set rest. le_Term e = t)"
    and "trm s c = t \<Longrightarrow> lg s c = tlog s t"
  using assms unfolding elect_inv_def by blast+

lemma ballot_invD:
  assumes "ballot_inv s" and "ballot s p t = Some (c, pl)"
  shows "0 < t" and "t \<le> trm s p" and "chained s pl" and "e \<in> set pl \<Longrightarrow> le_Term e \<le> t"
    and "\<exists>cl. ballot s c t = Some (c, cl) \<and> up_to_date cl pl"
  using assms unfolding ballot_inv_def by blast+

lemma acks_invD:
  assumes "acks_inv s" and "(p, t, n) \<in> acks s"
  shows "elect s t \<noteq> None" and "n < length (tlog s t)" and "t \<le> trm s p"
    and "holds s t n (lg s p) \<or> refuted s t n (trm s p)"
  using assms unfolding acks_inv_def by blast+

lemma tlog_terms:
  assumes "elect_inv quorum s" and "elect s t = Some (c, V, el)" and "e \<in> set (tlog s t)"
  shows "le_Term e \<le> t"
  using elect_invD(7,8) [OF assms(1,2)] assms(3) by fastforce

lemma no_entry_unelected:
  assumes "chained s L" and "elect s t = None" and "0 < t" and "e \<in> set L"
  shows "le_Term e \<noteq> t"
proof
  assume t: "le_Term e = t"
  obtain k where k: "k < length L" "L ! k = e" using assms(4) by (metis in_set_conv_nth)
  show False
  proof (cases "k = 0")
    case True
    then show False using k t chained_zero [OF assms(1)] assms(3) by auto
  next
    case False
    then show False using chained_at [OF assms(1) k(1)] k(2) t assms(2) by simp
  qed
qed

lemma step_grows:
  assumes "protocol_step quorum s s'" and "protocol_inv quorum s"
  shows "grows s s'"
  using assms
proof cases
  case (observe p t)
  then show ?thesis by (simp add: grows_def)
next
  case (stand p t)
  then show ?thesis using assms(2) ballot_invD(2) [of s p t]
    by (force simp: grows_def protocol_inv_def)
next
  case (vote p t c cl)
  then show ?thesis by (auto simp: grows_def)
next
  case (win c t cl V e)
  then show ?thesis by (auto simp: grows_def)
next
  case (extend t c V el e)
  then have "lg s c = tlog s t"
    using assms(2) elect_invD(9) [of quorum s t c V el] by (simp add: protocol_inv_def)
  with extend show ?thesis by (auto simp: grows_def)
next
  case (accept t c V el p m)
  then show ?thesis by (auto simp: grows_def)
qed

section \<open>Every step keeps the invariant\<close>

subsection \<open>Logs\<close>

lemma chained_tlog_take:
  "elect_inv quorum s \<Longrightarrow> elect s t = Some (c, V, el) \<Longrightarrow> 0 < m \<Longrightarrow> chained s (take m (tlog s t))"
  using elect_invD(4) chained_take by blast

lemma node_inv_update:
  assumes "grows s s'" and "node_inv s" and "\<And>q. q \<noteq> p \<Longrightarrow> lg s' q = lg s q"
    and "chained s' (lg s' p)" and "\<And>e. e \<in> set (lg s' p) \<Longrightarrow> le_Term e \<le> trm s' p"
  shows "node_inv s'"
  unfolding node_inv_def
proof (intro allI conjI ballI)
  fix q
  show "chained s' (lg s' q)"
    using assms(3,4) chained_grows [OF assms(1) node_invD(1) [OF assms(2)]] by metis
  show "0 \<le> trm s' q"
    using growsD(1) [OF assms(1), of q] node_invD(2) [OF assms(2), of q] by linarith
  fix e assume "e \<in> set (lg s' q)"
  then show "le_Term e \<le> trm s' q"
    using assms(3,5) node_invD(3) [OF assms(2), of e q] growsD(1) [OF assms(1), of q]
    by (cases "q = p") fastforce+
qed

lemma step_node_inv:
  assumes st: "protocol_step quorum s s'" and inv: "protocol_inv quorum s"
  shows "node_inv s'"
proof -
  have g: "grows s s'" by (rule step_grows [OF st inv])
  have n: "node_inv s" and e: "elect_inv quorum s" using inv by (auto simp: protocol_inv_def)
  note keep = chained_grows [OF g node_invD(1) [OF n]]
  from st show ?thesis
  proof cases
    case (observe p t)
    then show ?thesis using keep [of p] node_invD(3) [OF n, of _ p]
      by (intro node_inv_update [OF g n, of p]) fastforce+
  next
    case (stand p t)
    then show ?thesis using keep [of p] node_invD(3) [OF n, of _ p]
      by (intro node_inv_update [OF g n, of p]) fastforce+
  next
    case (vote p t c cl)
    then show ?thesis using keep [of p] node_invD(3) [OF n, of _ p]
      by (intro node_inv_update [OF g n, of p]) fastforce+
  next
    case (win c t cl V e)
    then have "chained s' (cl @ [e])" using keep [of c] node_invD(3) [OF n, of _ c]
      by (intro chained_snoc) auto
    then show ?thesis using win node_invD(3) [OF n, of _ c]
      by (intro node_inv_update [OF g n, of c]) auto
  next
    case (extend t c V el x)
    then have "chained s' (lg s c @ [x])" using keep [of c] node_invD(3) [OF n, of _ c]
      by (intro chained_snoc) auto
    then show ?thesis using extend node_invD(3) [OF n, of _ c]
      by (intro node_inv_update [OF g n, of c]) auto
  next
    case (accept t c V el p m)
    let ?X = "take m (tlog s t)"
    have X: "chained s' ?X"
      using chained_grows [OF g chained_tlog_take [OF e accept(2)]] accept by blast
    have "le_Term x \<le> t" if "x \<in> set (reconcile (lg s p) ?X)" for x
      using that reconcile_cases [of "lg s p" ?X] node_invD(3) [OF n, of x p] accept(4)
        tlog_terms [OF e accept(2), of x] in_set_takeD [of x m]
      by fastforce
    then show ?thesis using accept(1) X keep [of p] reconcile_cases [of "lg s p" ?X]
      by (intro node_inv_update [OF g n, of p]) auto
  qed
qed

subsection \<open>Elections\<close>

lemma elect_inv_update:
  assumes g: "grows s s'" and e: "elect_inv quorum s"
    and new: "\<And>t c V el. elect s' t = Some (c, V, el) \<Longrightarrow> elect s t = Some (c, V, el)"
    and tl: "\<And>t. elect s t \<noteq> None \<Longrightarrow> tlog s' t = tlog s t"
    and lg: "\<And>t c V el. elect s t = Some (c, V, el) \<Longrightarrow> trm s' c = t \<Longrightarrow> trm s c = t \<Longrightarrow> lg s' c = lg s c"
  shows "elect_inv quorum s'"
  unfolding elect_inv_def
proof (intro allI impI)
  fix t c V el assume "elect s' t = Some (c, V, el)"
  then have el: "elect s t = Some (c, V, el)" by (rule new)
  then have tl': "tlog s' t = tlog s t" using tl by simp
  note D = elect_invD [OF e el]
  have b: "ballot s' q t = Some x" if "ballot s q t = Some x" for q x
    using that growsD(2) [OF g] by blast
  have "lg s' c = tlog s t" if "trm s' c = t"
    using that D(3,9) growsD(1) [OF g, of c] lg [OF el] by auto
  then show "quorum V \<and> 0 < t \<and> t \<le> trm s' c \<and> chained s' (tlog s' t) \<and>
      ballot s' c t = Some (c, el) \<and> (\<forall>p\<in>V. \<exists>pl. ballot s' p t = Some (c, pl)) \<and>
      (\<forall>e\<in>set el. le_Term e < t) \<and>
      (\<exists>rest. rest \<noteq> [] \<and> tlog s' t = el @ rest \<and> (\<forall>e\<in>set rest. le_Term e = t)) \<and>
      (trm s' c = t \<longrightarrow> lg s' c = tlog s' t)"
    using D(1,2,3,4,5,7,8) D(6) b growsD(1) [OF g, of c] chained_grows [OF g]
    by (simp add: tl') (meson order.trans)
qed

lemma step_elect_inv:
  assumes st: "protocol_step quorum s s'" and inv: "protocol_inv quorum s"
  shows "elect_inv quorum s'"
proof -
  have g: "grows s s'" by (rule step_grows [OF st inv])
  have n: "node_inv s" and e: "elect_inv quorum s" and b: "ballot_inv s"
    using inv by (auto simp: protocol_inv_def)
  have n': "node_inv s'" by (rule step_node_inv [OF st inv])
  from st show ?thesis
  proof cases
    case (observe p t)
    then show ?thesis by (intro elect_inv_update [OF g e]) auto
  next
    case (stand p t)
    then show ?thesis by (intro elect_inv_update [OF g e]) auto
  next
    case (vote p t c cl)
    then show ?thesis by (intro elect_inv_update [OF g e]) auto
  next
    case (win c t cl V x)
    have t: "0 < t" using ballot_invD(1) [OF b win(2)] .
    have lt: "le_Term y < t" if "y \<in> set cl" for y
      using that no_entry_unelected [OF node_invD(1) [OF n], of t y c] node_invD(3) [OF n, of y c]
        win t by fastforce
    have c': "chained s' (cl @ [x])" using node_invD(1) [OF n', of c] win(1) by simp
    show ?thesis
      unfolding elect_inv_def
    proof (intro allI impI)
      fix u d W el assume u: "elect s' u = Some (d, W, el)"
      show "quorum W \<and> 0 < u \<and> u \<le> trm s' d \<and> chained s' (tlog s' u) \<and>
        ballot s' d u = Some (d, el) \<and> (\<forall>p\<in>W. \<exists>pl. ballot s' p u = Some (d, pl)) \<and>
        (\<forall>e\<in>set el. le_Term e < u) \<and>
        (\<exists>rest. rest \<noteq> [] \<and> tlog s' u = el @ rest \<and> (\<forall>e\<in>set rest. le_Term e = u)) \<and>
        (trm s' d = u \<longrightarrow> lg s' d = tlog s' u)"
      proof (cases "u = t")
        case True
        then show ?thesis using u win t lt c' by auto
      next
        case False
        then have el: "elect s u = Some (d, W, el)" using u win(1) by simp
        note D = elect_invD [OF e el]
        have "chained s' (tlog s u)" using D(4) chained_grows [OF g] by blast
        moreover have "d \<noteq> c" if "trm s d = u" using that win(3) False by auto
        ultimately show ?thesis using D(1-8) D(9) False win(1) by auto
      qed
    qed
  next
    case (extend t c V el x)
    have L: "lg s c = tlog s t" using elect_invD(9) [OF e extend(2)] extend(3) by simp
    have c': "chained s' (tlog s t @ [x])" using node_invD(1) [OF n', of c] extend(1) L by simp
    show ?thesis
      unfolding elect_inv_def
    proof (intro allI impI)
      fix u d W el' assume u: "elect s' u = Some (d, W, el')"
      then have el: "elect s u = Some (d, W, el')" using extend(1) by simp
      note D = elect_invD [OF e el]
      show "quorum W \<and> 0 < u \<and> u \<le> trm s' d \<and> chained s' (tlog s' u) \<and>
        ballot s' d u = Some (d, el') \<and> (\<forall>p\<in>W. \<exists>pl. ballot s' p u = Some (d, pl)) \<and>
        (\<forall>e\<in>set el'. le_Term e < u) \<and>
        (\<exists>rest. rest \<noteq> [] \<and> tlog s' u = el' @ rest \<and> (\<forall>e\<in>set rest. le_Term e = u)) \<and>
        (trm s' d = u \<longrightarrow> lg s' d = tlog s' u)"
      proof (cases "u = t")
        case True
        obtain rest where r: "rest \<noteq> []" "tlog s t = el' @ rest" "\<forall>e\<in>set rest. le_Term e = t"
          using D(8) True by blast
        then have "tlog s' t = el' @ (rest @ [x])" using extend(1) L by simp
        moreover have "\<forall>e\<in>set (rest @ [x]). le_Term e = t" using r(3) extend(4) by auto
        ultimately have "\<exists>rest. rest \<noteq> [] \<and> tlog s' t = el' @ rest \<and> (\<forall>e\<in>set rest. le_Term e = t)"
          by blast
        moreover have "d = c" using el True extend(2) by simp
        ultimately show ?thesis using D(1-7) True extend(1) c' L by auto
      next
        case False
        have "chained s' (tlog s u)" using D(4) chained_grows [OF g] by blast
        moreover have "d \<noteq> c" if "trm s d = u" using that extend(3) False by auto
        ultimately show ?thesis using D(1-8) D(9) False extend(1) by auto
      qed
    qed
  next
    case (accept t c V el p m)
    show ?thesis
    proof (rule elect_inv_update [OF g e])
      fix u d W el' assume "elect s u = Some (d, W, el')" "trm s' d = u" "trm s d = u"
      then show "lg s' d = lg s d" using accept by (cases "d = p") auto
    qed (use accept(1) in auto)
  qed
qed

subsection \<open>Ballots\<close>

lemma up_to_date_refl: "up_to_date a a"
  by (simp add: up_to_date_def)

lemma step_new_ballot:
  assumes "protocol_step quorum s s'" and "protocol_inv quorum s"
    and "ballot s' p t = Some (c, pl)" and "ballot s p t \<noteq> Some (c, pl)"
  shows "ballot s p t = None" and "trm s p \<le> t" and "trm s' p = t" and "pl = lg s p"
    and "lg s' p = lg s p" and "elect s' = elect s" and "acks s' = acks s" and "0 < t"
    and "\<exists>cl. ballot s' c t = Some (c, cl) \<and> up_to_date cl pl"
proof -
  have n: "node_inv s" and b: "ballot_inv s" using assms(2) by (auto simp: protocol_inv_def)
  have none: "ballot s p t = None" if "trm s p < t"
    using that ballot_invD(2) [OF b] by (metis not_None_eq not_less surj_pair)
  from assms(1,3,4) have "ballot s p t = None \<and> trm s p \<le> t \<and> trm s' p = t \<and> pl = lg s p \<and>
     lg s' p = lg s p \<and> elect s' = elect s \<and> acks s' = acks s \<and> 0 < t \<and>
     (\<exists>cl. ballot s' c t = Some (c, cl) \<and> up_to_date cl pl)"
  proof cases
    case (stand q u)
    then have "q = p \<and> u = t" using assms(3,4) by (auto split: if_splits)
    then show ?thesis using stand assms(3) node_invD(2) [OF n, of p] none
      by (auto simp: up_to_date_refl)
  next
    case (vote q u d cl)
    then have "q = p \<and> u = t" using assms(3,4) by (auto split: if_splits)
    then show ?thesis using vote assms(3) ballot_invD(1) [OF b vote(5)] by auto
  qed (use assms(3,4) in auto)
  then show "ballot s p t = None" and "trm s p \<le> t" and "trm s' p = t" and "pl = lg s p"
    and "lg s' p = lg s p" and "elect s' = elect s" and "acks s' = acks s" and "0 < t"
    and "\<exists>cl. ballot s' c t = Some (c, cl) \<and> up_to_date cl pl"
    by auto
qed

lemma step_ballot_inv:
  assumes st: "protocol_step quorum s s'" and inv: "protocol_inv quorum s"
  shows "ballot_inv s'"
  unfolding ballot_inv_def
proof (intro allI impI)
  fix p t c pl assume new: "ballot s' p t = Some (c, pl)"
  have g: "grows s s'" by (rule step_grows [OF st inv])
  have n: "node_inv s" and b: "ballot_inv s" using inv by (auto simp: protocol_inv_def)
  show "0 < t \<and> t \<le> trm s' p \<and> chained s' pl \<and> (\<forall>e\<in>set pl. le_Term e \<le> t) \<and>
      (\<exists>cl. ballot s' c t = Some (c, cl) \<and> up_to_date cl pl)"
  proof (cases "ballot s p t = Some (c, pl)")
    case True
    note D = ballot_invD [OF b True]
    show ?thesis
      using D(1,2,3,4,5) growsD(1,2) [OF g] chained_grows [OF g] by (meson order.trans)
  next
    case False
    note N = step_new_ballot [OF st inv new False]
    show ?thesis
      using N(2-4,8,9) chained_grows [OF g node_invD(1) [OF n, of p]] node_invD(3) [OF n, of _ p]
      by fastforce
  qed
qed

subsection \<open>Acknowledgements\<close>

text \<open>
  A log that a step changes keeps every acknowledged prefix, unless a leader whose election the
  step's term reaches did not have it.
\<close>

lemma step_acks_old:
  assumes st: "protocol_step quorum s s'" and inv: "protocol_inv quorum s"
    and a: "(p, t, n) \<in> acks s"
  shows "holds s' t n (lg s' p) \<or> refuted s' t n (trm s' p)"
proof -
  have g: "grows s s'" by (rule step_grows [OF st inv])
  have e: "elect_inv quorum s" and ai: "acks_inv s" using inv by (auto simp: protocol_inv_def)
  note A = acks_invD [OF ai a]
  have h: "holds s' t n L = holds s t n L" for L using holds_grows [OF g A(1,2)] .
  show ?thesis
  proof (cases "refuted s t n (trm s p)")
    case True
    then show ?thesis using refuted_grows [OF g A(1,2)] growsD(1) [OF g] by blast
  next
    case False
    then have L: "holds s t n (lg s p)" using A(4) by blast
    from st show ?thesis
    proof cases
      case (win c u cl V x)
      then show ?thesis using L h holds_append [OF L A(2)] by auto
    next
      case (extend u c V el x)
      then show ?thesis using L h holds_append [OF L A(2)] by auto
    next
      case (accept u c V el q m)
      show ?thesis
      proof (cases "q = p")
        case False
        then show ?thesis using L h accept(1) by simp
      next
        case q: True
        have tu: "t \<le> u" using A(3) accept(4) q by simp
        have lg': "lg s' p = reconcile (lg s p) (take m (tlog s u))" using accept(1) q by simp
        have len: "Suc n \<le> length (lg s p)" using holds_length [OF L A(2)] by simp
        have keep: "holds s t n (lg s' p)" if "take (Suc n) (tlog s u) = take (Suc n) (tlog s t)"
          using reconcile_keeps [of "Suc n" "lg s p" "tlog s u" m] that L len accept(6)
          by (simp add: holds_def lg')
        show ?thesis
        proof (cases "t = u \<or> holds s t n el")
          case True
          then have "take (Suc n) (tlog s u) = take (Suc n) (tlog s t)"
          proof
            assume "holds s t n el"
            then have "holds s t n (tlog s u)"
              using holds_append [OF _ A(2)] elect_invD(8) [OF e accept(2)] by metis
            then show ?thesis by (simp add: holds_def)
          qed simp
          then show ?thesis using keep h by blast
        next
          case False
          then have "refuted s t n u" using tu accept(2) unfolding refuted_def by fastforce
          then have "refuted s' t n (trm s' p)"
            using refuted_grows [OF g A(1,2)] accept(1) q by simp
          then show ?thesis ..
        qed
      qed
    qed (use L h in auto)
  qed
qed

lemma step_acks_new:
  assumes st: "protocol_step quorum s s'" and inv: "protocol_inv quorum s"
    and a: "(p, t, n) \<in> acks s'" "(p, t, n) \<notin> acks s"
  shows "elect s' t \<noteq> None \<and> n < length (tlog s' t) \<and> t = trm s' p \<and> holds s' t n (lg s' p)
     \<and> ballot s' = ballot s"
proof -
  have n: "node_inv s" and e: "elect_inv quorum s" using inv by (auto simp: protocol_inv_def)
  from st a show ?thesis
  proof cases
    case (accept u c V el q m)
    then have q: "q = p" "u = t" "n < m" using a by auto
    have "chained s (take m (tlog s t))"
      using chained_tlog_take [OF e accept(2) accept(5)] q by simp
    then have "take (Suc n) (reconcile (lg s p) (take m (tlog s t))) = take (Suc n) (tlog s t)"
      using reconcile_takes [OF node_invD(1) [OF n, of p]] accept(6) q by blast
    then show ?thesis using accept q by (auto simp: holds_def)
  qed (auto simp: holds_def)
qed

lemma step_acks_inv:
  assumes st: "protocol_step quorum s s'" and inv: "protocol_inv quorum s"
  shows "acks_inv s'"
  unfolding acks_inv_def
proof (intro allI impI)
  fix p t n assume new: "(p, t, n) \<in> acks s'"
  have g: "grows s s'" by (rule step_grows [OF st inv])
  have ai: "acks_inv s" using inv by (auto simp: protocol_inv_def)
  show "elect s' t \<noteq> None \<and> n < length (tlog s' t) \<and> t \<le> trm s' p \<and>
      (holds s' t n (lg s' p) \<or> refuted s' t n (trm s' p))"
  proof (cases "(p, t, n) \<in> acks s")
    case True
    note A = acks_invD [OF ai True]
    show ?thesis
      using grows_elected [OF g A(1)] A(2,3) grows_tlog_length [OF g A(1)] growsD(1) [OF g, of p]
        step_acks_old [OF st inv True] by simp
  next
    case False
    then show ?thesis using step_acks_new [OF st inv new] by (metis order_refl)
  qed
qed

subsection \<open>Voters\<close>

lemma step_voters_inv:
  assumes st: "protocol_step quorum s s'" and inv: "protocol_inv quorum s"
  shows "voters_inv s'"
  unfolding voters_inv_def
proof (intro allI impI)
  fix p t n u c pl
  assume ack': "(p, t, n) \<in> acks s'" and bal': "ballot s' p u = Some (c, pl)" and tu: "t < u"
    and vot: "\<forall>c' V el. elect s' u = Some (c', V, el) \<longrightarrow> p \<in> V"
  have g: "grows s s'" by (rule step_grows [OF st inv])
  have ai: "acks_inv s" and b: "ballot_inv s" and vi: "voters_inv s"
    using inv by (auto simp: protocol_inv_def)
  have ack: "(p, t, n) \<in> acks s"
  proof (rule ccontr)
    assume "(p, t, n) \<notin> acks s"
    then have "t = trm s' p" using step_acks_new [OF st inv ack'] by simp
    then show False using ballot_invD(2) [OF step_ballot_inv [OF st inv] bal'] tu by simp
  qed
  note A = acks_invD [OF ai ack]
  have h: "holds s' t n L = holds s t n L" for L using holds_grows [OF g A(1,2)] .
  show "holds s' t n pl \<or> refuted s' t n (u - 1)"
  proof (cases "ballot s p u = Some (c, pl)")
    case True
    have "\<forall>c' V el. elect s u = Some (c', V, el) \<longrightarrow> p \<in> V" using vot growsD(3) [OF g] by blast
    then have "holds s t n pl \<or> refuted s t n (u - 1)"
      using vi ack True tu unfolding voters_inv_def by blast
    then show ?thesis using h refuted_grows [OF g A(1,2)] by blast
  next
    case False
    note N = step_new_ballot [OF st inv bal' False]
    have un: "elect s u = None"
    proof (rule ccontr)
      assume "elect s u \<noteq> None"
      then obtain c' V el where el: "elect s u = Some (c', V, el)" by auto
      then have "p \<in> V" using vot growsD(3) [OF g] by blast
      then show False
        using N(1) elect_invD(6) [of quorum s u c' V el p] el inv by (auto simp: protocol_inv_def)
    qed
    have "refuted s t n (u - 1)" if r: "refuted s t n (trm s p)"
    proof -
      obtain w d W el where w: "t < w" "w \<le> trm s p" "elect s w = Some (d, W, el)" "\<not> holds s t n el"
        using r unfolding refuted_def by blast
      then have "w \<le> u - 1" using N(2) un by (cases "w = u") auto
      then show ?thesis using w unfolding refuted_def by blast
    qed
    then show ?thesis using A(4) N(4) h refuted_grows [OF g A(1,2)] by blast
  qed
qed

section \<open>Reachable states\<close>

lemma protocol_inv_init: "protocol_inv quorum proto_init"
  by (auto simp: protocol_inv_def proto_inv_defs proto_init_def chained_def)

lemma protocol_step_inv:
  "protocol_step quorum s s' \<Longrightarrow> protocol_inv quorum s \<Longrightarrow> protocol_inv quorum s'"
  unfolding protocol_inv_def [of quorum s']
  using step_node_inv step_elect_inv step_ballot_inv step_acks_inv step_voters_inv by blast

theorem protocol_reachable_inv: "protocol_reachable quorum s \<Longrightarrow> protocol_inv quorum s"
  by (induction rule: protocol_reachable.induct) (auto intro: protocol_inv_init protocol_step_inv)

section \<open>Commitment and leader completeness\<close>

text \<open>An entry is chosen when a quorum acknowledged it in its own term.\<close>

definition chosen :: "(int set \<Rightarrow> bool) \<Rightarrow> proto \<Rightarrow> int \<Rightarrow> nat \<Rightarrow> bool" where
  "chosen quorum s t n \<longleftrightarrow>
     n < length (tlog s t) \<and> le_Term (tlog s t ! n) = t \<and> elect s t \<noteq> None \<and>
     (\<exists>Q. quorum Q \<and> (\<forall>p\<in>Q. (p, t, n) \<in> acks s))"

lemma chosenD:
  assumes "chosen quorum s t n"
  shows "n < length (tlog s t)" and "le_Term (tlog s t ! n) = t" and "elect s t \<noteq> None"
    and "\<exists>Q. quorum Q \<and> (\<forall>p\<in>Q. (p, t, n) \<in> acks s)"
  using assms by (auto simp: chosen_def)

lemma chosen_grows:
  assumes g: "grows s s'" and ch: "chosen quorum s t n"
  shows "chosen quorum s' t n"
  unfolding chosen_def
proof (intro conjI)
  note C = chosenD [OF ch]
  show "n < length (tlog s' t)" using C(1) grows_tlog_length [OF g C(3)] by simp
  show "le_Term (tlog s' t ! n) = t" using C(2) grows_tlog_nth [OF g C(3) C(1)] by simp
  show "elect s' t \<noteq> None" using grows_elected [OF g C(3)] .
  show "\<exists>Q. quorum Q \<and> (\<forall>p\<in>Q. (p, t, n) \<in> acks s')" using C(4) growsD(5) [OF g] by blast
qed

text \<open>
  A candidate that is at least as up to date as a voter whose log holds a chosen prefix holds it
  too, provided the leaders in between do.
\<close>

lemma up_to_date_holds:
  assumes cl: "chained s cl" and pl: "chained s pl" and up: "up_to_date cl pl"
    and h: "holds s t n pl" and n: "n < length (tlog s t)" and tn: "le_Term (tlog s t ! n) = t"
    and between: "\<And>w c V el. t < w \<Longrightarrow> w \<le> le_Term (last cl) \<Longrightarrow> elect s w = Some (c, V, el) \<Longrightarrow>
      holds s t n (tlog s w)"
    and T: "0 < t"
  shows "holds s t n cl"
proof -
  have len_pl: "n < length pl" using holds_length [OF h n] .
  have pn: "le_Term (pl ! n) = t"
    using h tn take_eq_nth [of "Suc n" pl "tlog s t" n] by (simp add: holds_def)
  define u where "u = le_Term (last cl)"
  define k where "k = length cl - 1"
  have k: "k < length cl" "cl ! k = last cl" "Suc k = length cl"
    using chained_nonempty [OF cl] by (auto simp: k_def last_conv_nth)
  define j where "j = length pl - 1"
  have j: "j < length pl" "pl ! j = last pl" "n \<le> j" "Suc j = length pl"
    using len_pl chained_nonempty [OF pl] by (auto simp: j_def last_conv_nth)
  have tl: "t \<le> le_Term (last pl)" using chained_sorted [OF pl j(3,1)] pn j(2) by simp
  have tu: "t \<le> u" using up tl unfolding up_to_date_def u_def by linarith
  have "0 < k"
    using T tu chained_zero [OF cl] k(2) unfolding u_def by (cases k) auto
  have cu: "elect s u \<noteq> None" "k < length (tlog s u)" "take (Suc k) cl = take (Suc k) (tlog s u)"
    using chained_at [OF cl k(1) \<open>0 < k\<close>] k(2) by (auto simp: u_def)
  show ?thesis
  proof (cases "u = le_Term (last pl)")
    case True
    then have "length pl \<le> length cl" using up by (auto simp: up_to_date_def u_def)
    then have jk: "j \<le> k" using j(4) k(3) by simp
    have "0 < j" using T tl chained_zero [OF pl] j(2) by (cases j) auto
    have "take (Suc j) pl = take (Suc j) (tlog s u)"
      using chained_at [OF pl j(1) \<open>0 < j\<close>] j(2) True by simp
    moreover have "take (Suc j) cl = take (Suc j) (tlog s u)" using take_eq_mono [OF cu(3)] jk by simp
    ultimately have "take (Suc n) cl = take (Suc n) pl"
      using take_eq_mono [of "Suc j" cl pl "Suc n"] j(3) by simp
    then show ?thesis using h by (simp add: holds_def)
  next
    case False
    then have "t < u" using up tl unfolding up_to_date_def u_def by linarith
    then have H: "holds s t n (tlog s u)" using between cu(1) unfolding u_def by fastforce
    have "n < k"
    proof (rule ccontr)
      assume "\<not> n < k"
      then have "k \<le> n" by simp
      have "cl ! k = tlog s t ! k"
        using take_eq_nth [OF cu(3), of k] take_eq_nth [of "Suc n" "tlog s u" "tlog s t" k] H \<open>k \<le> n\<close>
        by (simp add: holds_def)
      moreover have "le_Term (tlog s t ! k) \<le> t"
        using chained_sorted [OF pl \<open>k \<le> n\<close> len_pl] pn \<open>k \<le> n\<close> h
          take_eq_nth [of "Suc n" pl "tlog s t" k] by (simp add: holds_def)
      ultimately show False using \<open>t < u\<close> k(2) u_def by simp
    qed
    then have "take (Suc n) cl = take (Suc n) (tlog s u)" using take_eq_mono [OF cu(3)] by simp
    then show ?thesis using H by (simp add: holds_def)
  qed
qed

text \<open>A prefix of length \<open>k\<close> is committed by term \<open>b\<close> in a log when it lies in a chosen one.\<close>

definition committed :: "(int set \<Rightarrow> bool) \<Rightarrow> proto \<Rightarrow> int \<Rightarrow> nat \<Rightarrow> elog \<Rightarrow> bool" where
  "committed quorum s b k L \<longleftrightarrow>
     (\<exists>t n. t \<le> b \<and> chosen quorum s t n \<and> k \<le> n \<and> take (Suc k) L = take (Suc k) (tlog s t))"

context quorum_system begin

text \<open>
  Leader completeness: the log of a later term's leader at its election holds everything chosen
  before. Induction on the later term; the voter common to the two quorums carries the prefix.
\<close>

lemma leader_completeness:
  assumes inv: "protocol_inv quorum s" and ch: "chosen quorum s t n"
  shows "t < u \<Longrightarrow> elect s u = Some (c, V, el) \<Longrightarrow> holds s t n el"
proof (induction "nat (u - t)" arbitrary: u c V el rule: less_induct)
  case less
  have n: "node_inv s" and b: "ballot_inv s" and e: "elect_inv quorum s" and vi: "voters_inv s"
    using inv by (auto simp: protocol_inv_def)
  note C = chosenD [OF ch]
  obtain Q where Q: "quorum Q" "\<And>p. p \<in> Q \<Longrightarrow> (p, t, n) \<in> acks s" using C(4) by blast
  have t0: "0 < t" using C(3) elect_invD(2) [OF e] by auto
  note D = elect_invD [OF e less.prems(2)]
  obtain p where p: "p \<in> Q" "p \<in> V" using common_member [OF Q(1) D(1)] .
  obtain pl where pl: "ballot s p u = Some (c, pl)" using D(6) [OF p(2)] by blast
  have IH: "holds s t n el'" if "t < w" "w < u" "elect s w = Some (c', V', el')" for w c' V' el'
    using less.hyps [of w c' V' el'] that by auto
  have "\<not> refuted s t n (u - 1)" using IH unfolding refuted_def by fastforce
  then have hp: "holds s t n pl"
    using vi Q(2) [OF p(1)] pl less.prems p(2) unfolding voters_inv_def by fastforce
  obtain cl where cl: "ballot s c u = Some (c, cl)" "up_to_date cl pl"
    using ballot_invD(5) [OF b pl] by blast
  have "cl = el" using cl(1) D(5) by simp
  have lt: "le_Term (last el) < u"
    using D(7) ballot_invD(3) [OF b D(5)] chained_nonempty by (metis last_in_set)
  show ?case
  proof (rule up_to_date_holds [OF _ ballot_invD(3) [OF b pl] _ hp C(1,2) _ t0])
    show "chained s el" using ballot_invD(3) [OF b D(5)] .
    show "up_to_date el pl" using cl(2) \<open>cl = el\<close> by simp
    fix w c' V' el' assume w: "t < w" "w \<le> le_Term (last el)" "elect s w = Some (c', V', el')"
    then have "holds s t n el'" using IH lt by simp
    then show "holds s t n (tlog s w)"
      using holds_append [OF _ C(1)] elect_invD(8) [OF e w(3)] by metis
  qed
qed

text \<open>Hence the logs of leaders agree on every chosen prefix, the later one holding it.\<close>

lemma chosen_in_later_log:
  assumes inv: "protocol_inv quorum s" and ch: "chosen quorum s t n"
    and "t \<le> u" and "elect s u \<noteq> None"
  shows "holds s t n (tlog s u)"
proof (cases "t = u")
  case True
  then show ?thesis by (simp add: holds_def)
next
  case False
  then have "t < u" using assms(3) by simp
  obtain c V el where el: "elect s u = Some (c, V, el)" using assms(4) by auto
  have e: "elect_inv quorum s" using inv by (auto simp: protocol_inv_def)
  show ?thesis
    using leader_completeness [OF inv ch \<open>t < u\<close> el] holds_append [OF _ chosenD(1) [OF ch]]
      elect_invD(8) [OF e el] by metis
qed

text \<open>State machine safety: logs agree wherever both are committed.\<close>

lemma committed_agree:
  assumes inv: "protocol_inv quorum s"
    and "committed quorum s b k L" and "committed quorum s b' k' L'" and "i \<le> k" and "i \<le> k'"
  shows "take (Suc i) L = take (Suc i) L'"
proof -
  obtain t n where t: "chosen quorum s t n" "k \<le> n" "take (Suc k) L = take (Suc k) (tlog s t)"
    using assms(2) unfolding committed_def by blast
  obtain u m where u: "chosen quorum s u m" "k' \<le> m" "take (Suc k') L' = take (Suc k') (tlog s u)"
    using assms(3) unfolding committed_def by blast
  have L: "take (Suc i) L = take (Suc i) (tlog s t)" using take_eq_mono [OF t(3)] assms(4) by simp
  have L': "take (Suc i) L' = take (Suc i) (tlog s u)" using take_eq_mono [OF u(3)] assms(5) by simp
  consider "t \<le> u" | "u \<le> t" by linarith
  then have "take (Suc i) (tlog s u) = take (Suc i) (tlog s t)"
  proof cases
    case 1
    then show ?thesis
      using chosen_in_later_log [OF inv t(1) 1 chosenD(3) [OF u(1)]] holds_take assms(4) t(2)
      by (meson order.trans)
  next
    case 2
    then show ?thesis
      using chosen_in_later_log [OF inv u(1) 2 chosenD(3) [OF t(1)]] holds_take assms(5) u(2)
      by (metis order.trans)
  qed
  with L L' show ?thesis by simp
qed

lemma committed_grows:
  assumes g: "grows s s'" and c: "committed quorum s b k L" and "b \<le> b'"
  shows "committed quorum s' b' k L"
proof -
  obtain t n where t: "t \<le> b" "chosen quorum s t n" "k \<le> n" "take (Suc k) L = take (Suc k) (tlog s t)"
    using c unfolding committed_def by blast
  have "take (Suc k) (tlog s' t) = take (Suc k) (tlog s t)"
    using grows_tlog_take [OF g chosenD(3) [OF t(2)]] chosenD(1) [OF t(2)] t(3) by simp
  then show ?thesis
    using t chosen_grows [OF g t(2)] assms(3) unfolding committed_def by (metis order.trans)
qed

lemma committed_length:
  assumes "committed quorum s b k L"
  shows "k < length L"
proof -
  obtain t n where t: "chosen quorum s t n" "k \<le> n" "take (Suc k) L = take (Suc k) (tlog s t)"
    using assms unfolding committed_def by blast
  have "k < length (tlog s t)" using chosenD(1) [OF t(1)] t(2) by simp
  then show ?thesis using take_eq_length [OF t(3)] by simp
qed

lemma committed_prefix:
  "committed quorum s b k L \<Longrightarrow> i \<le> k \<Longrightarrow> take (Suc i) L' = take (Suc i) L \<Longrightarrow> committed quorum s b i L'"
  unfolding committed_def by (metis order.trans Suc_le_mono take_eq_mono)

text \<open>A committed prefix of a follower's log survives the merge with a later leader's entries.\<close>

lemma committed_merge:
  assumes inv: "protocol_inv quorum s" and c: "committed quorum s b k L" and "b \<le> u"
    and "elect s u \<noteq> None" and "m \<le> length (tlog s u)"
  shows "take (Suc k) (reconcile L (take m (tlog s u))) = take (Suc k) L"
proof -
  obtain t n where t: "t \<le> b" "chosen quorum s t n" "k \<le> n" "take (Suc k) L = take (Suc k) (tlog s t)"
    using c unfolding committed_def by blast
  have "t \<le> u" using t(1) assms(3) by simp
  then have "take (Suc k) (tlog s u) = take (Suc k) (tlog s t)"
    using holds_take [OF chosen_in_later_log [OF inv t(2) _ assms(4)] t(3)] by simp
  then show ?thesis
    using reconcile_keeps [of "Suc k" L "tlog s u" m] t(4) committed_length [OF c] assms(5) by simp
qed

end

end
