(* ===== verification/RaftSimulation.thy ===== *)
theory RaftSimulation
  imports RaftCluster RaftNodeFacts RaftSafety "HOL-Library.Sublist"
begin

text \<open>
  The cluster implements the abstract protocol: \<open>sim\<close> relates a cluster to a protocol state that
  recorded its history, every event of the cluster is matched by protocol steps, and no handler
  panics on the way.
\<close>

interpretation majority: quorum_system "is_majority cfg" for cfg
  by unfold_locales (rule majorities_meet)

section \<open>The simulation relation\<close>

definition to_msg :: "LogEntry \<Rightarrow> ApplyMsg" where
  "to_msg e = \<lparr>am_Index = le_Index e, am_Term = le_Term e, am_Command = le_Command e\<rparr>"

text \<open>The part that does not depend on the history.\<close>

definition shape_ok :: "ClusterConfig \<Rightarrow> int32 \<Rightarrow> Raft \<Rightarrow> bool" where
  "shape_ok cfg i rf \<longleftrightarrow>
     rid rf = i \<and> peers rf = Nodes cfg \<and> peerConns rf = node_ids cfg - {i} \<and>
     length (nextIndex rf) = length (Nodes cfg) \<and> length (matchIndex rf) = length (Nodes cfg) \<and>
     wf_log (log rf) \<and> 0 \<le> lastApplied rf \<and> lastApplied rf \<le> commitIndex rf \<and>
     commitCh rf = map to_msg (drop 1 (take (Suc (nat (lastApplied rf))) (entries (log rf))))"

definition vote_ok :: "proto \<Rightarrow> int32 \<Rightarrow> Raft \<Rightarrow> bool" where
  "vote_ok s i rf \<longleftrightarrow>
     (if votedFor rf = -1 then ballot s i (currentTerm rf) = None
      else \<exists>pl. ballot s i (currentTerm rf) = Some (votedFor rf, pl))"

definition candidate_ok :: "proto \<Rightarrow> int32 \<Rightarrow> Raft \<Rightarrow> bool" where
  "candidate_ok s i rf \<longleftrightarrow>
     (\<exists>pl. ballot s i (currentTerm rf) = Some (i, pl) \<and>
           (elect s (currentTerm rf) = None \<longrightarrow> pl = lg s i)) \<and>
     (\<forall>V el. elect s (currentTerm rf) \<noteq> Some (i, V, el))"

definition leader_ok :: "ClusterConfig \<Rightarrow> proto \<Rightarrow> int32 \<Rightarrow> Raft \<Rightarrow> bool" where
  "leader_ok cfg s i rf \<longleftrightarrow>
     (\<exists>V el. elect s (currentTerm rf) = Some (i, V, el)) \<and>
     (\<forall>k < length (lg s i). (i, currentTerm rf, k) \<in> acks s) \<and>
     (\<forall>p \<in> node_ids cfg.
        1 \<le> nextIndex rf ! nat p \<and> nextIndex rf ! nat p \<le> int (length (lg s i)) \<and>
        0 \<le> matchIndex rf ! nat p \<and>
        (0 < matchIndex rf ! nat p \<longrightarrow>
           (\<forall>k \<le> nat (matchIndex rf ! nat p). (p, currentTerm rf, k) \<in> acks s)))"

definition commit_ok :: "ClusterConfig \<Rightarrow> proto \<Rightarrow> int \<Rightarrow> int \<Rightarrow> elog \<Rightarrow> bool" where
  "commit_ok cfg s b n L \<longleftrightarrow> (0 < n \<longrightarrow> committed (is_majority cfg) s b (nat n) L)"

definition node_ok :: "ClusterConfig \<Rightarrow> proto \<Rightarrow> int32 \<Rightarrow> Raft \<Rightarrow> bool" where
  "node_ok cfg s i rf \<longleftrightarrow>
     shape_ok cfg i rf \<and> currentTerm rf = trm s i \<and> entries (log rf) = lg s i \<and>
     vote_ok s i rf \<and> (rstate rf = Candidate \<longrightarrow> candidate_ok s i rf) \<and>
     (rstate rf = Leader \<longrightarrow> leader_ok cfg s i rf) \<and>
     commit_ok cfg s (trm s i) (commitIndex rf) (lg s i)"

definition vreq_ok :: "ClusterConfig \<Rightarrow> proto \<Rightarrow> int32 \<times> RequestVoteArgs \<Rightarrow> bool" where
  "vreq_ok cfg s m = (case m of (p, a) \<Rightarrow>
     p \<in> node_ids cfg \<and> rv_CandidateId a \<in> node_ids cfg \<and> p \<noteq> rv_CandidateId a \<and>
     (\<exists>cl. ballot s (rv_CandidateId a) (rv_Term a) = Some (rv_CandidateId a, cl) \<and>
           rv_LastLogIndex a = int (length cl) - 1 \<and> rv_LastLogTerm a = le_Term (last cl)))"

definition vrep_ok :: "proto \<Rightarrow> int32 \<times> int32 \<times> int64 \<times> RequestVoteReply \<Rightarrow> bool" where
  "vrep_ok s m = (case m of (c, p, t, r) \<Rightarrow>
     vr_VoteGranted r \<longrightarrow> (\<exists>pl. ballot s p t = Some (c, pl)))"

definition go_ok :: "ClusterConfig \<Rightarrow> proto \<Rightarrow> int32 \<times> int32 \<times> int64 \<Rightarrow> bool" where
  "go_ok cfg s m = (case m of (c, p, t) \<Rightarrow>
     c \<in> node_ids cfg \<and> p \<in> node_ids cfg \<and> p \<noteq> c \<and> t \<le> trm s c)"

definition tally_ok :: "ClusterConfig \<Rightarrow> proto \<Rightarrow> (int32 \<times> int32 \<times> int64) set \<Rightarrow> int32 \<Rightarrow> int64 \<Rightarrow> int \<Rightarrow> bool" where
  "tally_ok cfg s gos i t v \<longleftrightarrow>
     (\<exists>C. C \<subseteq> node_ids cfg - {i} \<and> v \<le> 1 + int (card C) \<and>
          (\<forall>p \<in> C. (i, p, t) \<notin> gos \<and> (\<exists>pl. ballot s p t = Some (i, pl))))"

definition areq_ok :: "ClusterConfig \<Rightarrow> proto \<Rightarrow> int32 \<times> AppendEntriesArgs \<Rightarrow> bool" where
  "areq_ok cfg s m = (case m of (p, a) \<Rightarrow>
     let k = Suc (nat (ae_PrevLogIndex a)); n = length (ae_Entries a); T = tlog s (ae_Term a) in
     p \<in> node_ids cfg \<and> ae_LeaderId a \<in> node_ids cfg \<and> p \<noteq> ae_LeaderId a \<and>
     (\<exists>V el. elect s (ae_Term a) = Some (ae_LeaderId a, V, el)) \<and>
     0 \<le> ae_PrevLogIndex a \<and> k + n \<le> length T \<and> ae_Entries a = take n (drop k T) \<and>
     ae_PrevLogTerm a = le_Term (T ! nat (ae_PrevLogIndex a)) \<and>
     ae_LeaderCommit a \<le> ae_PrevLogIndex a + int n \<and>
     commit_ok cfg s (ae_Term a) (ae_LeaderCommit a) T)"

definition arep_ok ::
  "ClusterConfig \<Rightarrow> proto \<Rightarrow> int32 \<times> int32 \<times> AppendEntriesArgs \<times> AppendEntriesReply \<Rightarrow> bool" where
  "arep_ok cfg s m = (case m of (l, p, a, r) \<Rightarrow>
     l \<in> node_ids cfg \<and> p \<in> node_ids cfg \<and> 0 \<le> ae_PrevLogIndex a \<and>
     (ar_Success r \<longrightarrow>
        (\<forall>k \<le> nat (ae_PrevLogIndex a) + length (ae_Entries a). (p, ae_Term a, k) \<in> acks s)))"

definition tlogs_ok :: "proto \<Rightarrow> bool" where
  "tlogs_ok s \<longleftrightarrow> (\<forall>t. elect s t \<noteq> None \<longrightarrow> wf_entries (tlog s t))"

definition msgs_ok :: "ClusterConfig \<Rightarrow> cluster \<Rightarrow> proto \<Rightarrow> bool" where
  "msgs_ok cfg c s \<longleftrightarrow>
     (\<forall>m \<in> voteReqs c. vreq_ok cfg s m) \<and> (\<forall>m \<in> voteReps c. vrep_ok s m) \<and>
     (\<forall>m \<in> voteGos c. go_ok cfg s m) \<and>
     (\<forall>i \<in> node_ids cfg. \<forall>t. tally_ok cfg s (voteGos c) i t (votes c i t)) \<and>
     (\<forall>m \<in> appReqs c. areq_ok cfg s m) \<and> (\<forall>m \<in> appReps c. arep_ok cfg s m)"

definition sim :: "ClusterConfig \<Rightarrow> cluster \<Rightarrow> proto \<Rightarrow> bool" where
  "sim cfg c s \<longleftrightarrow>
     protocol_reachable (is_majority cfg) s \<and> tlogs_ok s \<and> msgs_ok cfg c s \<and>
     (\<forall>i \<in> node_ids cfg. node_ok cfg s i (nodes c i))"

section \<open>What growth of the history preserves\<close>

lemma grows_refl: "grows s s"
  by (simp add: grows_def)

lemma grows_trans:
  assumes "grows s s'" and "grows s' s''"
  shows "grows s s''"
proof -
  have "\<exists>r. tlog s'' t = tlog s t @ r" if el: "elect s t \<noteq> None" for t
    using growsD(4) [OF assms(1) el] growsD(4) [OF assms(2) grows_elected [OF assms(1) el]]
    by fastforce
  moreover have "trm s p \<le> trm s'' p" for p
    using growsD(1) [OF assms(1), of p] growsD(1) [OF assms(2), of p] by linarith
  moreover have "ballot s'' p t = Some b" if "ballot s p t = Some b" for p t b
    using that growsD(2) assms by blast
  moreover have "elect s'' t = Some x" if "elect s t = Some x" for t x
    using that growsD(3) assms by blast
  moreover have "acks s \<subseteq> acks s''" using growsD(5) assms by blast
  ultimately show ?thesis unfolding grows_def by blast
qed

lemma reach_step:
  assumes "protocol_reachable Q s" and "protocol_step Q s s'"
  shows "protocol_reachable Q s'" and "grows s s'" and "protocol_run Q s s'"
  using protocol_reachable.step [OF assms] protocol_run_step [OF assms(2)] step_grows [OF assms(2) protocol_reachable_inv [OF assms(1)]]
  by auto

lemma commit_ok_grows:
  "grows s s' \<Longrightarrow> commit_ok cfg s b n L \<Longrightarrow> b \<le> b' \<Longrightarrow> commit_ok cfg s' b' n L"
  unfolding commit_ok_def using majority.committed_grows by blast

lemma commit_ok_prefix:
  "commit_ok cfg s b n L \<Longrightarrow> i \<le> n \<Longrightarrow> take (Suc (nat i)) L' = take (Suc (nat i)) L \<Longrightarrow>
     commit_ok cfg s b i L'"
  unfolding commit_ok_def using majority.committed_prefix [of cfg s b "nat n" L "nat i" L'] by auto

lemma commit_ok_length:
  assumes "commit_ok cfg s b n L" and "L \<noteq> []"
  shows "n < int (length L)"
proof (cases "0 < n")
  case True
  then have "nat n < length L"
    using assms(1) majority.committed_length by (auto simp: commit_ok_def)
  then show ?thesis by linarith
next
  case False
  then show ?thesis using assms(2) by (metis linorder_not_less of_nat_0_less_iff order.strict_trans1 length_greater_0_conv)
qed

lemma vreq_ok_grows: "grows s s' \<Longrightarrow> vreq_ok cfg s m \<Longrightarrow> vreq_ok cfg s' m"
  unfolding vreq_ok_def using growsD(2) by (fastforce split: prod.splits)

lemma vrep_ok_grows: "grows s s' \<Longrightarrow> vrep_ok s m \<Longrightarrow> vrep_ok s' m"
  unfolding vrep_ok_def using growsD(2) by (fastforce split: prod.splits)

lemma go_ok_grows: "grows s s' \<Longrightarrow> go_ok cfg s m \<Longrightarrow> go_ok cfg s' m"
  unfolding go_ok_def using growsD(1) [of s s' "fst m"] by (auto split: prod.splits)

lemma tally_ok_grows:
  assumes g: "grows s s'" and ok: "tally_ok cfg s gos i t v"
    and sub: "\<And>p. (i, p, t) \<in> gos' \<Longrightarrow> (i, p, t) \<in> gos"
  shows "tally_ok cfg s' gos' i t v"
proof -
  obtain C where C: "C \<subseteq> node_ids cfg - {i}" "v \<le> 1 + int (card C)"
    "\<forall>p \<in> C. (i, p, t) \<notin> gos \<and> (\<exists>pl. ballot s p t = Some (i, pl))"
    using ok unfolding tally_ok_def by blast
  have "\<forall>p \<in> C. (i, p, t) \<notin> gos' \<and> (\<exists>pl. ballot s' p t = Some (i, pl))"
    using C(3) sub growsD(2) [OF g] by meson
  then show ?thesis using C(1,2) unfolding tally_ok_def by blast
qed

lemma arep_ok_grows: "grows s s' \<Longrightarrow> arep_ok cfg s m \<Longrightarrow> arep_ok cfg s' m"
  unfolding arep_ok_def using growsD(5) by (fastforce split: prod.splits)

lemma areq_ok_grows:
  assumes g: "grows s s'" and ok: "areq_ok cfg s m"
  shows "areq_ok cfg s' m"
proof -
  obtain p a where m: "m = (p, a)" by (cases m)
  let ?k = "Suc (nat (ae_PrevLogIndex a))" and ?n = "length (ae_Entries a)"
  have el: "elect s (ae_Term a) \<noteq> None" using ok by (auto simp: areq_ok_def m Let_def)
  obtain r where r: "tlog s' (ae_Term a) = tlog s (ae_Term a) @ r" using growsD(4) [OF g el] by blast
  have len: "?k + ?n \<le> length (tlog s (ae_Term a))" using ok by (simp add: areq_ok_def m Let_def)
  have "commit_ok cfg s' (ae_Term a) (ae_LeaderCommit a) (tlog s' (ae_Term a))"
  proof (rule commit_ok_prefix)
    show "commit_ok cfg s' (ae_Term a) (ae_LeaderCommit a) (tlog s (ae_Term a))"
      using ok commit_ok_grows [OF g] by (auto simp: areq_ok_def m Let_def)
    have "nat (ae_LeaderCommit a) \<le> nat (ae_PrevLogIndex a) + ?n"
      using ok by (simp add: areq_ok_def m Let_def nat_le_iff)
    then have "Suc (nat (ae_LeaderCommit a)) \<le> length (tlog s (ae_Term a))"
      using len by simp
    then show "take (Suc (nat (ae_LeaderCommit a))) (tlog s' (ae_Term a)) =
        take (Suc (nat (ae_LeaderCommit a))) (tlog s (ae_Term a))"
      by (simp add: r)
  qed simp
  moreover have "take ?n (drop ?k (tlog s' (ae_Term a))) = take ?n (drop ?k (tlog s (ae_Term a)))"
    using len by (simp add: r)
  moreover have "tlog s' (ae_Term a) ! nat (ae_PrevLogIndex a) = tlog s (ae_Term a) ! nat (ae_PrevLogIndex a)"
    using len by (simp add: r nth_append)
  ultimately show ?thesis
    using ok growsD(3) [OF g, of "ae_Term a"] grows_tlog_length [OF g el]
    unfolding areq_ok_def m Let_def by fastforce
qed

lemma vote_ok_cong:
  "votedFor rf' = votedFor rf \<Longrightarrow> currentTerm rf' = currentTerm rf \<Longrightarrow> ballot s' i = ballot s i \<Longrightarrow>
     vote_ok s' i rf' = vote_ok s i rf"
  by (simp add: vote_ok_def)

lemma node_ok_frame:
  assumes g: "grows s s'" and ok: "node_ok cfg s j rf"
    and "lg s' j = lg s j" and "trm s' j = trm s j" and "ballot s' j = ballot s j"
    and el: "\<And>t V el. elect s' t = Some (j, V, el) \<Longrightarrow> elect s t = Some (j, V, el)"
  shows "node_ok cfg s' j rf"
proof -
  have "vote_ok s' j rf = vote_ok s j rf" by (rule vote_ok_cong) (simp_all add: assms(5))
  moreover have "candidate_ok s' j rf" if "rstate rf = Candidate"
  proof -
    have c: "candidate_ok s j rf" using ok that by (simp add: node_ok_def)
    then show ?thesis
      using assms(3,5) el growsD(3) [OF g] unfolding candidate_ok_def
      by (metis (no_types, lifting) not_None_eq)
  qed
  moreover have "leader_ok cfg s' j rf" if "rstate rf = Leader"
  proof -
    have c: "leader_ok cfg s j rf" using ok that by (simp add: node_ok_def)
    then show ?thesis
      using assms(3) growsD(3,5) [OF g] unfolding leader_ok_def by fastforce
  qed
  moreover have "commit_ok cfg s' (trm s' j) (commitIndex rf) (lg s' j)"
    using ok assms(3,4)
      commit_ok_grows [OF g, of cfg "trm s j" "commitIndex rf" "lg s j" "trm s j"]
    by (simp add: node_ok_def)
  ultimately show ?thesis using ok assms(3,4) by (simp add: node_ok_def)
qed

text \<open>The protocol steps of one node touch no other node.\<close>

definition touches :: "int32 \<Rightarrow> proto \<Rightarrow> proto \<Rightarrow> bool" where
  "touches i s s' \<longleftrightarrow>
     (\<forall>j. j \<noteq> i \<longrightarrow> lg s' j = lg s j \<and> trm s' j = trm s j \<and> ballot s' j = ballot s j \<and>
        (\<forall>t V el. elect s' t = Some (j, V, el) \<longrightarrow> elect s t = Some (j, V, el)))"

lemma touches_refl: "touches i s s"
  by (simp add: touches_def)

lemma touches_trans: "touches i s s' \<Longrightarrow> touches i s' s'' \<Longrightarrow> touches i s s''"
  by (simp add: touches_def)

text \<open>An event leads to a related state, which the protocol reaches from the old one by steps of its own.\<close>

definition node_grows :: "Raft \<Rightarrow> Raft \<Rightarrow> bool" where
  "node_grows rf rf' \<longleftrightarrow>
     commitIndex rf \<le> commitIndex rf' \<and> lastApplied rf \<le> lastApplied rf' \<and>
     prefix (commitCh rf) (commitCh rf') \<and> (dead rf \<longrightarrow> dead rf')"

lemma node_grows_refl [simp]: "node_grows rf rf"
  by (simp add: node_grows_def)

lemma node_grows_trans: "node_grows a b \<Longrightarrow> node_grows b c \<Longrightarrow> node_grows a c"
  unfolding node_grows_def using prefix_order.trans by fastforce

definition advances :: "ClusterConfig \<Rightarrow> cluster \<Rightarrow> proto \<Rightarrow> cluster \<Rightarrow> proto \<Rightarrow> bool" where
  "advances cfg c s c' s' \<longleftrightarrow>
     sim cfg c' s' \<and> protocol_run (is_majority cfg) s s' \<and> grows s s' \<and>
     (\<forall>i. node_grows (nodes c i) (nodes c' i))"

lemma advances_refl: "sim cfg c s \<Longrightarrow> advances cfg c s c s"
  by (simp add: advances_def grows_refl)

lemma advances_trans:
  assumes "advances cfg c s c' s'" and "advances cfg c' s' c'' s''"
  shows "advances cfg c s c'' s''"
  using assms protocol_run_trans [of _ s s' s''] grows_trans [of s s' s'']
    node_grows_trans [of "nodes c i" "nodes c' i" "nodes c'' i" for i]
  unfolding advances_def by simp

lemma simI:
  assumes sim: "sim cfg c s" and run: "protocol_run (is_majority cfg) s s'" and g: "grows s s'"
    and tch: "touches i s s'" and nodes': "nodes c' = (nodes c)(i := rf)"
    and ng: "node_grows (nodes c i) rf"
    and node: "node_ok cfg s' i rf" and tl: "tlogs_ok s'"
    and vq: "\<And>m. m \<in> voteReqs c' \<Longrightarrow> m \<in> voteReqs c \<or> vreq_ok cfg s' m"
    and vp: "\<And>m. m \<in> voteReps c' \<Longrightarrow> m \<in> voteReps c \<or> vrep_ok s' m"
    and gos: "\<And>m. m \<in> voteGos c' \<Longrightarrow> m \<in> voteGos c \<or> go_ok cfg s' m"
    and tal: "\<And>j t. j \<in> node_ids cfg \<Longrightarrow> tally_ok cfg s' (voteGos c') j t (votes c' j t)"
    and aq: "\<And>m. m \<in> appReqs c' \<Longrightarrow> m \<in> appReqs c \<or> areq_ok cfg s' m"
    and ap: "\<And>m. m \<in> appReps c' \<Longrightarrow> m \<in> appReps c \<or> arep_ok cfg s' m"
  shows "advances cfg c s c' s'"
proof -
  have old: "msgs_ok cfg c s" and nok: "\<And>j. j \<in> node_ids cfg \<Longrightarrow> node_ok cfg s j (nodes c j)"
    and pr: "protocol_reachable (is_majority cfg) s'"
    using sim protocol_run_reachable [OF run] by (auto simp: sim_def)
  have "node_ok cfg s' j (nodes c' j)" if "j \<in> node_ids cfg" for j
  proof (cases "j = i")
    case True
    then show ?thesis using node nodes' by simp
  next
    case False
    then show ?thesis
      using node_ok_frame [OF g nok [OF that]] tch nodes' unfolding touches_def by simp
  qed
  moreover have "msgs_ok cfg c' s'"
    unfolding msgs_ok_def
  proof (intro conjI ballI allI)
    show "vreq_ok cfg s' m" if "m \<in> voteReqs c'" for m
      using vq [OF that] old vreq_ok_grows [OF g, of cfg m] by (auto simp: msgs_ok_def)
    show "vrep_ok s' m" if "m \<in> voteReps c'" for m
      using vp [OF that] old vrep_ok_grows [OF g, of m] by (auto simp: msgs_ok_def)
    show "go_ok cfg s' m" if "m \<in> voteGos c'" for m
      using gos [OF that] old go_ok_grows [OF g, of cfg m] by (auto simp: msgs_ok_def)
    show "areq_ok cfg s' m" if "m \<in> appReqs c'" for m
      using aq [OF that] old areq_ok_grows [OF g, of cfg m] by (auto simp: msgs_ok_def)
    show "arep_ok cfg s' m" if "m \<in> appReps c'" for m
      using ap [OF that] old arep_ok_grows [OF g, of cfg m] by (auto simp: msgs_ok_def)
  qed (rule tal)
  ultimately show ?thesis using pr run tl g ng nodes' by (simp add: sim_def advances_def)
qed

lemma sim_tally:
  assumes "sim cfg c s" and "grows s s'" and "j \<in> node_ids cfg" and "voteGos c' \<subseteq> voteGos c"
    and "votes c' j t = votes c j t"
  shows "tally_ok cfg s' (voteGos c') j t (votes c' j t)"
proof -
  have "tally_ok cfg s (voteGos c) j t (votes c j t)"
    using assms(1,3) by (auto simp: sim_def msgs_ok_def)
  then show ?thesis using assms(4,5) by (auto intro: tally_ok_grows [OF assms(2)])
qed

end
