(* ===== verification/RaftSteps.thy ===== *)
theory RaftSteps
  imports RaftSimulation
begin

text \<open>
  Each handler, seen through the simulation relation: the protocol steps it performs, that it does
  not panic, and what its messages promise. The last section collects them into one step theorem.
\<close>

section \<open>Timer and term changes\<close>

lemma shape_ok_follower [simp]: "shape_ok cfg i (becomeFollower t rf) = shape_ok cfg i rf"
  by (simp add: shape_ok_def)

lemma node_ok_reset [simp]: "node_ok cfg s i (resetElectionTimer rf) = node_ok cfg s i rf"
  by (simp add: node_ok_def shape_ok_def vote_ok_def candidate_ok_def leader_ok_def)

definition see_term :: "int32 \<Rightarrow> int64 \<Rightarrow> proto \<Rightarrow> proto" where
  "see_term i t s = s\<lparr>trm := (trm s)(i := t)\<rparr>"

lemma see_term_fields [simp]:
  "trm (see_term i t s) = (trm s)(i := t)" "lg (see_term i t s) = lg s"
  "ballot (see_term i t s) = ballot s" "elect (see_term i t s) = elect s"
  "tlog (see_term i t s) = tlog s" "acks (see_term i t s) = acks s"
  by (simp_all add: see_term_def)

lemma see_term_same: "t = trm s i \<Longrightarrow> see_term i t s = s"
  by (simp add: see_term_def)

lemma see_term_step:
  assumes "protocol_reachable Q s" and "trm s i \<le> t"
  shows "protocol_reachable Q (see_term i t s)" and "grows s (see_term i t s)"
    and "touches i s (see_term i t s)" and "protocol_run Q s (see_term i t s)"
proof -
  have st: "protocol_step Q s (see_term i t s)"
    unfolding see_term_def using assms(2) by (rule protocol_step.observe)
  show "protocol_reachable Q (see_term i t s)" "grows s (see_term i t s)" "protocol_run Q s (see_term i t s)"
    using reach_step [OF assms(1) st] by auto
  show "touches i s (see_term i t s)" by (simp add: touches_def)
qed

lemma no_future_ballot:
  assumes "protocol_reachable Q s" and "trm s i < t"
  shows "ballot s i t = None"
proof (rule ccontr)
  assume "ballot s i t \<noteq> None"
  then obtain c pl where "ballot s i t = Some (c, pl)" by auto
  moreover have "ballot_inv s"
    using protocol_reachable_inv [OF assms(1)] by (simp add: protocol_inv_def)
  ultimately show False using ballot_invD(2) assms(2) by fastforce
qed

text \<open>Stepping down to a higher term, or staying in the same one: the common start of both handlers.\<close>

lemma node_ok_follower:
  assumes pr: "protocol_reachable (is_majority cfg) s" and ok: "node_ok cfg s i rf"
    and t: "currentTerm rf < t"
  shows "node_ok cfg (see_term i t s) i (becomeFollower t rf)"
proof -
  have "trm s i \<le> t" using ok t by (simp add: node_ok_def)
  then have "grows s (see_term i t s)" using see_term_step(2) [OF pr] by blast
  moreover have "ballot s i t = None" using no_future_ballot [OF pr] ok t by (simp add: node_ok_def)
  ultimately show ?thesis
    using ok t commit_ok_grows [of s "see_term i t s" cfg "trm s i" "commitIndex rf" "lg s i" t]
    by (simp add: node_ok_def vote_ok_def)
qed

lemma node_ok_see:
  assumes "protocol_reachable (is_majority cfg) s" and "node_ok cfg s i rf" and "currentTerm rf \<le> t"
  shows "node_ok cfg (see_term i t s) i (if t > currentTerm rf then becomeFollower t rf else rf)"
proof (cases "t > currentTerm rf")
  case True
  then show ?thesis using node_ok_follower [OF assms(1,2)] by simp
next
  case False
  then have "see_term i t s = s"
    using assms(2,3) by (intro see_term_same) (simp add: node_ok_def)
  then show ?thesis using assms(2) False by simp
qed

section \<open>The merge loop\<close>

lemma reconcile_id: "take m L = take m T \<Longrightarrow> m \<le> length T \<Longrightarrow> m \<le> length L \<Longrightarrow> reconcile L (take m T) = L"
  unfolding reconcile_def agree_def
  by (metis length_take min.absorb2 min.cobounded2 nth_take order.strict_trans2)

lemma reconcile_short:
  assumes "k \<le> m" and "m \<le> length T"
  shows "reconcile (take k T) (take m T) = take m T"
  using assms unfolding reconcile_def by (auto simp: min_def)

lemma reconcile_conflict:
  assumes "k < length L" and "k < m" and "m \<le> length T" and "le_Term (L ! k) \<noteq> le_Term (T ! k)"
  shows "reconcile L (take m T) = take m T"
  using assms unfolding reconcile_def agree_def by auto

lemma merge_loop_reconcile:
  assumes "chained s (entries w)" and "wf_log w" and "chained s T" and "wf_entries T"
    and "take k (entries w) = take k T" and "k \<le> length (entries w)" and "0 < k"
    and "prev + i + 1 = int k" and "k + length es \<le> length T" and "es = take (length es) (drop k T)"
  shows "\<exists>w'. merge_loop w prev i es = Some w' \<and> wf_log w' \<and>
           entries w' = reconcile (entries w) (take (k + length es) T)"
  using assms
proof (induction es arbitrary: w i k)
  case Nil
  then show ?case by (simp add: reconcile_id)
next
  case (Cons e es)
  let ?X = "take (k + length (e # es)) T"
  have kT: "k < length T" using Cons.prems(9) by simp
  have e: "e = T ! k" "es = take (length es) (drop (Suc k) T)"
    using Cons.prems(10) kT by (auto simp: take_Suc drop_Suc nth_via_drop tl_drop hd_drop_conv_nth)
  have idx: "le_Index e = int k" using Cons.prems(4) kT e(1) by (simp add: wf_entries_def)
  have i': "prev + (i + 1) + 1 = int (Suc k)" using Cons.prems(8) by simp
  have len': "Suc k + length es \<le> length T" using Cons.prems(9) by simp
  have at: "At w (prev + i + 1) =
      (if k < length (entries w) then (entries w ! k, True) else (zeroEntry, False))"
    using At_nat [of w k] Cons.prems(7,8) by simp
  define trunc where "trunc = (if k < length (entries w) then Truncate w (int k) else w)"
  have trunc: "entries trunc = take k T"
    using Cons.prems(5-7) by (auto simp: trunc_def Truncate_nat)
  define w2 where "w2 = trunc\<lparr>entries := entries trunc @ [e]\<rparr>"
  have w2: "entries w2 = take (Suc k) T" using kT trunc e(1) by (simp add: w2_def take_Suc_conv_app_nth)
  have app: "Append trunc e = Some w2"
    using idx trunc kT by (simp add: w2_def LastIndex_def)
  have "wf_log w2" using w2 wf_entries_take [OF Cons.prems(4)] by (simp add: wf_log_def)
  moreover have "chained s (entries w2)" using w2 chained_take [OF Cons.prems(3)] by simp
  ultimately have rec: "\<exists>w'. merge_loop w2 prev (i + 1) es = Some w' \<and> wf_log w' \<and>
      entries w' = reconcile (entries w2) (take (Suc k + length es) T)"
    using Cons.prems(3,4) w2 i' len' e(2) kT by (intro Cons.IH) auto
  have X: "reconcile (entries w2) (take (Suc k + length es) T) = ?X"
    using w2 reconcile_short [of "Suc k" "Suc k + length es" T] len' by simp
  show ?case
  proof (cases "k < length (entries w) \<and> le_Term (entries w ! k) = le_Term e")
    case True
    then have "take (Suc k) (entries w) = take (Suc k) T"
      using chained_match [OF Cons.prems(1,3), of k] kT e(1) by simp
    then have "\<exists>w'. merge_loop w prev (i + 1) es = Some w' \<and> wf_log w' \<and>
        entries w' = reconcile (entries w) (take (Suc k + length es) T)"
      using Cons.prems(1-4) True i' len' e(2) by (intro Cons.IH) auto
    then show ?thesis using True at by simp
  next
    case False
    have "merge_loop w prev i (e # es) = merge_loop w2 prev (i + 1) es"
      using False at app Cons.prems(8) by (auto simp: trunc_def Let_def)
    moreover have "reconcile (entries w) ?X = ?X"
    proof (cases "k < length (entries w)")
      case True
      then show ?thesis
        using False e(1) Cons.prems(9) by (intro reconcile_conflict [of k]) auto
    next
      case short: False
      then have "entries w = take k T" using Cons.prems(5,6) by simp
      then show ?thesis using reconcile_short [of k "k + length (e # es)" T] Cons.prems(9) by simp
    qed
    ultimately show ?thesis using rec X by metis
  qed
qed

section \<open>Elections\<close>

lemma sim_node: "sim cfg c s \<Longrightarrow> i \<in> node_ids cfg \<Longrightarrow> node_ok cfg s i (nodes c i)"
  by (simp add: sim_def)

lemma sim_inv: "sim cfg c s \<Longrightarrow> protocol_inv (is_majority cfg) s"
  by (simp add: sim_def protocol_reachable_inv)

lemma tlogs_ok_same:
  "tlogs_ok s \<Longrightarrow> elect s' = elect s \<Longrightarrow> tlog s' = tlog s \<Longrightarrow> tlogs_ok s'"
  by (simp add: tlogs_ok_def)

text \<open>The vote a node grants: the protocol's \<open>vote\<close> step, or a repeated grant.\<close>

definition cast_vote :: "int32 \<Rightarrow> int32 \<Rightarrow> int64 \<Rightarrow> proto \<Rightarrow> proto" where
  "cast_vote p c t s =
     s\<lparr>trm := (trm s)(p := t), ballot := (ballot s)(p := (ballot s p)(t \<mapsto> (c, lg s p)))\<rparr>"

lemma cast_vote_fields [simp]:
  "trm (cast_vote p c t s) = (trm s)(p := t)" "lg (cast_vote p c t s) = lg s"
  "ballot (cast_vote p c t s) = (ballot s)(p := (ballot s p)(t \<mapsto> (c, lg s p)))"
  "elect (cast_vote p c t s) = elect s" "tlog (cast_vote p c t s) = tlog s"
  "acks (cast_vote p c t s) = acks s"
  by (simp_all add: cast_vote_def)

lemma log_up_to_date:
  assumes "entries w = L" and "L \<noteq> []" and "lastIdx = int (length cl) - 1" and "lastTerm = le_Term (last cl)"
  shows "(lastTerm > LastTerm w \<or> (lastTerm = LastTerm w \<and> lastIdx \<ge> LastIndex w)) \<longleftrightarrow>
     up_to_date cl L"
  using assms by (auto simp: up_to_date_def LastTerm_last LastIndex_def)

text \<open>What \<open>RequestVote\<close> does, in terms of the state after the term check.\<close>

lemma RequestVote_cases:
  assumes "currentTerm rf \<le> rv_Term req"
  defines "rf1 \<equiv> if rv_Term req > currentTerm rf then becomeFollower (rv_Term req) rf else rf"
  shows "\<exists>rf2 b. RequestVote rf req = (rf2, \<lparr>vr_Term = rv_Term req, vr_VoteGranted = b\<rparr>) \<and>
    (if b then (votedFor rf1 = -1 \<or> votedFor rf1 = rv_CandidateId req) \<and>
        (rv_LastLogTerm req > LastTerm (log rf1) \<or>
         (rv_LastLogTerm req = LastTerm (log rf1) \<and> rv_LastLogIndex req \<ge> LastIndex (log rf1))) \<and>
        rf2 = resetElectionTimer (rf1\<lparr>votedFor := rv_CandidateId req\<rparr>)
     else rf2 = rf1)"
  using assms(1) unfolding RequestVote_def rf1_def by (auto simp: Let_def)

lemma node_ok_vote:
  assumes ok: "node_ok cfg s p rf" and t: "currentTerm rf = t" and none: "ballot s p t = None"
    and g: "grows s (cast_vote p c t s)" and c: "c \<noteq> -1" and st: "rstate rf \<noteq> Candidate"
  shows "node_ok cfg (cast_vote p c t s) p (resetElectionTimer (rf\<lparr>votedFor := c\<rparr>))"
proof -
  have "t = trm s p" using ok t by (simp add: node_ok_def)
  then have "commit_ok cfg (cast_vote p c t s) t (commitIndex rf) (lg s p)"
    using ok commit_ok_grows [OF g, of cfg "trm s p" "commitIndex rf" "lg s p" t]
    by (simp add: node_ok_def)
  then show ?thesis
    using ok t c st by (auto simp: node_ok_def shape_ok_def vote_ok_def leader_ok_def)
qed

lemma sim_deliver_vote:
  assumes pos: "positional cfg" and sim: "sim cfg c s" and en: "(p, args) \<in> voteReqs c"
  shows "\<exists>s'. advances cfg c s (fire_deliver_vote c p args) s'"
proof -
  let ?rf = "nodes c p" and ?t = "rv_Term args" and ?c = "rv_CandidateId args"
  have pr: "protocol_reachable (is_majority cfg) s" and tl: "tlogs_ok s" using sim by (auto simp: sim_def)
  have vq: "vreq_ok cfg s (p, args)" using sim en by (auto simp: sim_def msgs_ok_def)
  then have ids: "p \<in> node_ids cfg" "?c \<in> node_ids cfg" "p \<noteq> ?c"
    and cl: "\<exists>cl. ballot s ?c ?t = Some (?c, cl) \<and> rv_LastLogIndex args = int (length cl) - 1 \<and>
      rv_LastLogTerm args = le_Term (last cl)"
    by (auto simp: vreq_ok_def)
  have ok: "node_ok cfg s p ?rf" using sim_node [OF sim ids(1)] .
  have tal: "tally_ok cfg s' (voteGos c) j t (votes c j t)"
    if "grows s s'" "j \<in> node_ids cfg" for s' j t
    using sim_tally [OF sim that, of c t] by simp
  show ?thesis
  proof (cases "?t < currentTerm ?rf")
    case True
    then have f: "fire_deliver_vote c p args = (set_node c p ?rf)
        \<lparr>voteReps := insert (?c, p, ?t, \<lparr>vr_Term = currentTerm ?rf, vr_VoteGranted = False\<rparr>) (voteReps c)\<rparr>"
      by (simp add: fire_deliver_vote_def RequestVote_def)
    have "advances cfg c s (fire_deliver_vote c p args) s"
      by (rule simI [OF sim protocol_run_refl grows_refl touches_refl [of p]])
        (auto simp: f set_node_def vrep_ok_def ok tl tal grows_refl)
    then show ?thesis ..
  next
    case False
    let ?rf1 = "if ?t > currentTerm ?rf then becomeFollower ?t ?rf else ?rf"
    have le: "currentTerm ?rf \<le> ?t" using False by simp
    then have tle: "trm s p \<le> ?t" using ok by (simp add: node_ok_def)
    obtain rf2 b where R: "RequestVote ?rf args = (rf2, \<lparr>vr_Term = ?t, vr_VoteGranted = b\<rparr>)"
      and C: "if b then (votedFor ?rf1 = -1 \<or> votedFor ?rf1 = ?c) \<and>
        (rv_LastLogTerm args > LastTerm (log ?rf1) \<or>
         (rv_LastLogTerm args = LastTerm (log ?rf1) \<and> rv_LastLogIndex args \<ge> LastIndex (log ?rf1))) \<and>
        rf2 = resetElectionTimer (?rf1\<lparr>votedFor := ?c\<rparr>)
       else rf2 = ?rf1"
      using RequestVote_cases [OF le] by blast
    let ?s1 = "see_term p ?t s"
    note s1 = see_term_step [OF pr tle]
    have ok1: "node_ok cfg ?s1 p ?rf1" using node_ok_see [OF pr ok le] .
    have term1: "currentTerm ?rf1 = ?t" using le by simp
    have f: "fire_deliver_vote c p args = (set_node c p rf2)
        \<lparr>voteReps := insert (?c, p, ?t, \<lparr>vr_Term = ?t, vr_VoteGranted = b\<rparr>) (voteReps c)\<rparr>"
      by (simp add: fire_deliver_vote_def R)
    have ng: "node_grows ?rf rf2" using C by (auto simp: node_grows_def split: if_splits)
    have concl: "advances cfg c s (fire_deliver_vote c p args) s'"
      if "protocol_run (is_majority cfg) s s'" "grows s s'" "touches p s s'" "node_ok cfg s' p rf2"
        "elect s' = elect s" "tlog s' = tlog s" "b \<longrightarrow> (\<exists>pl. ballot s' p ?t = Some (?c, pl))" for s'
      by (rule simI [OF sim that(1-3)])
        (use that tlogs_ok_same [OF tl] tal ng in \<open>auto simp: f set_node_def vrep_ok_def\<close>)
    show ?thesis
    proof (cases "b \<and> votedFor ?rf1 = -1")
      case False
      have "node_ok cfg ?s1 p rf2"
      proof (cases b)
        case True
        then have "?rf1\<lparr>votedFor := ?c\<rparr> = ?rf1" using C False by auto
        then show ?thesis using C True ok1 by simp
      qed (use C ok1 in auto)
      moreover have "\<exists>pl. ballot ?s1 p ?t = Some (?c, pl)" if b
        using that C False ok1 term1 unfolding node_ok_def vote_ok_def by auto
      ultimately show ?thesis using concl [of ?s1] s1 by auto
    next
      case True
      have L: "entries (log ?rf1) = lg s p" "lg s p \<noteq> []"
        using ok1 chained_nonempty protocol_reachable_inv [OF pr] node_invD(1)
        by (auto simp: node_ok_def protocol_inv_def)
      obtain cl where cl: "ballot s ?c ?t = Some (?c, cl)" "rv_LastLogIndex args = int (length cl) - 1"
        "rv_LastLogTerm args = le_Term (last cl)" using cl by blast
      have up: "up_to_date cl (lg s p)" using log_up_to_date [OF L cl(2,3)] C True by simp
      have none: "ballot ?s1 p ?t = None"
        using ok1 True term1 unfolding node_ok_def vote_ok_def by auto
      let ?s2 = "cast_vote p ?c ?t ?s1"
      have "protocol_step (is_majority cfg) ?s1 ?s2"
        unfolding cast_vote_def
        by (rule protocol_step.vote) (use none ids(3) cl(1) up in auto)
      note s2 = reach_step [OF s1(1) this]
      have g: "grows s ?s2" using grows_trans [OF s1(2) s2(2)] .
      have "rstate ?rf1 \<noteq> Candidate"
        using ok1 none term1 unfolding node_ok_def candidate_ok_def by auto
      then have "node_ok cfg ?s2 p rf2"
        using node_ok_vote [OF ok1 term1 none s2(2)] C True ids(2) positional_id_range [OF pos]
        by auto
      moreover have "touches p s ?s2" using ids(3) by (simp add: touches_def)
      ultimately show ?thesis using concl [of ?s2] protocol_run_trans [OF s1(4) s2(3)] g by auto
    qed
  qed
qed

text \<open>Starting an election is the protocol's \<open>stand\<close> step.\<close>

lemma node_ok_stand:
  assumes ok: "node_ok cfg s i rf" and pr: "protocol_reachable (is_majority cfg) s"
    and i: "0 \<le> i" and t: "t = currentTerm rf + 1"
    and g: "grows s (cast_vote i i t s)"
  shows "node_ok cfg (cast_vote i i t s) i
     (resetElectionTimer (rf\<lparr>currentTerm := t, rstate := Candidate, votedFor := i\<rparr>))"
proof -
  have tm: "trm s i < t" using ok t by (simp add: node_ok_def)
  then have "commit_ok cfg (cast_vote i i t s) t (commitIndex rf) (lg s i)"
    using ok commit_ok_grows [OF g, of cfg "trm s i" "commitIndex rf" "lg s i" t]
    by (simp add: node_ok_def)
  moreover have "elect s t \<noteq> Some (i, V, el)" for V el
    using elect_invD(3) [of "is_majority cfg" s t i V el] tm protocol_reachable_inv [OF pr]
    by (auto simp: protocol_inv_def)
  ultimately show ?thesis
    using ok i by (auto simp: node_ok_def shape_ok_def vote_ok_def candidate_ok_def)
qed

lemma callable_peers:
  "shape_ok cfg i rf \<Longrightarrow> callable rf (other_peers rf) = node_ids cfg - {i}"
  by (auto simp: callable_def other_peers_def shape_ok_def node_ids_def)

lemma sim_timeout:
  assumes pos: "positional cfg" and sim: "sim cfg c s" and i: "i \<in> node_ids cfg"
  shows "\<exists>s'. advances cfg c s (fire_timeout c i) s'"
proof -
  let ?rf = "nodes c i"
  have pr: "protocol_reachable (is_majority cfg) s" and tl: "tlogs_ok s" using sim by (auto simp: sim_def)
  have ok: "node_ok cfg s i ?rf" using sim_node [OF sim i] .
  then have sh: "shape_ok cfg i ?rf" by (simp add: node_ok_def)
  show ?thesis
  proof (cases "rstate ?rf = Leader \<or> dead ?rf")
    case True
    then have "fire_timeout c i = set_node c i ?rf" by (simp add: fire_timeout_def startElection_def)
    then have "fire_timeout c i = c" by (simp add: set_node_def)
    then show ?thesis using advances_refl [OF sim] by metis
  next
    case False
    define t where "t = currentTerm ?rf + 1"
    let ?rf1 = "resetElectionTimer (?rf\<lparr>currentTerm := t, rstate := Candidate, votedFor := i\<rparr>)"
    let ?args = "\<lparr>rv_Term = t, rv_CandidateId = i,
       rv_LastLogIndex = LastIndex (log ?rf), rv_LastLogTerm = LastTerm (log ?rf)\<rparr>"
    have sh1: "shape_ok cfg i ?rf1" using sh by (simp add: shape_ok_def)
    have R: "startElection ?rf = (?rf1, Some (?args, other_peers ?rf1))"
      using False sh by (simp add: startElection_def t_def shape_ok_def Let_def)
    have f: "fire_timeout c i = (set_node c i ?rf1)
        \<lparr>voteReqs := voteReqs c \<union> (\<lambda>p. (p, ?args)) ` (node_ids cfg - {i}),
         voteGos := voteGos c \<union> (\<lambda>p. (i, p, t)) ` (node_ids cfg - {i}),
         votes := (votes c)(i := (votes c i)(t := 1))\<rparr>"
      by (simp add: fire_timeout_def R callable_peers [OF sh1])
    have tm: "trm s i < t" using ok by (simp add: node_ok_def t_def)
    let ?s1 = "cast_vote i i t s"
    have "protocol_step (is_majority cfg) s ?s1"
      unfolding cast_vote_def by (rule protocol_step.stand) (rule tm)
    note s1 = reach_step [OF pr this]
    have ok1: "node_ok cfg ?s1 i ?rf1"
      using node_ok_stand [OF ok pr _ t_def s1(2)] i positional_id_range [OF pos] by simp
    have L: "entries (log ?rf) = lg s i" "lg s i \<noteq> []"
      using ok chained_nonempty node_invD(1) protocol_reachable_inv [OF pr]
      by (auto simp: node_ok_def protocol_inv_def)
    have "advances cfg c s (fire_timeout c i) ?s1"
    proof (rule simI [OF sim s1(3,2)])
      show "touches i s ?s1" by (simp add: touches_def)
      show "nodes (fire_timeout c i) = (nodes c)(i := ?rf1)" by (simp add: f set_node_def)
      show "tlogs_ok ?s1" using tlogs_ok_same [OF tl] by simp
      show "m \<in> voteReqs c \<or> vreq_ok cfg ?s1 m" if "m \<in> voteReqs (fire_timeout c i)" for m
        using that i L by (auto simp: f vreq_ok_def LastIndex_def LastTerm_last)
      show "m \<in> voteGos c \<or> go_ok cfg ?s1 m" if "m \<in> voteGos (fire_timeout c i)" for m
        using that i by (auto simp: f go_ok_def)
      fix j u assume j: "j \<in> node_ids cfg"
      show "tally_ok cfg ?s1 (voteGos (fire_timeout c i)) j u (votes (fire_timeout c i) j u)"
      proof (cases "j = i \<and> u = t")
        case True
        then show ?thesis unfolding tally_ok_def by (intro exI [of _ "{}"]) (simp add: f)
      next
        case False
        have "tally_ok cfg s (voteGos c) j u (votes c j u)"
          using sim j by (auto simp: sim_def msgs_ok_def)
        moreover have "votes (fire_timeout c i) j u = votes c j u" using False by (auto simp: f)
        ultimately show ?thesis
          using False by (auto simp: f intro: tally_ok_grows [OF s1(2)])
      qed
    qed (use ok1 in \<open>auto simp: f set_node_def node_grows_def\<close>)
    then show ?thesis ..
  qed
qed

text \<open>Counting a vote, and winning with a majority.\<close>

definition take_office :: "int32 \<Rightarrow> int64 \<Rightarrow> int set \<Rightarrow> LogEntry \<Rightarrow> proto \<Rightarrow> proto" where
  "take_office i t V e s =
     s\<lparr>elect := (elect s)(t \<mapsto> (i, V, lg s i)), lg := (lg s)(i := lg s i @ [e]),
       tlog := (tlog s)(t := lg s i @ [e]), acks := acks s \<union> {(i, t, k) |k. k \<le> length (lg s i)}\<rparr>"

lemma take_office_fields [simp]:
  "trm (take_office i t V e s) = trm s" "lg (take_office i t V e s) = (lg s)(i := lg s i @ [e])"
  "ballot (take_office i t V e s) = ballot s"
  "elect (take_office i t V e s) = (elect s)(t \<mapsto> (i, V, lg s i))"
  "tlog (take_office i t V e s) = (tlog s)(t := lg s i @ [e])"
  "acks (take_office i t V e s) = acks s \<union> {(i, t, k) |k. k \<le> length (lg s i)}"
  by (simp_all add: take_office_def)

definition noop_entry :: "Raft \<Rightarrow> LogEntry" where
  "noop_entry rf = \<lparr>le_Index = LastIndex (log rf) + 1, le_Term = currentTerm rf, le_Command = ''noop''\<rparr>"

lemma becomeLeader_Some:
  "becomeLeader rf = Some (rf\<lparr>rstate := Leader,
     nextIndex := map (\<lambda>_. LastIndex (log rf) + 1) (nextIndex rf),
     matchIndex := map (\<lambda>_. 0) (matchIndex rf),
     log := (log rf)\<lparr>entries := entries (log rf) @ [noop_entry rf]\<rparr>\<rparr>)"
  by (simp add: becomeLeader_def noop_entry_def Let_def)

lemma wf_noop: "wf_entries (entries (log rf)) \<Longrightarrow> wf_entries (entries (log rf) @ [noop_entry rf])"
  by (rule wf_entries_snoc) (simp_all add: noop_entry_def LastIndex_def)

text \<open>An entry appended by a leader, at its election or for a client: what its node keeps.\<close>

lemma shape_ok_append:
  assumes sh: "shape_ok cfg i rf" and ent: "entries (log rf) = L" and la: "nat (lastApplied rf) < length L"
    and wf: "wf_entries (L @ [e])"
  shows "shape_ok cfg i (rf\<lparr>log := (log rf)\<lparr>entries := L @ [e]\<rparr>\<rparr>)"
  using sh ent la wf by (auto simp: shape_ok_def wf_log_def)

lemma applied_in_log:
  assumes "node_ok cfg s i rf" and "protocol_reachable (is_majority cfg) s"
  shows "nat (lastApplied rf) < length (lg s i)" and "commitIndex rf < int (length (lg s i))"
    and "0 \<le> commitIndex rf" and "lg s i \<noteq> []"
proof -
  show ne: "lg s i \<noteq> []"
    using chained_nonempty node_invD(1) protocol_reachable_inv [OF assms(2)]
    by (auto simp: protocol_inv_def)
  show ci: "commitIndex rf < int (length (lg s i))"
    using assms(1) commit_ok_length [OF _ ne] by (auto simp: node_ok_def)
  show "0 \<le> commitIndex rf" using assms(1) by (simp add: node_ok_def shape_ok_def)
  have "lastApplied rf < int (length (lg s i))" "0 \<le> lastApplied rf"
    using assms(1) ci by (auto simp: node_ok_def shape_ok_def)
  then show "nat (lastApplied rf) < length (lg s i)" by (simp add: nat_less_iff)
qed

lemma commit_ok_snoc:
  assumes "commit_ok cfg s b n L" and "n < int (length L)" and "0 \<le> n"
  shows "commit_ok cfg s b n (L @ [e])"
  using assms by (intro commit_ok_prefix [OF assms(1) order_refl]) (simp add: Suc_nat_eq_nat_zadd1)

lemma node_ok_office:
  assumes ok: "node_ok cfg s i rf" and pr: "protocol_reachable (is_majority cfg) s"
    and pos: "positional cfg" and t: "t = currentTerm rf"
    and g: "grows s (take_office i t V (noop_entry rf) s)" and bl: "becomeLeader rf = Some rf1"
    and none: "elect s t = None"
  shows "node_ok cfg (take_office i t V (noop_entry rf) s) i rf1"
proof -
  let ?s1 = "take_office i t V (noop_entry rf) s"
  have L: "entries (log rf) = lg s i" and sh: "shape_ok cfg i rf" using ok by (auto simp: node_ok_def)
  note ap = applied_in_log [OF ok pr]
  have rf1: "rf1 = rf\<lparr>rstate := Leader,
     nextIndex := map (\<lambda>_. LastIndex (log rf) + 1) (nextIndex rf),
     matchIndex := map (\<lambda>_. 0) (matchIndex rf),
     log := (log rf)\<lparr>entries := lg s i @ [noop_entry rf]\<rparr>\<rparr>"
    using bl becomeLeader_Some [of rf] L by simp
  have wf: "wf_entries (lg s i @ [noop_entry rf])"
    using wf_noop [of rf] sh L by (simp add: shape_ok_def wf_log_def)
  have "shape_ok cfg i rf1"
    using shape_ok_append [OF sh L ap(1) wf] sh unfolding rf1 shape_ok_def by simp
  moreover have "leader_ok cfg ?s1 i rf1"
    unfolding leader_ok_def
  proof (intro conjI allI ballI impI)
    have ct: "currentTerm rf1 = t" by (simp add: rf1 t)
    show "\<exists>V el. elect ?s1 (currentTerm rf1) = Some (i, V, el)" by (simp add: ct)
    fix k assume "k < length (lg ?s1 i)"
    then show "(i, currentTerm rf1, k) \<in> acks ?s1" by (auto simp: ct)
  next
    fix p assume "p \<in> node_ids cfg"
    then have p: "nat p < length (nextIndex rf)" "nat p < length (matchIndex rf)"
      using sh positional_id_range [OF pos] by (auto simp: shape_ok_def nat_less_iff)
    have li: "LastIndex (log rf) + 1 = int (length (lg s i))" by (simp add: LastIndex_def L)
    show "1 \<le> nextIndex rf1 ! nat p" "nextIndex rf1 ! nat p \<le> int (length (lg ?s1 i))"
      using p li ap(4) by (auto simp: rf1 Suc_le_eq)
    have "matchIndex rf1 ! nat p = 0" using p by (simp add: rf1)
    then show "0 \<le> matchIndex rf1 ! nat p" by simp
    fix k assume "0 < matchIndex rf1 ! nat p"
    with \<open>matchIndex rf1 ! nat p = 0\<close> show "(p, currentTerm rf1, k) \<in> acks ?s1" by simp
  qed
  moreover have "commit_ok cfg ?s1 (trm s i) (commitIndex rf) (lg s i @ [noop_entry rf])"
    using commit_ok_snoc [OF _ ap(2,3)] ok
      commit_ok_grows [OF g, of cfg "trm s i" "commitIndex rf" "lg s i" "trm s i"]
    by (simp add: node_ok_def)
  moreover have "vote_ok ?s1 i rf1 = vote_ok s i rf" by (rule vote_ok_cong) (simp_all add: rf1)
  ultimately show ?thesis using ok by (simp add: node_ok_def rf1)
qed

lemma majority_of_tally:
  assumes pos: "positional cfg" and i: "i \<in> node_ids cfg" and C: "C \<subseteq> node_ids cfg - {i}"
    and q: "int (length (Nodes cfg)) div 2 + 1 \<le> 1 + int (card C)"
  shows "is_majority cfg (insert i C)"
proof -
  have "finite C" using C finite_subset [of C "node_ids cfg"] by (auto simp: node_ids_def)
  then have "card (insert i C) = 1 + card C" using C by (subst card_insert_disjoint) auto
  then show ?thesis using i C q by (auto simp: is_majority_def)
qed

lemma tally_ok_count:
  assumes old: "tally_ok cfg s gos i t v" and en: "(i, p, t) \<in> gos" and p: "p \<in> node_ids cfg - {i}"
    and bal: "ballot s p t = Some (i, pl)"
  shows "tally_ok cfg s (gos - {(i, p, t)}) i t (v + 1)"
proof -
  obtain C where C: "C \<subseteq> node_ids cfg - {i}" "v \<le> 1 + int (card C)"
    "\<forall>q \<in> C. (i, q, t) \<notin> gos \<and> (\<exists>pl. ballot s q t = Some (i, pl))"
    using old unfolding tally_ok_def by blast
  have "p \<notin> C" using C(3) en by blast
  moreover have "finite C" using C(1) finite_subset [of C "node_ids cfg"] by (auto simp: node_ids_def)
  ultimately have "int (card (insert p C)) = int (card C) + 1" by simp
  then show ?thesis
    using C p bal unfolding tally_ok_def by (intro exI [of _ "insert p C"]) auto
qed

lemma sim_receive_vote:
  assumes pos: "positional cfg" and sim: "sim cfg c s"
    and rep: "(i, p, t, reply) \<in> voteReps c" and gos: "(i, p, t) \<in> voteGos c"
  shows "\<exists>c' s'. fire_receive_vote c i p t reply = Some c' \<and> advances cfg c s c' s'"
proof -
  let ?rf = "nodes c i" and ?v = "votes c i t"
  have pr: "protocol_reachable (is_majority cfg) s" and tl: "tlogs_ok s"
    and ms: "msgs_ok cfg c s" using sim by (auto simp: sim_def)
  have inv: "protocol_inv (is_majority cfg) s" using sim_inv [OF sim] .
  have g: "go_ok cfg s (i, p, t)" and vr: "vrep_ok s (i, p, t, reply)"
    using ms rep gos by (auto simp: msgs_ok_def)
  then have ids: "i \<in> node_ids cfg" "p \<in> node_ids cfg" "p \<noteq> i" by (auto simp: go_ok_def)
  have ok: "node_ok cfg s i ?rf" using sim_node [OF sim ids(1)] .
  have told: "tally_ok cfg s (voteGos c) j u (votes c j u)" if "j \<in> node_ids cfg" for j u
    using ms that by (simp add: msgs_ok_def)
  text \<open>The bookkeeping common to all outcomes.\<close>
  have concl: "advances cfg c s ((set_node c i rf)\<lparr>voteGos := voteGos c - {(i, p, t)},
      votes := (votes c)(i := (votes c i)(t := v))\<rparr>) s'" (is "advances cfg c s ?c' s'")
    if s': "protocol_run (is_majority cfg) s s'" "grows s s'" "touches i s s'"
      "node_ok cfg s' i rf" "tlogs_ok s'" "node_grows ?rf rf" and tal: "tally_ok cfg s (voteGos c - {(i, p, t)}) i t v"
    for rf v s'
  proof (rule simI [OF sim s'(1-3)])
    fix j u assume j: "j \<in> node_ids cfg"
    show "tally_ok cfg s' (voteGos ?c') j u (votes ?c' j u)"
    proof (cases "j = i \<and> u = t")
      case True
      then show ?thesis using tal by (auto intro: tally_ok_grows [OF s'(2)])
    next
      case False
      then have "votes ?c' j u = votes c j u" by auto
      then show ?thesis using told [OF j, of u] by (auto intro: tally_ok_grows [OF s'(2)])
    qed
  qed (use s' in \<open>auto simp: set_node_def\<close>)
  have keep: "tally_ok cfg s (voteGos c - {(i, p, t)}) i t ?v"
    by (rule tally_ok_grows [OF grows_refl told [OF ids(1)]]) simp
  have f: "fire_receive_vote c i p t reply = Some ((set_node c i rf)
      \<lparr>voteGos := voteGos c - {(i, p, t)}, votes := (votes c)(i := (votes c i)(t := v))\<rparr>)"
    if "election_reply ?rf t ?v reply = Some (rf, v)" for rf v
    using that by (simp add: fire_receive_vote_def)
  show ?thesis
  proof (cases "vr_Term reply > currentTerm ?rf")
    case True
    then have "trm s i \<le> vr_Term reply" using ok by (simp add: node_ok_def)
    note s1 = see_term_step [OF pr this]
    have R: "election_reply ?rf t ?v reply = Some (becomeFollower (vr_Term reply) ?rf, ?v)"
      using True by (simp add: election_reply_def)
    show ?thesis
      using f [OF R] concl [OF s1(4,2,3) node_ok_follower [OF pr ok True] tlogs_ok_same [OF tl] _ keep]
      by (auto simp: node_grows_def)
  next
    case low: False
    show ?thesis
    proof (cases "rstate ?rf = Candidate \<and> currentTerm ?rf = t \<and> vr_VoteGranted reply")
      case False
      then have R: "election_reply ?rf t ?v reply = Some (?rf, ?v)"
        using low by (auto simp: election_reply_def)
      show ?thesis using f [OF R] concl [OF protocol_run_refl grows_refl touches_refl ok tl node_grows_refl keep] by blast
    next
      case cand: True
      obtain pl where pl: "ballot s p t = Some (i, pl)" using vr cand by (auto simp: vrep_ok_def)
      have tal: "tally_ok cfg s (voteGos c - {(i, p, t)}) i t (?v + 1)"
        using tally_ok_count [OF told [OF ids(1)] gos _ pl] ids by simp
      have qu: "quorum ?rf = int (length (Nodes cfg)) div 2 + 1"
        using ok by (simp add: node_ok_def shape_ok_def quorum_def)
      show ?thesis
      proof (cases "?v + 1 \<ge> quorum ?rf")
        case False
        then have R: "election_reply ?rf t ?v reply = Some (?rf, ?v + 1)"
          using low cand by (simp add: election_reply_def)
        show ?thesis using f [OF R] concl [OF protocol_run_refl grows_refl touches_refl ok tl node_grows_refl tal] by blast
      next
        case won: True
        obtain C where C: "C \<subseteq> node_ids cfg - {i}" "?v + 1 \<le> 1 + int (card C)"
          "\<forall>q \<in> C. \<exists>pl. ballot s q t = Some (i, pl)"
          using tal unfolding tally_ok_def by blast
        let ?V = "insert i C"
        have maj: "is_majority cfg ?V"
          using majority_of_tally [OF pos ids(1) C(1)] C(2) won qu by simp
        have co: "candidate_ok s i ?rf" and tm: "t = trm s i"
          using ok cand by (auto simp: node_ok_def)
        obtain cl where cl: "ballot s i t = Some (i, cl)" "elect s t = None \<longrightarrow> cl = lg s i"
          using co cand by (auto simp: candidate_ok_def)
        have voted: "\<exists>pl. ballot s q t = Some (i, pl)" if "q \<in> ?V" for q
          using that cl(1) C(3) by auto
        have none: "elect s t = None"
        proof (rule ccontr)
          assume "elect s t \<noteq> None"
          then obtain d W el where d: "elect s t = Some (d, W, el)" by auto
          have ei: "elect_inv (is_majority cfg) s" using inv by (simp add: protocol_inv_def)
          obtain q where q: "q \<in> ?V" "q \<in> W"
            using majority.common_member [OF maj elect_invD(1) [OF ei d]] .
          then have "d = i" using voted [OF q(1)] elect_invD(6) [OF ei d q(2)] by auto
          then show False using d co cand by (auto simp: candidate_ok_def)
        qed
        have ent: "entries (log ?rf) = lg s i" using ok by (simp add: node_ok_def)
        obtain rf1 where bl: "becomeLeader ?rf = Some rf1" using becomeLeader_Some by blast
        have R: "election_reply ?rf t ?v reply = Some (rf1, ?v + 1)"
          using low cand won bl by (simp add: election_reply_def)
        let ?s1 = "take_office i t ?V (noop_entry ?rf) s"
        have "protocol_step (is_majority cfg) s ?s1"
          unfolding take_office_def
          by (rule protocol_step.win)
            (use cl none maj voted tm ok cand in \<open>auto simp: node_ok_def noop_entry_def\<close>)
        note s1 = reach_step [OF pr this]
        have tch: "touches i s ?s1" by (auto simp: touches_def split: if_splits)
        have ok1: "node_ok cfg ?s1 i rf1"
          using node_ok_office [OF ok pr pos _ s1(2) bl none] cand by simp
        have "wf_entries (lg s i @ [noop_entry ?rf])"
          using wf_noop [of ?rf] ok ent by (simp add: node_ok_def shape_ok_def wf_log_def)
        then have "tlogs_ok ?s1" using tl by (simp add: tlogs_ok_def)
        moreover have "node_grows ?rf rf1" using bl by (auto simp: becomeLeader_Some node_grows_def)
        ultimately show ?thesis using f [OF R] concl [OF s1(3,2) tch ok1 _ _ tal] by blast
      qed
    qed
  qed
qed

end
