(* ===== verification/RaftReplication.thy ===== *)
theory RaftReplication
  imports RaftSteps
begin

text \<open>
  The replication handlers through the simulation relation, and the result: every reachable cluster
  is related to a reachable protocol state, and no enabled event panics.
\<close>

section \<open>Receiving entries\<close>

definition accept_entries :: "int32 \<Rightarrow> int64 \<Rightarrow> nat \<Rightarrow> proto \<Rightarrow> proto" where
  "accept_entries p t m s =
     s\<lparr>trm := (trm s)(p := t), lg := (lg s)(p := reconcile (lg s p) (take m (tlog s t))),
       acks := acks s \<union> {(p, t, k) |k. k < m}\<rparr>"

lemma accept_entries_fields [simp]:
  "trm (accept_entries p t m s) = (trm s)(p := t)"
  "lg (accept_entries p t m s) = (lg s)(p := reconcile (lg s p) (take m (tlog s t)))"
  "ballot (accept_entries p t m s) = ballot s" "elect (accept_entries p t m s) = elect s"
  "tlog (accept_entries p t m s) = tlog s"
  "acks (accept_entries p t m s) = acks s \<union> {(p, t, k) |k. k < m}"
  by (simp_all add: accept_entries_def)

lemma prev_consistent_match:
  assumes pc: "prev_consistent rf a" and ent: "entries (log rf) = L"
    and L: "chained s L" and T: "chained s T" and "0 \<le> ae_PrevLogIndex a"
    and len: "nat (ae_PrevLogIndex a) < length T"
    and pt: "ae_PrevLogTerm a = le_Term (T ! nat (ae_PrevLogIndex a))"
  shows "Suc (nat (ae_PrevLogIndex a)) \<le> length L \<and>
    take (Suc (nat (ae_PrevLogIndex a))) L = take (Suc (nat (ae_PrevLogIndex a))) T"
proof -
  let ?k = "nat (ae_PrevLogIndex a)"
  have "?k < length L \<and> le_Term (L ! ?k) = le_Term (T ! ?k)"
  proof (cases "0 < ae_PrevLogIndex a")
    case True
    then show ?thesis using pc ent pt by (auto simp: prev_consistent_def At_def Let_def split: if_splits)
  next
    case False
    then show ?thesis
      using assms(5) chained_nonempty [OF L] chained_zero [OF L] chained_zero [OF T] by simp
  qed
  then show ?thesis using chained_match [OF L T _ len] by auto
qed

text \<open>After a successful merge the follower's commit index is exactly the larger of the two.\<close>

lemma follow_commit_max:
  assumes "lc < int (length (entries (log rf)))"
  shows "follow_commit rf lc = rf\<lparr>commitIndex := max lc (commitIndex rf)\<rparr>"
  using assms by (auto simp: follow_commit_def LastIndex_def Let_def max_def)

lemma node_ok_accept:
  assumes ok: "node_ok cfg s p rf" and pr: "protocol_reachable (is_majority cfg) s"
    and el: "elect s t = Some (l, V, el)" and "p \<noteq> l" and t: "currentTerm rf = t"
    and m: "m \<le> length (tlog s t)" "0 < m" and lc: "lc < int m" "commit_ok cfg s t lc (tlog s t)"
    and g: "grows s (accept_entries p t m s)"
    and w: "wf_log w" "entries w = reconcile (lg s p) (take m (tlog s t))"
  shows "node_ok cfg (accept_entries p t m s) p (follow_commit (rf\<lparr>log := w\<rparr>) lc)"
proof -
  let ?s1 = "accept_entries p t m s" and ?T = "tlog s t"
  let ?L' = "reconcile (lg s p) (take m ?T)"
  have inv: "protocol_inv (is_majority cfg) s" using protocol_reachable_inv [OF pr] .
  then have ei: "elect_inv (is_majority cfg) s" and ni: "node_inv s" by (auto simp: protocol_inv_def)
  have tm: "t = trm s p" using ok t by (simp add: node_ok_def)
  have X: "chained s (take m ?T)" using chained_tlog_take [OF ei el m(2)] .
  have cover: "take m ?L' = take m ?T"
    using reconcile_covers [OF node_invD(1) [OF ni, of p] X] m(1) by (simp add: min_absorb2)
  then have len: "m \<le> length ?L'" using take_eq_length [of m ?L' ?T] m(1) by simp
  have sh: "shape_ok cfg p rf" and ent: "entries (log rf) = lg s p" using ok by (auto simp: node_ok_def)
  note ap = applied_in_log [OF ok pr]
  text \<open>The committed prefix survives the merge.\<close>
  have keep: "take (Suc (nat (commitIndex rf))) ?L' = take (Suc (nat (commitIndex rf))) (lg s p)"
  proof (cases "0 < commitIndex rf")
    case True
    then have "committed (is_majority cfg) s t (nat (commitIndex rf)) (lg s p)"
      using ok tm by (simp add: node_ok_def commit_ok_def)
    then show ?thesis
      using majority.committed_merge [OF inv _ order_refl _ m(1)] el by simp
  next
    case False
    have "take (Suc 0) ?L' = take (Suc 0) ?T" using take_eq_mono [OF cover, of "Suc 0"] m(2) by simp
    moreover have "take (Suc 0) ?T = take (Suc 0) (lg s p)"
      using chained_match [OF elect_invD(4) [OF ei el] node_invD(1) [OF ni, of p], of 0]
        chained_zero [OF elect_invD(4) [OF ei el]] chained_zero [OF node_invD(1) [OF ni, of p]]
        chained_nonempty [OF elect_invD(4) [OF ei el]] ap(4) by simp
    ultimately show ?thesis using False ap(3) by simp
  qed
  have la: "take (Suc (nat (lastApplied rf))) ?L' = take (Suc (nat (lastApplied rf))) (lg s p)"
    using take_eq_mono [OF keep] sh by (simp add: shape_ok_def nat_mono)
  have "lc < int (length ?L')" using lc(1) len by simp
  then have fc: "follow_commit (rf\<lparr>log := w\<rparr>) lc = rf\<lparr>log := w, commitIndex := max lc (commitIndex rf)\<rparr>"
    using follow_commit_max [of lc "rf\<lparr>log := w\<rparr>"] w(2) by simp
  have "shape_ok cfg p (follow_commit (rf\<lparr>log := w\<rparr>) lc)"
    using sh w la ent by (simp add: fc shape_ok_def max_def)
  moreover have "commit_ok cfg ?s1 t (max lc (commitIndex rf)) ?L'"
  proof (cases "commitIndex rf \<le> lc")
    case True
    have "0 \<le> lc" using True ap(3) by simp
    then have "take (Suc (nat lc)) ?L' = take (Suc (nat lc)) ?T"
      using take_eq_mono [OF cover, of "Suc (nat lc)"] lc(1) by simp
    then have "commit_ok cfg s t lc ?L'" using commit_ok_prefix [OF lc(2) order_refl] by blast
    then show ?thesis using commit_ok_grows [OF g] True by (simp add: max_def)
  next
    case False
    have "commit_ok cfg s t (commitIndex rf) ?L'"
      using commit_ok_prefix [OF _ order_refl keep] ok tm by (simp add: node_ok_def)
    then show ?thesis using commit_ok_grows [OF g] False by (simp add: max_def)
  qed
  moreover have "rstate rf \<noteq> Leader"
    using ok el t \<open>p \<noteq> l\<close> by (auto simp: node_ok_def leader_ok_def)
  moreover have "candidate_ok ?s1 p (follow_commit (rf\<lparr>log := w\<rparr>) lc)" if "rstate rf = Candidate"
    using ok that el t \<open>p \<noteq> l\<close> by (auto simp: node_ok_def candidate_ok_def fc)
  moreover have "vote_ok ?s1 p (follow_commit (rf\<lparr>log := w\<rparr>) lc) = vote_ok s p rf"
    by (rule vote_ok_cong) (simp_all add: fc)
  ultimately show ?thesis using ok w(2) tm t by (simp add: node_ok_def fc)
qed

lemma sim_deliver_append:
  assumes pos: "positional cfg" and sim: "sim cfg c s" and en: "(p, a) \<in> appReqs c"
  shows "\<exists>c' s'. fire_deliver_append c p a = Some c' \<and> advances cfg c s c' s'"
proof -
  let ?rf = "nodes c p" and ?t = "ae_Term a" and ?prev = "ae_PrevLogIndex a"
  let ?n = "length (ae_Entries a)"
  have pr: "protocol_reachable (is_majority cfg) s" and tl: "tlogs_ok s" using sim by (auto simp: sim_def)
  have aq: "areq_ok cfg s (p, a)" using sim en by (auto simp: sim_def msgs_ok_def)
  then have ids: "p \<in> node_ids cfg" "ae_LeaderId a \<in> node_ids cfg" "p \<noteq> ae_LeaderId a"
    and prev0: "0 \<le> ?prev" by (auto simp: areq_ok_def Let_def)
  have ok: "node_ok cfg s p ?rf" using sim_node [OF sim ids(1)] .
  have tal: "tally_ok cfg s' (voteGos c) j t (votes c j t)"
    if "grows s s'" "j \<in> node_ids cfg" for s' j t
    using sim_tally [OF sim that, of c t] by simp
  have concl: "advances cfg c s ((set_node c p rf)\<lparr>appReps := insert (ae_LeaderId a, p, a, r) (appReps c)\<rparr>) s'"
    if "protocol_run (is_majority cfg) s s'" "grows s s'" "touches p s s'" "node_ok cfg s' p rf"
      "elect s' = elect s" "tlog s' = tlog s" "node_grows ?rf rf"
      "ar_Success r \<longrightarrow> (\<forall>k \<le> nat ?prev + ?n. (p, ?t, k) \<in> acks s')" for s' rf r
    by (rule simI [OF sim that(1-3)])
      (use that tlogs_ok_same [OF tl] tal ids prev0 in \<open>auto simp: set_node_def arep_ok_def\<close>)
  show ?thesis
  proof (cases "?t < currentTerm ?rf")
    case True
    then have f: "fire_deliver_append c p a = Some ((set_node c p ?rf)
        \<lparr>appReps := insert (ae_LeaderId a, p, a, ae_reply ?rf False) (appReps c)\<rparr>)"
      by (simp add: fire_deliver_append_def AppendEntries_def)
    show ?thesis
      using f concl [OF protocol_run_refl grows_refl touches_refl ok, of "ae_reply ?rf False"]
      by (auto simp: ae_reply_def)
  next
    case False
    then have le: "currentTerm ?rf \<le> ?t" by simp
    then have tle: "trm s p \<le> ?t" using ok by (simp add: node_ok_def)
    let ?rf1 = "if ?t > currentTerm ?rf then becomeFollower ?t ?rf else resetElectionTimer ?rf"
    let ?s1 = "see_term p ?t s"
    note s1 = see_term_step [OF pr tle]
    have ng1: "node_grows ?rf ?rf1" by (simp add: node_grows_def)
    have ok1: "node_ok cfg ?s1 p ?rf1" using node_ok_see [OF pr ok le] by (simp split: if_splits)
    have term1: "currentTerm ?rf1 = ?t" using le by simp
    show ?thesis
    proof (cases "prev_consistent ?rf1 a")
      case bad: False
      then have f: "fire_deliver_append c p a = Some ((set_node c p ?rf1)
          \<lparr>appReps := insert (ae_LeaderId a, p, a, ae_reply ?rf1 False) (appReps c)\<rparr>)"
        using False by (simp add: fire_deliver_append_def AppendEntries_def Let_def)
      show ?thesis using f concl [OF s1(4,2,3) ok1, of "ae_reply ?rf1 False"] ng1 by (auto simp: ae_reply_def)
    next
      case True
      let ?T = "tlog s ?t" and ?k = "Suc (nat ?prev)"
      let ?m = "?k + ?n"
      obtain V el where el: "elect s ?t = Some (ae_LeaderId a, V, el)"
        using aq by (auto simp: areq_ok_def Let_def)
      have len: "?m \<le> length ?T" and es: "ae_Entries a = take ?n (drop ?k ?T)"
        and pt: "ae_PrevLogTerm a = le_Term (?T ! nat ?prev)"
        and lc: "ae_LeaderCommit a \<le> ?prev + int ?n" "commit_ok cfg s ?t (ae_LeaderCommit a) ?T"
        using aq by (auto simp: areq_ok_def Let_def)
      have inv: "protocol_inv (is_majority cfg) s" using sim_inv [OF sim] .
      then have ni: "node_inv s" and ei: "elect_inv (is_majority cfg) s" by (auto simp: protocol_inv_def)
      have ent: "entries (log ?rf1) = lg s p" and wf: "wf_log (log ?rf1)"
        using ok1 by (auto simp: node_ok_def shape_ok_def split: if_splits)
      have T: "chained s ?T" using elect_invD(4) [OF ei el] .
      have pm: "?k \<le> length (lg s p) \<and> take ?k (lg s p) = take ?k ?T"
        using prev_consistent_match [OF True ent node_invD(1) [OF ni] T prev0 _ pt] len by simp
      obtain w where w: "merge_loop (log ?rf1) ?prev 0 (ae_Entries a) = Some w" "wf_log w"
        "entries w = reconcile (entries (log ?rf1)) (take ?m ?T)"
        using merge_loop_reconcile [of s "log ?rf1" ?T ?k ?prev 0 "ae_Entries a"]
          ent wf node_invD(1) [OF ni, of p] T tl el pm prev0 len es
        by (auto simp: tlogs_ok_def)
      let ?rf2 = "follow_commit (?rf1\<lparr>log := w\<rparr>) (ae_LeaderCommit a)"
      have f: "fire_deliver_append c p a = Some ((set_node c p ?rf2)
          \<lparr>appReps := insert (ae_LeaderId a, p, a, ae_reply ?rf2 True) (appReps c)\<rparr>)"
        using False True w(1) by (simp add: fire_deliver_append_def AppendEntries_def Let_def)
      let ?s2 = "accept_entries p ?t ?m ?s1"
      have "protocol_step (is_majority cfg) ?s1 ?s2"
        unfolding accept_entries_def
        by (rule protocol_step.accept) (use el ids len in auto)
      note s2 = reach_step [OF s1(1) this]
      have "commit_ok cfg ?s1 ?t (ae_LeaderCommit a) ?T" using commit_ok_grows [OF s1(2) lc(2)] by simp
      then have ok2: "node_ok cfg ?s2 p ?rf2"
        using lc(1) len prev0 el w(2,3) ent
        by (intro node_ok_accept [OF ok1 s1(1) _ ids(3) term1 _ _ _ _ s2(2)]) auto
      have ng2: "node_grows ?rf ?rf2"
      proof -
        have "take ?m (entries w) = take ?m ?T"
          using reconcile_covers [OF node_invD(1) [OF ni] chained_tlog_take [OF ei el, of ?m], of p]
            len w(3) ent by (simp add: min_absorb2)
        then have "?m \<le> length (entries w)" using take_eq_length len by blast
        then have "ae_LeaderCommit a \<le> LastIndex w" using lc(1) prev0 by (simp add: LastIndex_def)
        then show ?thesis using ng1 by (simp add: node_grows_def follow_commit_def Let_def)
      qed
      have tch: "touches p s ?s2" by (simp add: touches_def)
      show ?thesis
        using f concl [OF protocol_run_trans [OF s1(4) s2(3)] grows_trans [OF s1(2) s2(2)] tch ok2, of "ae_reply ?rf2 True"] ng2 by auto
    qed
  qed
qed

end
