(* ===== verification/RaftCommit.thy ===== *)
theory RaftCommit
  imports RaftReplication RaftNodeFacts
begin

text \<open>
  The leader's side through the simulation relation (sending, counting acknowledgements, client
  commands), the apply loop, the boot state, and the result: every reachable cluster is related to
  a reachable protocol state and no enabled event panics.
\<close>

section \<open>Sending entries\<close>

lemma leader_tlog:
  assumes "node_ok cfg s i rf" and "protocol_reachable (is_majority cfg) s" and "rstate rf = Leader"
  shows "tlog s (currentTerm rf) = lg s i" and "\<exists>V el. elect s (currentTerm rf) = Some (i, V, el)"
proof -
  show "\<exists>V el. elect s (currentTerm rf) = Some (i, V, el)"
    using assms(1,3) by (auto simp: node_ok_def leader_ok_def)
  then obtain V el where el: "elect s (currentTerm rf) = Some (i, V, el)" by blast
  have "elect_inv (is_majority cfg) s"
    using protocol_reachable_inv [OF assms(2)] by (simp add: protocol_inv_def)
  then show "tlog s (currentTerm rf) = lg s i"
    using el assms(1) unfolding elect_inv_def node_ok_def by auto
qed

lemma node_ids_in_range:
  assumes "positional cfg" and "shape_ok cfg i rf" and "p \<in> node_ids cfg"
  shows "0 \<le> p" and "p < int (length (nextIndex rf))" and "p < int (length (matchIndex rf))"
  using assms positional_id_range [OF assms(1), of p] by (auto simp: shape_ok_def)

lemma other_peers_ok:
  "shape_ok cfg i rf \<Longrightarrow> set (other_peers rf) = node_ids cfg - {i}"
  by (auto simp: other_peers_def shape_ok_def node_ids_def)

lemma areq_ok_prepare:
  assumes pos: "positional cfg" and ok: "node_ok cfg s i rf"
    and pr: "protocol_reachable (is_majority cfg) s" and ld: "rstate rf = Leader"
    and i: "i \<in> node_ids cfg" and p: "p \<in> node_ids cfg" "p \<noteq> i"
  shows "\<exists>a. send_prepare rf p = Some (Some a) \<and> areq_ok cfg s (p, a)"
proof -
  let ?ni = "nextIndex rf ! nat p" and ?L = "lg s i"
  have sh: "shape_ok cfg i rf" and ent: "entries (log rf) = ?L" and lo: "leader_ok cfg s i rf"
    and co: "commit_ok cfg s (trm s i) (commitIndex rf) ?L" and tm: "currentTerm rf = trm s i"
    using ok ld by (auto simp: node_ok_def)
  note ap = applied_in_log [OF ok pr] and lt = leader_tlog [OF ok pr ld]
  have ni: "1 \<le> ?ni" "?ni \<le> int (length ?L)" using lo p(1) by (auto simp: leader_ok_def)
  define k where "k = nat ?ni"
  have k: "?ni = int k" "0 < k" "k \<le> length ?L" using ni by (auto simp: k_def)
  have es: "Entries (log rf) ?ni (LastIndex (log rf) + 1) = drop k ?L"
    using Entries_from [OF k(2), of "log rf"] k(1) ent by simp
  have zero: "?L ! 0 = zeroEntry"
    using chained_zero node_invD(1) protocol_reachable_inv [OF pr] by (auto simp: protocol_inv_def)
  have pt: "(if ?ni - 1 > 0 then (let e = At (log rf) (?ni - 1) in if snd e then le_Term (fst e) else 0)
      else 0) = le_Term (?L ! nat (?ni - 1))"
    using k ent zero by (auto simp: At_def Let_def nat_diff_distrib)
  have "slice_get (nextIndex rf) p = Some ?ni" using node_ids_in_range [OF pos sh p(1)] by simp
  then have sp: "send_prepare rf p = Some (Some
      \<lparr>ae_Term = currentTerm rf, ae_LeaderId = i, ae_PrevLogIndex = ?ni - 1,
       ae_PrevLogTerm = le_Term (?L ! nat (?ni - 1)), ae_Entries = drop k ?L,
       ae_LeaderCommit = commitIndex rf\<rparr>)"
    using ld sh pt es by (simp add: send_prepare_def Let_def shape_ok_def)
  have "Suc (nat (?ni - 1)) = k" using k by simp
  then show ?thesis
    using sp i p k lt ap(2) co tm by (intro exI conjI) (assumption, auto simp: areq_ok_def Let_def)
qed

lemma sim_replicate:
  assumes pos: "positional cfg" and sim: "sim cfg c s" and i: "i \<in> node_ids cfg"
    and p: "p \<in> set (other_peers (nodes c i))"
  shows "\<exists>c' s'. fire_replicate c i p = Some c' \<and> advances cfg c s c' s'"
proof (cases "rstate (nodes c i) = Leader")
  case False
  then show ?thesis using advances_refl [OF sim] by (auto simp: fire_replicate_def send_prepare_def)
next
  case True
  have ok: "node_ok cfg s i (nodes c i)" using sim_node [OF sim i] .
  have pr: "protocol_reachable (is_majority cfg) s" and tl: "tlogs_ok s" using sim by (auto simp: sim_def)
  have p': "p \<in> node_ids cfg" "p \<noteq> i"
    using other_peers_ok [of cfg i "nodes c i"] ok p by (auto simp: node_ok_def)
  obtain a where a: "send_prepare (nodes c i) p = Some (Some a)" "areq_ok cfg s (p, a)"
    using areq_ok_prepare [OF pos ok pr True i p'] by blast
  let ?c' = "c\<lparr>appReqs := appReqs c \<union> (\<lambda>q. (q, a)) ` callable (nodes c i) [p]\<rparr>"
  have "advances cfg c s ?c' s"
    by (rule simI [OF sim protocol_run_refl grows_refl touches_refl [of i] _ node_grows_refl ok tl])
      (use a(2) sim_tally [OF sim grows_refl, of _ ?c'] in \<open>auto simp: callable_def\<close>)
  then show ?thesis using a(1) by (auto simp: fire_replicate_def)
qed

section \<open>Counting acknowledgements\<close>

lemma tracks_peers_ok:
  assumes "positional cfg" and "shape_ok cfg i rf"
  shows "tracks_peers rf"
  unfolding tracks_peers_def
proof
  fix p assume "p \<in> set (peers rf)"
  then have "ID p \<in> node_ids cfg" using assms(2) by (simp add: shape_ok_def node_ids_def)
  then show "0 \<le> ID p \<and> ID p < int (length (matchIndex rf))"
    using node_ids_in_range [OF assms] by blast
qed

text \<open>What the leader counts is a majority that acknowledged the entry in the current term.\<close>

lemma can_commit_chosen:
  assumes pos: "positional cfg" and ok: "node_ok cfg s i rf"
    and pr: "protocol_reachable (is_majority cfg) s" and ld: "rstate rf = Leader"
    and i: "i \<in> node_ids cfg" and cc: "can_commit rf n"
  shows "chosen (is_majority cfg) s (currentTerm rf) (nat n)"
proof -
  have sh: "shape_ok cfg i rf" and ent: "entries (log rf) = lg s i" and lo: "leader_ok cfg s i rf"
    using ok ld by (auto simp: node_ok_def)
  note lt = leader_tlog [OF ok pr ld]
  have n: "0 < n" "nat n < length (lg s i)" "le_Term (lg s i ! nat n) = currentTerm rf"
    using cc ent by (auto simp: can_commit_def nat_less_iff)
  define C where "C = ID ` set (matching rf n)"
  have dist: "distinct (map ID (matching rf n))"
    using positional_distinct [OF pos] sh by (simp add: matching_def shape_ok_def distinct_map_filter)
  then have "card C = length (matching rf n)"
    unfolding C_def by (metis distinct_card length_map list.set_map)
  then have q: "int (length (Nodes cfg)) div 2 + 1 \<le> 1 + int (card C)"
    using cc sh by (simp add: can_commit_def quorum_def shape_ok_def)
  have C: "C \<subseteq> node_ids cfg - {i}"
    using sh by (auto simp: C_def matching_def shape_ok_def node_ids_def)
  have "is_majority cfg (insert i C)" using majority_of_tally [OF pos i C q] .
  moreover have "(p, currentTerm rf, nat n) \<in> acks s" if "p \<in> insert i C" for p
  proof (cases "p = i")
    case True
    then show ?thesis using lo n(2) by (simp add: leader_ok_def)
  next
    case False
    then have "n \<le> matchIndex rf ! nat p" and "p \<in> node_ids cfg"
      using that C by (auto simp: C_def matching_def)
    then show ?thesis using lo n(1) by (simp add: leader_ok_def nat_mono)
  qed
  ultimately show ?thesis using n lt unfolding chosen_def by auto
qed

lemma node_ok_advance:
  assumes pos: "positional cfg" and ok: "node_ok cfg s i rf"
    and pr: "protocol_reachable (is_majority cfg) s" and ld: "rstate rf = Leader"
    and i: "i \<in> node_ids cfg"
  shows "\<exists>rf'. advanceCommitIndex rf = Some rf' \<and> node_ok cfg s i rf' \<and> node_grows rf rf'"
proof -
  have sh: "shape_ok cfg i rf" using ok by (simp add: node_ok_def)
  obtain N where N: "advanceCommitIndex rf = Some (rf\<lparr>commitIndex := N\<rparr>)"
    "N = commitIndex rf \<or> can_commit rf N"
    using advanceCommitIndex_result [OF tracks_peers_ok [OF pos sh]] by blast
  have "node_ok cfg s i (rf\<lparr>commitIndex := N\<rparr>)"
  proof (cases "N = commitIndex rf")
    case True
    then show ?thesis using ok by simp
  next
    case False
    then have cc: "can_commit rf N" using N(2) by blast
    have "chosen (is_majority cfg) s (currentTerm rf) (nat N)"
      using can_commit_chosen [OF pos ok pr ld i cc] .
    moreover have "currentTerm rf = trm s i" using ok by (simp add: node_ok_def)
    ultimately have "commit_ok cfg s (trm s i) N (lg s i)"
      using leader_tlog(1) [OF ok pr ld] unfolding commit_ok_def committed_def
      by (intro impI exI [of _ "trm s i"] exI [of _ "nat N"]) simp
    moreover have "commitIndex rf < N" using cc by (simp add: can_commit_def)
    moreover have "vote_ok s i (rf\<lparr>commitIndex := N\<rparr>) = vote_ok s i rf" by (rule vote_ok_cong) simp_all
    moreover have "leader_ok cfg s i (rf\<lparr>commitIndex := N\<rparr>) = leader_ok cfg s i rf"
      by (simp add: leader_ok_def)
    ultimately show ?thesis using ok ld by (simp add: node_ok_def shape_ok_def)
  qed
  moreover have "node_grows rf (rf\<lparr>commitIndex := N\<rparr>)"
    using N(2) by (auto simp: node_grows_def can_commit_def)
  ultimately show ?thesis using N(1) by blast
qed

lemma node_ok_indices:
  assumes ok: "node_ok cfg s i rf" and ld: "rstate rf = Leader"
    and len: "length ni = length (nextIndex rf)" "length mi = length (matchIndex rf)"
    and old: "leader_ok cfg s i rf \<Longrightarrow> leader_ok cfg s i (rf\<lparr>nextIndex := ni, matchIndex := mi\<rparr>)"
  shows "node_ok cfg s i (rf\<lparr>nextIndex := ni, matchIndex := mi\<rparr>)"
proof -
  have "vote_ok s i (rf\<lparr>nextIndex := ni, matchIndex := mi\<rparr>) = vote_ok s i rf"
    by (rule vote_ok_cong) simp_all
  then show ?thesis using ok ld len old by (simp add: node_ok_def shape_ok_def)
qed

lemma node_ok_backoff:
  assumes pos: "positional cfg" and ok: "node_ok cfg s i rf" and ld: "rstate rf = Leader"
    and p: "p \<in> node_ids cfg" and big: "nextIndex rf ! nat p > 1"
  shows "node_ok cfg s i (rf\<lparr>nextIndex := (nextIndex rf)[nat p := nextIndex rf ! nat p - 1]\<rparr>)"
proof -
  have r: "0 \<le> q" "nat q < length (nextIndex rf)" if "q \<in> node_ids cfg" for q
    using node_ids_in_range [OF pos _ that, of i rf] ok by (auto simp: node_ok_def nat_less_iff)
  have "node_ok cfg s i (rf\<lparr>nextIndex := (nextIndex rf)[nat p := nextIndex rf ! nat p - 1],
      matchIndex := matchIndex rf\<rparr>)"
  proof (rule node_ok_indices [OF ok ld])
    assume "leader_ok cfg s i rf"
    then show "leader_ok cfg s i (rf\<lparr>nextIndex := (nextIndex rf)[nat p := nextIndex rf ! nat p - 1],
        matchIndex := matchIndex rf\<rparr>)"
      using r big p by (force simp: leader_ok_def nth_list_update)
  qed simp_all
  then show ?thesis by simp
qed

lemma node_ok_match:
  assumes pos: "positional cfg" and ok: "node_ok cfg s i rf"
    and pr: "protocol_reachable (is_majority cfg) s" and ld: "rstate rf = Leader"
    and p: "p \<in> node_ids cfg" and m: "0 \<le> m"
    and ack: "\<forall>k \<le> nat m. (p, currentTerm rf, k) \<in> acks s"
  shows "node_ok cfg s i (rf\<lparr>matchIndex := (matchIndex rf)[nat p := m],
    nextIndex := (nextIndex rf)[nat p := m + 1]\<rparr>)"
proof -
  have r: "0 \<le> q" "nat q < length (nextIndex rf)" "nat q < length (matchIndex rf)"
    if "q \<in> node_ids cfg" for q
    using node_ids_in_range [OF pos _ that, of i rf] ok by (auto simp: node_ok_def nat_less_iff)
  have "acks_inv s" using protocol_reachable_inv [OF pr] by (simp add: protocol_inv_def)
  then have "nat m < length (lg s i)"
    using ack leader_tlog(1) [OF ok pr ld] unfolding acks_inv_def by (metis order_refl)
  then have ml: "m + 1 \<le> int (length (lg s i))" using m by linarith
  have "node_ok cfg s i (rf\<lparr>nextIndex := (nextIndex rf)[nat p := m + 1],
      matchIndex := (matchIndex rf)[nat p := m]\<rparr>)"
  proof (rule node_ok_indices [OF ok ld])
    assume "leader_ok cfg s i rf"
    then show "leader_ok cfg s i (rf\<lparr>nextIndex := (nextIndex rf)[nat p := m + 1],
        matchIndex := (matchIndex rf)[nat p := m]\<rparr>)"
      using r m ml p ack
      by (auto simp: leader_ok_def nth_list_update eq_nat_nat_iff)
  qed simp_all
  moreover have "rf\<lparr>nextIndex := (nextIndex rf)[nat p := m + 1], matchIndex := (matchIndex rf)[nat p := m]\<rparr> =
      rf\<lparr>matchIndex := (matchIndex rf)[nat p := m], nextIndex := (nextIndex rf)[nat p := m + 1]\<rparr>"
    by (cases rf) simp
  ultimately show ?thesis by simp
qed

lemma sim_receive_append:
  assumes pos: "positional cfg" and sim: "sim cfg c s" and en: "(i, p, a, r) \<in> appReps c"
  shows "\<exists>c' s'. fire_receive_append c i p a r = Some c' \<and> advances cfg c s c' s'"
proof -
  let ?rf = "nodes c i" and ?m = "ae_PrevLogIndex a + int (length (ae_Entries a))"
  have pr: "protocol_reachable (is_majority cfg) s" and tl: "tlogs_ok s" using sim by (auto simp: sim_def)
  have ap: "arep_ok cfg s (i, p, a, r)" using sim en by (auto simp: sim_def msgs_ok_def)
  then have ids: "i \<in> node_ids cfg" "p \<in> node_ids cfg" and prev0: "0 \<le> ae_PrevLogIndex a"
    by (auto simp: arep_ok_def)
  have ok: "node_ok cfg s i ?rf" using sim_node [OF sim ids(1)] .
  then have sh: "shape_ok cfg i ?rf" by (simp add: node_ok_def)
  have concl: "advances cfg c s (set_node c i rf) s'"
    if "protocol_run (is_majority cfg) s s'" "grows s s'" "touches i s s'" "node_ok cfg s' i rf"
      "tlogs_ok s'" "node_grows ?rf rf" for rf s'
    by (rule simI [OF sim that(1-3)])
      (use that sim_tally [OF sim that(2), of _ "set_node c i rf"] in \<open>auto simp: set_node_def\<close>)
  have f: "fire_receive_append c i p a r = Some (set_node c i rf)"
    if "send_reply ?rf p a r = Some (rf, again)" for rf again
    using that by (simp add: fire_receive_append_def)
  note rng = node_ids_in_range [OF pos sh ids(2)]
  show ?thesis
  proof (cases "ar_Term r > currentTerm ?rf")
    case True
    then have "trm s i \<le> ar_Term r" using ok by (simp add: node_ok_def)
    note s1 = see_term_step [OF pr this]
    have "send_reply ?rf p a r = Some (becomeFollower (ar_Term r) ?rf, False)"
      using True by (simp add: send_reply_def)
    then show ?thesis
      using f concl [OF s1(4,2,3) node_ok_follower [OF pr ok True] tlogs_ok_same [OF tl]]
      by (auto simp: node_grows_def)
  next
    case low: False
    show ?thesis
    proof (cases "rstate ?rf = Leader \<and> currentTerm ?rf = ae_Term a")
      case False
      then have "send_reply ?rf p a r = Some (?rf, False)" using low by (auto simp: send_reply_def)
      then show ?thesis using f concl [OF protocol_run_refl grows_refl touches_refl ok tl node_grows_refl] by blast
    next
      case ld: True
      show ?thesis
      proof (cases "ar_Success r")
        case False
        let ?rf1 = "if nextIndex ?rf ! nat p > 1
          then ?rf\<lparr>nextIndex := (nextIndex ?rf)[nat p := nextIndex ?rf ! nat p - 1]\<rparr> else ?rf"
        have R: "send_reply ?rf p a r = Some (?rf1, True)"
          using low ld False rng by (simp add: send_reply_def)
        have "node_ok cfg s i ?rf1" using node_ok_backoff [OF pos ok _ ids(2)] ld ok by simp
        then show ?thesis using f [OF R] concl [OF protocol_run_refl grows_refl touches_refl _ tl, of ?rf1] by (auto simp: node_grows_def)
      next
        case True
        let ?rf1 = "if ?m > matchIndex ?rf ! nat p
          then ?rf\<lparr>matchIndex := (matchIndex ?rf)[nat p := ?m],
            nextIndex := (nextIndex ?rf)[nat p := ?m + 1]\<rparr> else ?rf"
        have "nat ?m = nat (ae_PrevLogIndex a) + length (ae_Entries a)"
          using prev0 by (simp add: nat_add_distrib)
        then have "\<forall>k \<le> nat ?m. (p, currentTerm ?rf, k) \<in> acks s"
          using ap True ld by (simp add: arep_ok_def)
        then have ok1: "node_ok cfg s i ?rf1"
          using node_ok_match [OF pos ok pr _ ids(2), of ?m] ld prev0 ok by simp
        have "rstate ?rf1 = Leader" using ld by simp
        then obtain rf2 where rf2: "advanceCommitIndex ?rf1 = Some rf2" "node_ok cfg s i rf2"
          "node_grows ?rf1 rf2"
          using node_ok_advance [OF pos ok1 pr _ ids(1)] by blast
        have R: "send_reply ?rf p a r = Some (rf2, commitIndex rf2 > commitIndex ?rf1)"
          using low ld True rng rf2(1) by (simp add: send_reply_def Let_def split: if_splits)
        have "commitIndex ?rf1 = commitIndex ?rf \<and> lastApplied ?rf1 = lastApplied ?rf \<and>
          commitCh ?rf1 = commitCh ?rf \<and> dead ?rf1 = dead ?rf" by simp
        then have "node_grows ?rf rf2" using rf2(3) by (simp add: node_grows_def)
        then show ?thesis using f [OF R] concl [OF protocol_run_refl grows_refl touches_refl rf2(2) tl] by blast
      qed
    qed
  qed
qed

section \<open>Client commands\<close>

definition client_append :: "int32 \<Rightarrow> int64 \<Rightarrow> LogEntry \<Rightarrow> proto \<Rightarrow> proto" where
  "client_append i t e s =
     s\<lparr>lg := (lg s)(i := lg s i @ [e]), tlog := (tlog s)(t := lg s i @ [e]),
       acks := acks s \<union> {(i, t, k) |k. k \<le> length (lg s i)}\<rparr>"

lemma client_append_fields [simp]:
  "trm (client_append i t e s) = trm s" "lg (client_append i t e s) = (lg s)(i := lg s i @ [e])"
  "ballot (client_append i t e s) = ballot s" "elect (client_append i t e s) = elect s"
  "tlog (client_append i t e s) = (tlog s)(t := lg s i @ [e])"
  "acks (client_append i t e s) = acks s \<union> {(i, t, k) |k. k \<le> length (lg s i)}"
  by (simp_all add: client_append_def)

definition command_entry :: "Raft \<Rightarrow> string \<Rightarrow> LogEntry" where
  "command_entry rf cmd =
     \<lparr>le_Index = LastIndex (log rf) + 1, le_Term = currentTerm rf, le_Command = cmd\<rparr>"

lemma Start_leader:
  "rstate rf = Leader \<Longrightarrow> Start rf cmd =
     Some (rf\<lparr>log := (log rf)\<lparr>entries := entries (log rf) @ [command_entry rf cmd]\<rparr>\<rparr>,
           LastIndex (log rf) + 1, currentTerm rf, True)"
  by (simp add: Start_def command_entry_def Let_def)

lemma wf_command:
  "wf_entries (entries (log rf)) \<Longrightarrow> wf_entries (entries (log rf) @ [command_entry rf cmd])"
  by (rule wf_entries_snoc) (simp_all add: command_entry_def LastIndex_def)

lemma leader_ok_append:
  assumes lo: "leader_ok cfg s i rf" and t: "t = currentTerm rf"
  shows "leader_ok cfg (client_append i t e s) i (rf\<lparr>log := w\<rparr>)"
  using lo unfolding leader_ok_def t by (force simp: less_Suc_eq_le)

lemma sim_submit:
  assumes pos: "positional cfg" and sim: "sim cfg c s" and i: "i \<in> node_ids cfg"
  shows "\<exists>c' s'. fire_submit c i cmd = Some c' \<and> advances cfg c s c' s'"
proof (cases "rstate (nodes c i) = Leader")
  case False
  have "set_node c i (nodes c i) = c" by (simp add: set_node_def)
  then show ?thesis using advances_refl [OF sim] False by (auto simp: fire_submit_def Start_def)
next
  case ld: True
  let ?rf = "nodes c i"
  let ?t = "currentTerm ?rf" and ?e = "command_entry ?rf cmd"
  let ?rf1 = "?rf\<lparr>log := (log ?rf)\<lparr>entries := entries (log ?rf) @ [?e]\<rparr>\<rparr>"
  let ?s1 = "client_append i ?t ?e s"
  have pr: "protocol_reachable (is_majority cfg) s" and tl: "tlogs_ok s" using sim by (auto simp: sim_def)
  have ok: "node_ok cfg s i ?rf" using sim_node [OF sim i] .
  then have ent: "entries (log ?rf) = lg s i" and sh: "shape_ok cfg i ?rf" and tm: "?t = trm s i"
    by (auto simp: node_ok_def)
  note ap = applied_in_log [OF ok pr]
  obtain V el where el: "elect s ?t = Some (i, V, el)" using leader_tlog(2) [OF ok pr ld] by blast
  have "protocol_step (is_majority cfg) s ?s1"
    unfolding client_append_def
    by (rule protocol_step.extend [OF el]) (simp_all add: tm command_entry_def)
  note s1 = reach_step [OF pr this]
  have wf: "wf_entries (lg s i @ [?e])"
    using wf_command [of ?rf cmd] sh ent by (simp add: shape_ok_def wf_log_def)
  have "shape_ok cfg i ?rf1" using shape_ok_append [OF sh ent ap(1) wf] ent by simp
  moreover have "leader_ok cfg ?s1 i ?rf1"
    using leader_ok_append [of cfg s i ?rf ?t ?e] ok ld by (simp add: node_ok_def)
  moreover have "commit_ok cfg ?s1 (trm s i) (commitIndex ?rf) (lg s i @ [?e])"
    using commit_ok_snoc [OF _ ap(2,3)] ok
      commit_ok_grows [OF s1(2), of cfg "trm s i" "commitIndex ?rf" "lg s i" "trm s i"]
    by (simp add: node_ok_def)
  moreover have "vote_ok ?s1 i ?rf1 = vote_ok s i ?rf" by (rule vote_ok_cong) simp_all
  ultimately have ok1: "node_ok cfg ?s1 i ?rf1" using ok ld ent by (simp add: node_ok_def)
  have "tlogs_ok ?s1" using tl wf by (simp add: tlogs_ok_def)
  moreover have "touches i s ?s1" by (simp add: touches_def)
  ultimately have "advances cfg c s (set_node c i ?rf1) ?s1"
    using simI [OF sim s1(3,2) _ _ _ ok1, of "set_node c i ?rf1"] sim_tally [OF sim s1(2), of _ "set_node c i ?rf1"]
    by (simp add: set_node_def node_grows_def)
  then show ?thesis using Start_leader [OF ld, of cmd] by (auto simp: fire_submit_def)
qed

section \<open>Applying and stopping\<close>

lemma apply_one_step:
  assumes "wf_log (log rf)" and "0 \<le> lastApplied rf" and "commitIndex rf < int (length (entries (log rf)))"
  shows "apply_one rf =
    (if lastApplied rf < commitIndex rf
     then (rf\<lparr>lastApplied := lastApplied rf + 1,
              commitCh := commitCh rf @ [to_msg (entries (log rf) ! nat (lastApplied rf + 1))]\<rparr>, True)
     else (rf, False))"
  using assms by (auto simp: apply_one_def At_def to_msg_def Let_def)

lemma node_ok_apply:
  assumes ok: "node_ok cfg s i rf" and pr: "protocol_reachable (is_majority cfg) s"
  shows "node_ok cfg s i (fst (apply_one rf))"
proof (cases "lastApplied rf < commitIndex rf")
  case False
  then show ?thesis using ok by (simp add: apply_one_def)
next
  case True
  note ap = applied_in_log [OF ok pr]
  have sh: "shape_ok cfg i rf" and ent: "entries (log rf) = lg s i" using ok by (auto simp: node_ok_def)
  let ?k = "nat (lastApplied rf)"
  have la: "0 \<le> lastApplied rf" using sh unfolding shape_ok_def by blast
  have k: "nat (lastApplied rf + 1) = Suc ?k" "Suc ?k < length (lg s i)"
    using la True ap(2) by linarith+
  let ?rf1 = "rf\<lparr>lastApplied := lastApplied rf + 1,
    commitCh := commitCh rf @ [to_msg (lg s i ! Suc ?k)]\<rparr>"
  have "apply_one rf = (?rf1, True)"
    using apply_one_step [of rf] sh ap(2) True unfolding shape_ok_def ent k(1) by simp
  moreover have "map to_msg (drop 1 (take (Suc (Suc ?k)) (lg s i))) =
      map to_msg (drop 1 (take (Suc ?k) (lg s i))) @ [to_msg (lg s i ! Suc ?k)]"
    unfolding take_Suc_conv_app_nth [OF k(2)] using k(2) by simp
  then have "shape_ok cfg i ?rf1"
    using sh True unfolding shape_ok_def ent by (simp add: k(1) ent)
  moreover have "vote_ok s i ?rf1 = vote_ok s i rf" by (rule vote_ok_cong) simp_all
  moreover have "candidate_ok s i ?rf1 = candidate_ok s i rf" by (simp add: candidate_ok_def)
  moreover have "leader_ok cfg s i ?rf1 = leader_ok cfg s i rf" by (simp add: leader_ok_def)
  ultimately show ?thesis using ok by (simp add: node_ok_def)
qed

lemma apply_one_grows: "node_grows rf (fst (apply_one rf))"
  by (auto simp: node_grows_def apply_one_def Let_def)

lemma node_ok_kill:
  assumes "node_ok cfg s i rf"
  shows "node_ok cfg s i (Kill rf)"
proof -
  have "vote_ok s i (Kill rf) = vote_ok s i rf" by (rule vote_ok_cong) (simp_all add: Kill_def)
  moreover have "candidate_ok s i (Kill rf) = candidate_ok s i rf" by (simp add: candidate_ok_def Kill_def)
  moreover have "leader_ok cfg s i (Kill rf) = leader_ok cfg s i rf" by (simp add: leader_ok_def Kill_def)
  moreover have "shape_ok cfg i (Kill rf) = shape_ok cfg i rf" by (simp add: shape_ok_def Kill_def)
  ultimately show ?thesis using assms by (simp add: node_ok_def Kill_def)
qed

lemma sim_set_node:
  assumes sim: "sim cfg c s" and ok: "node_ok cfg s i rf" and ng: "node_grows (nodes c i) rf"
  shows "advances cfg c s (set_node c i rf) s"
proof -
  have pr: "protocol_reachable (is_majority cfg) s" and tl: "tlogs_ok s" using sim by (auto simp: sim_def)
  show ?thesis
    by (rule simI [OF sim protocol_run_refl grows_refl touches_refl _ ng ok tl])
      (use sim_tally [OF sim grows_refl, of _ "set_node c i rf"] in \<open>auto simp: set_node_def\<close>)
qed

section \<open>Booting\<close>

lemma connect_loop_Some:
  "connect_loop dial ps rf = Some rf' \<Longrightarrow> rf' = rf\<lparr>peerConns := peerConns rf \<union> ID ` set ps\<rparr>"
proof (induction ps arbitrary: rf)
  case (Cons p ps)
  then have "rf' = (SetPeerClient rf (ID p))\<lparr>peerConns := peerConns (SetPeerClient rf (ID p)) \<union> ID ` set ps\<rparr>"
    by (auto split: if_splits)
  then show ?case by (simp add: SetPeerClient_def)
qed simp

lemma New_Some:
  assumes "New dial i cfg rand = Some rf"
  shows "rf = resetElectionTimer ((NewPaused i cfg rand)\<lparr>peerConns := node_ids cfg - {i}\<rparr>)"
proof -
  have "ID ` set (Peers cfg i) = node_ids cfg - {i}" by (auto simp: Peers_filter node_ids_def)
  then show ?thesis
    using assms connect_loop_Some by (fastforce simp: New_def Resume_def NewPaused_def bind_eq_Some_conv)
qed

lemma node_ok_boot:
  assumes "New dial i cfg rand = Some rf"
  shows "node_ok cfg proto_init i rf"
proof -
  have "node_ok cfg proto_init i ((NewPaused i cfg rand)\<lparr>peerConns := node_ids cfg - {i}\<rparr>)"
    by (simp add: node_ok_def shape_ok_def vote_ok_def commit_ok_def proto_init_def NewPaused_def wf_newLog)
  then show ?thesis using New_Some [OF assms] by simp
qed

lemma sim_initial:
  assumes "initial cfg c"
  shows "sim cfg c proto_init"
proof -
  have "node_ok cfg proto_init i (nodes c i)" if "i \<in> node_ids cfg" for i
    using assms that node_ok_boot unfolding initial_def by blast
  moreover have "tally_ok cfg proto_init {} i t 0" for i t
    unfolding tally_ok_def by (intro exI [of _ "{}"]) simp
  then have "msgs_ok cfg c proto_init" using assms by (simp add: msgs_ok_def initial_def)
  ultimately show ?thesis
    by (simp add: sim_def tlogs_ok_def protocol_reachable.start) (simp add: proto_init_def)
qed

section \<open>The simulation\<close>

lemma sim_fire:
  assumes "positional cfg" and "sim cfg c s" and "enabled cfg c ev"
  shows "\<exists>c' s'. fire c ev = Some c' \<and> advances cfg c s c' s'"
proof (cases ev)
  case (ElectionTimeout i)
  then show ?thesis using sim_timeout assms by fastforce
next
  case (DeliverVote p a)
  then show ?thesis using sim_deliver_vote assms by fastforce
next
  case (ReceiveVote i p t r)
  then show ?thesis using sim_receive_vote assms by fastforce
next
  case (Replicate i p)
  then show ?thesis using sim_replicate assms by fastforce
next
  case (DeliverAppend p a)
  then show ?thesis using sim_deliver_append assms by fastforce
next
  case (ReceiveAppend i p a r)
  then show ?thesis using sim_receive_append assms by fastforce
next
  case (Submit i cmd)
  then show ?thesis using sim_submit assms by fastforce
next
  case (ApplyEntry i)
  then have "i \<in> node_ids cfg" and "protocol_reachable (is_majority cfg) s"
    using assms by (auto simp: sim_def)
  then show ?thesis
    using ApplyEntry sim_set_node [OF assms(2) node_ok_apply [OF sim_node [OF assms(2)]] apply_one_grows]
    by auto
next
  case (KillNode i)
  then have "i \<in> node_ids cfg" using assms by simp
  then show ?thesis
    using KillNode sim_set_node [OF assms(2) node_ok_kill] sim_node [OF assms(2)]
    by (auto simp: node_grows_def Kill_def)
qed

lemma reachable_sim:
  assumes pos: "positional cfg" and "reachable cfg c"
  shows "\<exists>s. sim cfg c s"
  using assms(2)
proof (induction rule: reachable.induct)
  case (boot c)
  then show ?case using sim_initial by blast
next
  case (next_state c c')
  then obtain s where "sim cfg c s" by blast
  then show ?case using sim_fire [OF pos] next_state.hyps(2)
    by (fastforce simp: cluster_step_iff advances_def)
qed

text \<open>A run from a related cluster: the history of its end extends the history of its start.\<close>

definition later :: "ClusterConfig \<Rightarrow> cluster \<Rightarrow> cluster \<Rightarrow> bool" where
  "later cfg c c' \<longleftrightarrow> rtranclp (cluster_step cfg) c c'"

lemma later_refl [simp]: "later cfg c c"
  by (simp add: later_def)

lemma later_reachable:
  assumes "reachable cfg c" and "later cfg c c'"
  shows "reachable cfg c'"
  using assms(2,1) unfolding later_def
  by (induction rule: rtranclp_induct) (auto intro: reachable.next_state)

lemma run_later: "run cfg c evs = Some c' \<Longrightarrow> later cfg c c'"
  unfolding later_def
  by (induction evs arbitrary: c)
    (auto split: if_splits option.splits intro: converse_rtranclp_into_rtranclp cluster_step.fires)

lemma sim_later:
  assumes pos: "positional cfg" and "later cfg c c'" and sim: "sim cfg c s"
  shows "\<exists>s'. advances cfg c s c' s'"
  using assms(2) unfolding later_def
proof (induction rule: rtranclp_induct)
  case base
  then show ?case using advances_refl [OF sim] by blast
next
  case (step c' c'')
  then obtain s' where s': "advances cfg c s c' s'" by blast
  obtain ev where ev: "enabled cfg c' ev" "fire c' ev = Some c''"
    using step.hyps(2) by (auto simp: cluster_step_iff)
  have "sim cfg c' s'" using s' by (simp add: advances_def)
  then obtain s'' where "advances cfg c' s' c'' s''"
    using sim_fire [OF pos _ ev(1)] ev(2) by fastforce
  then have "advances cfg c s c'' s''"
    using advances_trans [OF s'] by blast
  then show ?case ..
qed

lemma reachable_later:
  assumes "positional cfg" and "reachable cfg c" and "later cfg c c'"
  obtains s s' where "sim cfg c s" and "advances cfg c s c' s'"
  using reachable_sim [OF assms(1,2)] sim_later [OF assms(1,3)] by blast

end
