(* ===== verification/RaftLiveness.thy ===== *)
theory RaftLiveness
  imports RaftNodeFacts
begin

text \<open>
  Convergence of replication: the loop of \<open>sendAppendEntries\<close> for one peer, when the peer answers
  each request and nothing else happens meanwhile. The loop backs \<open>nextIndex\<close> up until the logs
  agree, hands over the missing tail, and goes round once more when the commit index moved, so that
  the peer learns it.
\<close>

section \<open>The loop\<close>

text \<open>One pass: prepare the request, the peer handles it, the reply is processed.\<close>

definition exchange :: "Raft \<Rightarrow> int32 \<Rightarrow> Raft \<Rightarrow> (Raft \<times> Raft \<times> bool) go" where
  "exchange l p f =
     (case send_prepare l p of
        None \<Rightarrow> None
      | Some None \<Rightarrow> Some (l, f, False)
      | Some (Some args) \<Rightarrow>
          then_do (AppendEntries f args)
            (\<lambda>(f', reply). then_do (send_reply l p args reply)
               (\<lambda>(l', again). Some (l', f', again))))"

text \<open>The loop with fuel: the inner \<open>None\<close> is running out of it.\<close>

fun catch_up :: "nat \<Rightarrow> Raft \<Rightarrow> int32 \<Rightarrow> Raft \<Rightarrow> (Raft \<times> Raft) option go" where
  "catch_up 0 l p f = Some None"
| "catch_up (Suc fuel) l p f =
     then_do (exchange l p f)
       (\<lambda>(l', f', again). if again then catch_up fuel l' p f' else Some (Some (l', f')))"

section \<open>One pass\<close>

definition logs_match :: "LogEntry list \<Rightarrow> LogEntry list \<Rightarrow> bool" where
  "logs_match L F \<longleftrightarrow>
     (\<forall>k. k < length L \<and> k < length F \<and> le_Term (L ! k) = le_Term (F ! k) \<longrightarrow>
          take (Suc k) L = take (Suc k) F)"

definition ready :: "Raft \<Rightarrow> int32 \<Rightarrow> Raft \<Rightarrow> bool" where
  "ready l p f \<longleftrightarrow>
     rstate l = Leader \<and> wf_log (log l) \<and> wf_log (log f) \<and> tracks_peers l \<and>
     0 \<le> p \<and> p < int (length (nextIndex l)) \<and> p < int (length (matchIndex l)) \<and>
     1 \<le> nextIndex l ! nat p \<and> nextIndex l ! nat p \<le> int (length (entries (log l))) \<and>
     matchIndex l ! nat p \<le> LastIndex (log l) \<and> commitIndex l \<le> LastIndex (log l) \<and>
     currentTerm f \<le> currentTerm l \<and> logs_match (entries (log l)) (entries (log f))"

text \<open>The peer has every entry of the leader, and the leader knows it.\<close>

definition in_sync :: "Raft \<Rightarrow> int32 \<Rightarrow> Raft \<Rightarrow> bool" where
  "in_sync l p f \<longleftrightarrow>
     take (length (entries (log l))) (entries (log f)) = entries (log l) \<and>
     matchIndex l ! nat p = LastIndex (log l)"

definition request_at :: "Raft \<Rightarrow> nat \<Rightarrow> AppendEntriesArgs" where
  "request_at l k =
     \<lparr>ae_Term = currentTerm l, ae_LeaderId = rid l, ae_PrevLogIndex = int k,
      ae_PrevLogTerm = le_Term (entries (log l) ! k), ae_Entries = drop (Suc k) (entries (log l)),
      ae_LeaderCommit = commitIndex l\<rparr>"

lemma send_prepare_ready:
  assumes "ready l p f" and "nextIndex l ! nat p = int (Suc k)"
  shows "send_prepare l p = Some (Some (request_at l k))"
proof -
  have k: "k < length (entries (log l))" using assms by (simp add: ready_def)
  have "Entries (log l) (int (Suc k)) (LastIndex (log l) + 1) = drop (Suc k) (entries (log l))"
    by (rule Entries_from) simp
  moreover have "(if int k > 0
      then (let e = At (log l) (int k) in if snd e then le_Term (fst e) else 0) else 0) =
    le_Term (entries (log l) ! k)"
    using k assms(1)
    by (cases "k = 0") (auto simp: ready_def wf_log_def wf_entries_def At_def Let_def)
  moreover have "slice_get (nextIndex l) p = Some (int (Suc k))" "rstate l = Leader"
    using assms by (auto simp: ready_def)
  moreover have "int (Suc k) - 1 = int k" by simp
  ultimately show ?thesis unfolding send_prepare_def request_at_def Let_def by (simp split: if_splits)
qed

lemma next_index_Suc: "ready l p f \<Longrightarrow> \<exists>k. nextIndex l ! nat p = int (Suc k)"
proof
  assume "ready l p f"
  then show "nextIndex l ! nat p = int (Suc (nat (nextIndex l ! nat p - 1)))" by (simp add: ready_def)
qed

lemma wf_consecutive: "wf_log l \<Longrightarrow> consecutive (int k + 1) (drop (Suc k) (entries l))"
  by (auto simp: consecutive_def wf_log_def wf_entries_def)

text \<open>The peer's log after a merge at a point where it agrees with the leader covers the leader's.\<close>

lemma matched_terms: "i < matched L es \<Longrightarrow> le_Term (L ! i) = le_Term (es ! i)"
  unfolding matched_def
  by (smt (verit, best) case_prod_conv length_takeWhile_le length_zip min.strict_boundedE nth_mem
      nth_zip order.strict_trans2 set_takeWhileD takeWhile_nth)

lemma merged_covers:
  assumes m: "logs_match L F" and k: "k < length L" "k < length F"
    and t: "le_Term (L ! k) = le_Term (F ! k)"
  shows "take (length L) (merged F (Suc k) (drop (Suc k) L)) = L"
proof -
  let ?j = "matched (drop (Suc k) F) (drop (Suc k) L)"
  have j: "Suc k + ?j \<le> length L" "Suc k + ?j \<le> length F"
    using matched_le [of "drop (Suc k) F" "drop (Suc k) L"] k by auto
  have "le_Term (L ! (k + ?j)) = le_Term (F ! (k + ?j))"
  proof (cases ?j)
    case (Suc i)
    then have "le_Term (drop (Suc k) F ! i) = le_Term (drop (Suc k) L ! i)" by (simp add: matched_terms)
    then show ?thesis using Suc j by simp
  qed (use t in simp)
  then have eq: "take (Suc k + ?j) L = take (Suc k + ?j) F"
    using m j unfolding logs_match_def by simp
  show ?thesis
  proof (cases "?j = length (drop (Suc k) L)")
    case True
    then have "Suc k + ?j = length L" using k by simp
    then have "take (length L) L = take (length L) F" using eq by metis
    then show ?thesis using True by (simp add: merged_def)
  next
    case False
    then have "merged F (Suc k) (drop (Suc k) L) = take (Suc k + ?j) L @ drop (Suc k + ?j) L"
      using eq by (simp add: merged_def Let_def add.commute)
    then show ?thesis by simp
  qed
qed

text \<open>A rejection: \<open>nextIndex\<close> goes back by one.\<close>

lemma merged_nonempty: "F \<noteq> [] \<Longrightarrow> merged F (Suc k) es \<noteq> []"
  by (auto simp: merged_def Let_def)

lemma exchange_reject:
  assumes r: "ready l p f" and k: "nextIndex l ! nat p = int (Suc k)"
    and no: "\<not> prev_consistent f (request_at l k)"
  shows "0 < k \<and> (\<exists>f'. ready (l\<lparr>nextIndex := (nextIndex l)[nat p := int k]\<rparr>) p f' \<and>
    exchange l p f = Some (l\<lparr>nextIndex := (nextIndex l)[nat p := int k]\<rparr>, f', True))"
proof
  show k0: "0 < k" using no by (cases k) (auto simp: prev_consistent_def request_at_def)
  let ?f' = "if currentTerm l > currentTerm f then becomeFollower (currentTerm l) f
    else resetElectionTimer f"
  let ?l' = "l\<lparr>nextIndex := (nextIndex l)[nat p := int k]\<rparr>"
  have t: "currentTerm f \<le> ae_Term (request_at l k)" using r by (simp add: ready_def request_at_def)
  have A: "AppendEntries f (request_at l k) = Some (?f', ae_reply ?f' False)"
    using AppendEntries_inconsistent [OF t no] by (simp add: request_at_def)
  have ct: "currentTerm ?f' = currentTerm l" using r by (simp add: ready_def)
  have "send_reply l p (request_at l k) (ae_reply ?f' False) = Some (?l', True)"
    using r k k0 ct by (simp add: send_reply_def ae_reply_def request_at_def ready_def)
  then have "exchange l p f = Some (?l', ?f', True)"
    using send_prepare_ready [OF r k] A by (simp add: exchange_def)
  moreover have "ready ?l' p ?f'"
    using r k k0 by (simp add: ready_def tracks_peers_def nat_less_iff)
  ultimately show "\<exists>f'. ready ?l' p f' \<and> exchange l p f = Some (?l', f', True)" by blast
qed

text \<open>An acceptance: both have the same log up to the leader's end.\<close>

lemma prev_consistent_at:
  assumes r: "ready l p f" and k: "k < length (entries (log l))"
    and pc: "prev_consistent f (request_at l k)"
  shows "k < length (entries (log f)) \<and> le_Term (entries (log l) ! k) = le_Term (entries (log f) ! k)"
proof (cases "k = 0")
  case True
  then show ?thesis using r by (auto simp: ready_def wf_log_def wf_entries_def)
next
  case False
  then show ?thesis
    using pc by (auto simp: prev_consistent_def request_at_def At_nat Let_def split: if_splits)
qed

lemma advance_idem:
  assumes "tracks_peers rf" and "advanceCommitIndex rf = Some rf'"
  shows "advanceCommitIndex rf' = Some rf'"
proof -
  obtain N where N: "rf' = rf\<lparr>commitIndex := N\<rparr>" "N = commitIndex rf \<or> can_commit rf N"
    "\<forall>k > N. \<not> can_commit rf k"
    using advanceCommitIndex_result [OF assms(1)] assms(2) by auto
  have ge: "commitIndex rf \<le> N" using N(2) by (auto simp: can_commit_def)
  have "\<not> can_commit rf' k" for k
    using N(3) ge unfolding N(1) can_commit_def matching_def quorum_def by auto
  moreover have "tracks_peers rf'" using assms(1) N(1) by (simp add: tracks_peers_def)
  ultimately obtain M where "advanceCommitIndex rf' = Some (rf'\<lparr>commitIndex := M\<rparr>)" "M = commitIndex rf'"
    using advanceCommitIndex_result by blast
  then show ?thesis by simp
qed

lemma exchange_accept:
  assumes r: "ready l p f" and k: "nextIndex l ! nat p = int (Suc k)"
    and pc: "prev_consistent f (request_at l k)"
  shows "\<exists>l' f'. exchange l p f = Some (l', f', commitIndex l < commitIndex l') \<and>
    ready l' p f' \<and> in_sync l' p f' \<and> log l' = log l \<and> commitIndex l \<le> commitIndex l' \<and>
    commitIndex l \<le> commitIndex f' \<and> advanceCommitIndex l' = Some l' \<and>
    (matchIndex l ! nat p = LastIndex (log l) \<longrightarrow> advanceCommitIndex l = Some l')"
proof -
  let ?L = "entries (log l)" and ?F = "entries (log f)" and ?a = "request_at l k"
  have kL: "k < length ?L" using r k by (simp add: ready_def)
  note at = prev_consistent_at [OF r kL pc]
  obtain w where w: "wf_log w" "entries w = merged ?F (Suc k) (drop (Suc k) ?L)"
    and A: "AppendEntries f ?a = Some (follow_commit
        ((if currentTerm l > currentTerm f then becomeFollower (currentTerm l) f
          else resetElectionTimer f)\<lparr>log := w\<rparr>) (commitIndex l),
      ae_reply (follow_commit
        ((if currentTerm l > currentTerm f then becomeFollower (currentTerm l) f
          else resetElectionTimer f)\<lparr>log := w\<rparr>) (commitIndex l)) True)"
    using AppendEntries_merges [of f ?a] pc r wf_consecutive [of "log l" k]
    by (auto simp: request_at_def ready_def)
  define f' where "f' = follow_commit
    ((if currentTerm l > currentTerm f then becomeFollower (currentTerm l) f
      else resetElectionTimer f)\<lparr>log := w\<rparr>) (commitIndex l)"
  have cover: "take (length ?L) (entries w) = ?L"
    using merged_covers [of ?L ?F k] at kL r w(2) by (simp add: ready_def)
  then have wl: "length ?L \<le> length (entries w)" by (metis length_take min.absorb_iff2)
  have f': "currentTerm f' = currentTerm l" "log f' = w" "commitIndex l \<le> commitIndex f'"
    using r wl by (auto simp: f'_def ready_def LastIndex_def)
  let ?n = "LastIndex (log l)"
  have n: "int k + int (length (ae_Entries ?a)) = ?n"
    using kL by (simp add: request_at_def LastIndex_def of_nat_diff)
  define l1 where "l1 = (if ?n > matchIndex l ! nat p
    then l\<lparr>matchIndex := (matchIndex l)[nat p := ?n], nextIndex := (nextIndex l)[nat p := ?n + 1]\<rparr>
    else l)"
  have l1: "commitIndex l1 = commitIndex l" "log l1 = log l" "rstate l1 = rstate l"
    "currentTerm l1 = currentTerm l" "length (nextIndex l1) = length (nextIndex l)"
    "length (matchIndex l1) = length (matchIndex l)" "peers l1 = peers l"
    by (simp_all add: l1_def)
  have r': "0 \<le> p" "nat p < length (nextIndex l)" "nat p < length (matchIndex l)"
    using r by (auto simp: ready_def nat_less_iff)
  have l1p: "matchIndex l1 ! nat p = ?n" "1 \<le> nextIndex l1 ! nat p"
    "nextIndex l1 ! nat p \<le> int (length ?L)"
    using r r' kL by (auto simp: l1_def ready_def LastIndex_def)
  have tr: "tracks_peers l1" using r by (simp add: ready_def tracks_peers_def l1)
  obtain N where N: "advanceCommitIndex l1 = Some (l1\<lparr>commitIndex := N\<rparr>)"
    "N = commitIndex l1 \<or> can_commit l1 N"
    using advanceCommitIndex_result [OF tr] by blast
  let ?l' = "l1\<lparr>commitIndex := N\<rparr>"
  have "N \<le> ?n" using N(2) can_commit_in_log [of l1 N] r l1 by (auto simp: ready_def)
  moreover have "commitIndex l \<le> N" using N(2) l1 by (auto simp: can_commit_def)
  ultimately have Nb: "commitIndex l \<le> N" "N \<le> ?n" by auto
  have st: "rstate l = Leader" "currentTerm f' = currentTerm l" "ae_Term ?a = currentTerm l"
    using r f'(1) by (auto simp: ready_def request_at_def)
  have up: "(if ?n > matchIndex l ! nat p then
      then_do (slice_set (matchIndex l) p ?n)
        (\<lambda>mi. then_do (slice_set (nextIndex l) p (?n + 1))
          (\<lambda>ni. Some (l\<lparr>matchIndex := mi, nextIndex := ni\<rparr>)))
      else Some l) = Some l1"
    using r by (simp add: l1_def ready_def)
  have sg: "slice_get (matchIndex l) p = Some (matchIndex l ! nat p)" using r by (simp add: ready_def)
  have prev: "ae_PrevLogIndex ?a + int (length (ae_Entries ?a)) = ?n"
    using n by (simp add: request_at_def)
  have "send_reply l p ?a (ae_reply f' True) = Some (?l', commitIndex ?l' > commitIndex l1)"
    unfolding send_reply_def Let_def prev sg using st up N(1) by (simp add: ae_reply_def)
  then have "exchange l p f = Some (?l', f', commitIndex l < commitIndex ?l')"
    using send_prepare_ready [OF r k] A l1 by (simp add: exchange_def f'_def)
  moreover have "in_sync ?l' p f'"
    using cover f'(2) l1 l1p by (simp add: in_sync_def)
  moreover have "logs_match ?L (entries w)"
    using cover unfolding logs_match_def by (metis Suc_leI order_refl take_eq_mono take_all)
  then have "ready ?l' p f'"
    using r f' w(1) tr Nb l1 l1p by (simp add: ready_def tracks_peers_def)
  moreover have "advanceCommitIndex ?l' = Some ?l'" using advance_idem [OF tr N(1)] .
  moreover have "matchIndex l ! nat p = ?n \<Longrightarrow> l1 = l" by (simp add: l1_def)
  then have "matchIndex l ! nat p = ?n \<longrightarrow> advanceCommitIndex l = Some ?l'" using N(1) by fastforce
  ultimately show ?thesis using Nb l1 f'(3) by (intro exI [of _ ?l'] exI [of _ f']) simp
qed

text \<open>Whatever the peer held, a pass leaves the leader in office and the other peers' indices alone.\<close>

lemma advance_frame:
  "advanceCommitIndex rf = Some rf' \<Longrightarrow> tracks_peers rf \<Longrightarrow> \<exists>N. rf' = rf\<lparr>commitIndex := N\<rparr>"
  using advanceCommitIndex_result [of rf] by auto

definition keeps_office :: "Raft \<Rightarrow> int32 \<Rightarrow> Raft \<Rightarrow> Raft \<Rightarrow> Raft \<Rightarrow> bool" where
  "keeps_office l p f l' f' \<longleftrightarrow>
     rstate l' = Leader \<and> currentTerm l' = currentTerm l \<and> currentTerm f' = max (currentTerm l) (currentTerm f) \<and>
     tracks_peers l' \<and> (\<forall>q. q \<noteq> nat p \<longrightarrow> matchIndex l' ! q = matchIndex l ! q)"

lemma AppendEntries_term:
  "AppendEntries f a = Some (f', r) \<Longrightarrow>
     currentTerm f' = max (ae_Term a) (currentTerm f) \<and> ar_Term r = currentTerm f'"
  by (auto simp: AppendEntries_def ae_reply_def follow_commit_def bind_eq_Some_conv Let_def
      split: if_splits)

lemma send_prepare_term: "send_prepare l p = Some (Some a) \<Longrightarrow> ae_Term a = currentTerm l \<and> ae_LeaderId a = rid l"
  by (auto simp: send_prepare_def bind_eq_Some_conv Let_def split: if_splits)

lemma exchange_frame:
  assumes e: "exchange l p f = Some (l', f', again)" and ld: "rstate l = Leader" and tr: "tracks_peers l"
    and t: "currentTerm f \<le> currentTerm l"
  shows "keeps_office l p f l' f'"
proof -
  obtain a where a: "send_prepare l p = Some (Some a)"
    using e ld by (auto simp: exchange_def send_prepare_def bind_eq_Some_conv Let_def split: option.splits)
  obtain r where r: "AppendEntries f a = Some (f', r)" "send_reply l p a r = Some (l', again)"
    using e a by (auto simp: exchange_def bind_eq_Some_conv)
  have T: "ae_Term a = currentTerm l" "currentTerm f' = currentTerm l" "ar_Term r = currentTerm l"
    using send_prepare_term [OF a] AppendEntries_term [OF r(1)] t by auto
  show ?thesis
  proof (cases "ar_Success r")
    case False
    then show ?thesis
      using r(2) T ld tr t
      by (auto simp: send_reply_def keeps_office_def tracks_peers_def bind_eq_Some_conv slice_set_Some
          split: if_splits)
  next
    case True
    then obtain l1 where l1: "advanceCommitIndex l1 = Some l'" "rstate l1 = Leader"
      "currentTerm l1 = currentTerm l" "tracks_peers l1" "\<forall>q. q \<noteq> nat p \<longrightarrow> matchIndex l1 ! q = matchIndex l ! q"
      using r(2) T ld tr
      by (auto simp: send_reply_def tracks_peers_def bind_eq_Some_conv slice_set_Some Let_def split: if_splits)
    obtain N where "l' = l1\<lparr>commitIndex := N\<rparr>" using advance_frame [OF l1(1,4)] by blast
    then show ?thesis using l1 T t by (simp add: keeps_office_def tracks_peers_def)
  qed
qed

section \<open>Convergence\<close>

lemma in_sync_consistent:
  assumes r: "ready l p f" and s: "in_sync l p f" and k: "k < length (entries (log l))"
  shows "prev_consistent f (request_at l k)"
proof -
  have "length (entries (log l)) \<le> length (entries (log f))"
    using s by (metis in_sync_def length_take min.absorb_iff2)
  moreover have "entries (log f) ! k = entries (log l) ! k"
    using s k by (metis in_sync_def nth_take)
  ultimately show ?thesis
    using k by (auto simp: prev_consistent_def request_at_def At_nat Let_def)
qed

lemma catch_up_synced:
  assumes r: "ready l p f" and s: "in_sync l p f" and ad: "advanceCommitIndex l = Some l"
  shows "\<exists>f'. catch_up (Suc n) l p f = Some (Some (l, f')) \<and> in_sync l p f' \<and>
    commitIndex l \<le> commitIndex f'"
proof -
  obtain k where k: "nextIndex l ! nat p = int (Suc k)" using next_index_Suc [OF r] by blast
  then have "k < length (entries (log l))" using r by (simp add: ready_def)
  then have "prev_consistent f (request_at l k)" using in_sync_consistent [OF r s] by blast
  then obtain l' f' where e: "exchange l p f = Some (l', f', commitIndex l < commitIndex l')"
    "in_sync l' p f'" "commitIndex l \<le> commitIndex f'"
    "matchIndex l ! nat p = LastIndex (log l) \<longrightarrow> advanceCommitIndex l = Some l'"
    using exchange_accept [OF r k] by blast
  then have "l' = l" using s ad by (simp add: in_sync_def)
  then show ?thesis using e by simp
qed

lemma catch_up_total:
  "ready l p f \<Longrightarrow> nextIndex l ! nat p = int (Suc k) \<Longrightarrow> Suc (Suc k) \<le> fuel \<Longrightarrow>
    \<exists>l' f'. catch_up fuel l p f = Some (Some (l', f')) \<and> log l' = log l \<and> in_sync l' p f' \<and>
      commitIndex l \<le> commitIndex l' \<and> commitIndex l' \<le> commitIndex f' \<and>
      advanceCommitIndex l' = Some l'"
proof (induction k arbitrary: l f fuel)
  case (Suc k)
  obtain n where n: "fuel = Suc n" "Suc (Suc k) \<le> n" using Suc.prems(3) by (cases fuel) auto
  show ?case
  proof (cases "prev_consistent f (request_at l (Suc k))")
    case False
    then obtain f' where f': "ready (l\<lparr>nextIndex := (nextIndex l)[nat p := int (Suc k)]\<rparr>) p f'"
      "exchange l p f = Some (l\<lparr>nextIndex := (nextIndex l)[nat p := int (Suc k)]\<rparr>, f', True)"
      using exchange_reject [OF Suc.prems(1,2)] by blast
    have "(nextIndex l)[nat p := int (Suc k)] ! nat p = int (Suc k)"
      using Suc.prems(1) by (simp add: ready_def nat_less_iff)
    then show ?thesis using Suc.IH [OF f'(1) _ n(2)] f'(2) n(1) by simp
  next
    case True
    then obtain l' f' where e: "exchange l p f = Some (l', f', commitIndex l < commitIndex l')"
      "ready l' p f'" "in_sync l' p f'" "log l' = log l" "commitIndex l \<le> commitIndex l'"
      "commitIndex l \<le> commitIndex f'" "advanceCommitIndex l' = Some l'"
      using exchange_accept [OF Suc.prems(1,2)] by blast
    obtain m where "n = Suc m" using n(2) by (cases n) auto
    then show ?thesis
      using e n(1) catch_up_synced [OF e(2,3,7), of m] by (cases "commitIndex l < commitIndex l'") auto
  qed
next
  case 0
  obtain n where n: "fuel = Suc (Suc n)" using 0(3) by (metis Suc_le_D Suc_le_mono)
  have "prev_consistent f (request_at l 0)" by (simp add: prev_consistent_def request_at_def)
  then obtain l' f' where e: "exchange l p f = Some (l', f', commitIndex l < commitIndex l')"
    "ready l' p f'" "in_sync l' p f'" "log l' = log l" "commitIndex l \<le> commitIndex l'"
    "commitIndex l \<le> commitIndex f'" "advanceCommitIndex l' = Some l'"
    using exchange_accept [OF 0(1,2)] by blast
  then show ?case
    using n catch_up_synced [OF e(2,3,7), of n] by (cases "commitIndex l < commitIndex l'") auto
qed

text \<open>A peer of a higher term ends the loop at once: the leader learns the term and steps down.\<close>

lemma catch_up_deposed:
  assumes "rstate l = Leader" and "currentTerm l < currentTerm f" and "0 \<le> p" and "p < int (length (nextIndex l))"
  shows "catch_up (Suc n) l p f = Some (Some (becomeFollower (currentTerm f) l, f))"
  using assms by (simp add: exchange_def send_prepare_def AppendEntries_stale ae_reply_def send_reply_def Let_def)

text \<open>The loop keeps the office, too.\<close>

lemma catch_up_frame:
  "catch_up fuel l p f = Some (Some (l', f')) \<Longrightarrow> rstate l = Leader \<Longrightarrow> tracks_peers l \<Longrightarrow>
     currentTerm f \<le> currentTerm l \<Longrightarrow> keeps_office l p f l' f'"
proof (induction fuel arbitrary: l f)
  case (Suc fuel)
  obtain l1 f1 again where e: "exchange l p f = Some (l1, f1, again)"
    using Suc.prems(1) by (cases "exchange l p f") auto
  have k: "keeps_office l p f l1 f1" using exchange_frame [OF e Suc.prems(2-4)] .
  show ?case
  proof (cases again)
    case False
    then show ?thesis using Suc.prems(1) e k by simp
  next
    case True
    then have "catch_up fuel l1 p f1 = Some (Some (l', f'))" using Suc.prems(1) e by simp
    then have "keeps_office l1 p f1 l' f'" using Suc.IH k Suc.prems(4) by (simp add: keeps_office_def)
    then show ?thesis using k Suc.prems(4) by (simp add: keeps_office_def)
  qed
qed simp

end
