(* ===== verification/RaftExecutions.thy ===== *)
theory RaftExecutions
  imports RaftCluster
begin

text \<open>
  Concrete executions of a three-node cluster, on which the properties of the cluster are evaluated:
  node 0 wins term 1, replicates its no-op entry to node 1, commits and applies it; then node 1
  times out and wins term 2 with the vote of node 2.
\<close>

definition three :: ClusterConfig where
  "three = \<lparr>Nodes =
     [\<lparr>ID = 0, ClientAddr = ''localhost:8000'', PeerAddr = ''localhost:9000''\<rparr>,
      \<lparr>ID = 1, ClientAddr = ''localhost:8001'', PeerAddr = ''localhost:9001''\<rparr>,
      \<lparr>ID = 2, ClientAddr = ''localhost:8002'', PeerAddr = ''localhost:9002''\<rparr>]\<rparr>"

definition boot_of :: "ClusterConfig \<Rightarrow> cluster" where
  "boot_of cfg =
     \<lparr>nodes = (\<lambda>i. the (New (\<lambda>_. True) i cfg (\<lambda>_. 7))), voteReqs = {}, voteReps = {},
      voteGos = {}, votes = (\<lambda>_ _. 0), appReqs = {}, appReps = {}\<rparr>"

lemma connect_loop_total: "connect_loop (\<lambda>_. True) ps rf \<noteq> None"
  by (induction ps arbitrary: rf) auto

lemma New_total: "New (\<lambda>_. True) i cfg rand \<noteq> None"
  using connect_loop_total [of "Peers cfg i" "NewPaused i cfg rand"] by (auto simp: New_def)

lemma boot_of_initial: "initial cfg (boot_of cfg)"
proof -
  have "New (\<lambda>_. True) i cfg (\<lambda>_. 7) = Some (nodes (boot_of cfg) i)" for i
    using New_total [of i cfg "\<lambda>_. 7"] by (auto simp: boot_of_def)
  then show ?thesis unfolding initial_def by (auto simp: boot_of_def)
qed

definition first_ballot :: RequestVoteArgs where
  "first_ballot = \<lparr>rv_Term = 1, rv_CandidateId = 0, rv_LastLogIndex = 0, rv_LastLogTerm = 0\<rparr>"

definition first_noop :: LogEntry where
  "first_noop = \<lparr>le_Index = 1, le_Term = 1, le_Command = ''noop''\<rparr>"

definition first_append :: AppendEntriesArgs where
  "first_append = \<lparr>ae_Term = 1, ae_LeaderId = 0, ae_PrevLogIndex = 0, ae_PrevLogTerm = 0,
     ae_Entries = [first_noop], ae_LeaderCommit = 0\<rparr>"

definition accepted :: AppendEntriesReply where
  "accepted = \<lparr>ar_Term = 1, ar_Success = True, ar_ConflictIndex = 0, ar_ConflictTerm = 0\<rparr>"

definition win_first :: "event list" where
  "win_first = [ElectionTimeout 0, DeliverVote 1 first_ballot,
     ReceiveVote 0 1 1 \<lparr>vr_Term = 1, vr_VoteGranted = True\<rparr>]"

definition commit_first :: "event list" where
  "commit_first = [Replicate 0 1, DeliverAppend 1 first_append,
     ReceiveAppend 0 1 first_append accepted, ApplyEntry 0]"

definition second_ballot :: RequestVoteArgs where
  "second_ballot = \<lparr>rv_Term = 2, rv_CandidateId = 1, rv_LastLogIndex = 1, rv_LastLogTerm = 1\<rparr>"

definition win_second :: "event list" where
  "win_second = [ElectionTimeout 1, DeliverVote 2 second_ballot,
     ReceiveVote 1 2 2 \<lparr>vr_Term = 2, vr_VoteGranted = True\<rparr>, Submit 1 ''x:1'']"

text \<open>The clusters these runs reach.\<close>

definition elected :: cluster where
  "elected = the (run three (boot_of three) win_first)"

definition applied :: cluster where
  "applied = the (run three elected commit_first)"

definition reelected :: cluster where
  "reelected = the (run three applied win_second)"

lemma three_positional: "positional three"
  by code_simp

lemma run_elected: "run three (boot_of three) win_first = Some elected"
proof -
  have "run three (boot_of three) win_first \<noteq> None" by code_simp
  then show ?thesis by (simp add: elected_def)
qed

lemma run_applied: "run three elected commit_first = Some applied"
proof -
  have "run three elected commit_first \<noteq> None" by code_simp
  then show ?thesis by (simp add: applied_def)
qed

lemma run_reelected: "run three applied win_second = Some reelected"
proof -
  have "run three applied win_second \<noteq> None" by code_simp
  then show ?thesis by (simp add: reelected_def)
qed

lemma reachable_elected: "reachable three elected"
  using run_reachable [OF reachable.boot [OF boot_of_initial] run_elected] .

lemma reachable_applied: "reachable three applied"
  using run_reachable [OF reachable_elected run_applied] .

lemma reachable_reelected: "reachable three reelected"
  using run_reachable [OF reachable_applied run_reelected] .

end
