(* ===== verification/RaftTheorems.thy ===== *)
theory RaftTheorems
  imports RaftCommit RaftLiveness RaftExecutions
begin

text \<open>
  The properties of the Raft cluster: what holds in every state reachable through any interleaving
  of timeouts, deliveries (lost, repeated, reordered), client commands, applications and kills.
  Each is a few steps over the simulation relation and the invariant of the abstract protocol.
\<close>

section \<open>Committed prefixes\<close>

lemma sim_parts:
  assumes "sim cfg c s" and "i \<in> node_ids cfg"
  shows "node_ok cfg s i (nodes c i)" and "entries (log (nodes c i)) = lg s i"
    and "currentTerm (nodes c i) = trm s i" and "chained s (lg s i)"
    and "commit_ok cfg s (trm s i) (commitIndex (nodes c i)) (lg s i)"
    and "0 \<le> lastApplied (nodes c i)" and "lastApplied (nodes c i) \<le> commitIndex (nodes c i)"
    and "commitCh (nodes c i) = map to_msg (drop 1 (take (Suc (nat (lastApplied (nodes c i)))) (lg s i)))"
    and "commitIndex (nodes c i) < int (length (lg s i))"
proof -
  show ok: "node_ok cfg s i (nodes c i)" using sim_node [OF assms] .
  show "chained s (lg s i)"
    using node_invD(1) sim_inv [OF assms(1)] by (simp add: protocol_inv_def)
  show ent: "entries (log (nodes c i)) = lg s i" and "currentTerm (nodes c i) = trm s i"
    and "commit_ok cfg s (trm s i) (commitIndex (nodes c i)) (lg s i)"
    using ok by (auto simp: node_ok_def)
  have "protocol_reachable (is_majority cfg) s" using assms(1) by (simp add: sim_def)
  then show "commitIndex (nodes c i) < int (length (lg s i))" using applied_in_log(2) [OF ok] by simp
  have sh: "shape_ok cfg i (nodes c i)" using ok by (simp add: node_ok_def)
  show "0 \<le> lastApplied (nodes c i)" "lastApplied (nodes c i) \<le> commitIndex (nodes c i)"
    "commitCh (nodes c i) = map to_msg (drop 1 (take (Suc (nat (lastApplied (nodes c i)))) (lg s i)))"
    using sh unfolding shape_ok_def ent by blast+
qed

lemma take_one_chained:
  assumes "chained s L" and "chained s' L'"
  shows "take (Suc 0) L = take (Suc 0) L'"
  using chained_zero [OF assms(1)] chained_zero [OF assms(2)] chained_nonempty [OF assms(1)]
    chained_nonempty [OF assms(2)] by (simp add: take_Suc hd_conv_nth)

lemma commit_ok_agree:
  assumes inv: "protocol_inv (is_majority cfg) s"
    and "commit_ok cfg s b n L" and "commit_ok cfg s b' n' L'" and "chained s L" and "chained s L'"
    and "k \<le> nat n" and "k \<le> nat n'"
  shows "take (Suc k) L = take (Suc k) L'"
proof (cases "k = 0")
  case True
  then show ?thesis using take_one_chained [OF assms(4,5)] by simp
next
  case False
  then have "0 < n" "0 < n'" using assms(6,7) by auto
  then show ?thesis
    using majority.committed_agree [OF inv] assms(2,3,6,7) unfolding commit_ok_def by blast
qed

lemma commit_ok_leader:
  assumes inv: "protocol_inv (is_majority cfg) s" and co: "commit_ok cfg s b n L"
    and ch: "chained s L" and "b \<le> u" and "elect s u \<noteq> None" and k: "k \<le> nat n"
  shows "take (Suc k) (tlog s u) = take (Suc k) L"
proof (cases "0 < n")
  case False
  have "elect_inv (is_majority cfg) s" using inv by (simp add: protocol_inv_def)
  then have "chained s (tlog s u)" using elect_invD(4) assms(5) by fastforce
  then show ?thesis using take_one_chained [OF _ ch] False k by simp
next
  case True
  then obtain t m where t: "t \<le> b" "chosen (is_majority cfg) s t m" "nat n \<le> m"
    "take (Suc (nat n)) L = take (Suc (nat n)) (tlog s t)"
    using co unfolding commit_ok_def committed_def by blast
  have "holds s t m (tlog s u)"
    using majority.chosen_in_later_log [OF inv t(2)] t(1) assms(4,5) by simp
  then have "take (Suc k) (tlog s u) = take (Suc k) (tlog s t)" using holds_take k t(3) by fastforce
  moreover have "take (Suc k) L = take (Suc k) (tlog s t)" using take_eq_mono [OF t(4)] k by simp
  ultimately show ?thesis by simp
qed

text \<open>Committed prefixes of two nodes, the second at the same or a later time, agree.\<close>

lemma agree_later:
  assumes sim: "sim cfg c s" and adv: "advances cfg c s c' s'"
    and i: "i \<in> node_ids cfg" and j: "j \<in> node_ids cfg"
    and k: "k \<le> nat (commitIndex (nodes c i))" "k \<le> nat (commitIndex (nodes c' j))"
  shows "take (Suc k) (lg s i) = take (Suc k) (lg s' j)"
proof -
  have s': "sim cfg c' s'" and g: "grows s s'" using adv by (auto simp: advances_def)
  note I = sim_parts [OF sim i] and J = sim_parts [OF s' j]
  have "commit_ok cfg s' (trm s i) (commitIndex (nodes c i)) (lg s i)"
    using commit_ok_grows [OF g I(5)] by simp
  then show ?thesis
    using commit_ok_agree [OF sim_inv [OF s'] _ J(5) chained_grows [OF g I(4)] J(4)] k by blast
qed

lemma delivered_comparable:
  assumes s: "sim cfg c s" "advances cfg c s c' s'"
    and i: "i \<in> node_ids cfg" and j: "j \<in> node_ids cfg"
  shows "prefix (commitCh (nodes c i)) (commitCh (nodes c' j)) \<or>
         prefix (commitCh (nodes c' j)) (commitCh (nodes c i))"
proof -
  have s': "sim cfg c' s'" using s(2) by (simp add: advances_def)
  note I = sim_parts [OF s(1) i] and J = sim_parts [OF s' j]
  have part: "prefix (map to_msg (drop 1 (take (Suc a) L))) (map to_msg (drop 1 (take (Suc b) L')))"
    if "a \<le> b" "take (Suc a) L = take (Suc a) L'" for a b and L L' :: elog
  proof -
    have "prefix (take (Suc a) L') (take (Suc b) L')"
      using that(1) by (metis Suc_le_mono min.absorb1 take_is_prefix take_take)
    then show ?thesis
      unfolding that(2) by (auto simp: prefix_def drop_append)
  qed
  let ?a = "nat (lastApplied (nodes c i))" and ?b = "nat (lastApplied (nodes c' j))"
  have "?a \<le> nat (commitIndex (nodes c i))" "?b \<le> nat (commitIndex (nodes c' j))"
    using I(7) J(7) by (simp_all add: nat_mono)
  then have "?a \<le> ?b \<longrightarrow> take (Suc ?a) (lg s i) = take (Suc ?a) (lg s' j)"
    and "?b \<le> ?a \<longrightarrow> take (Suc ?b) (lg s' j) = take (Suc ?b) (lg s i)"
    using agree_later [OF s i j] by (metis order.trans)+
  then show ?thesis unfolding I(8) J(8) using part by (metis nle_le)
qed

lemma later_leader_has:
  assumes s: "sim cfg c s" "advances cfg c s c' s'"
    and i: "i \<in> node_ids cfg" and j: "j \<in> node_ids cfg"
    and ld: "rstate (nodes c' j) = Leader" and t: "currentTerm (nodes c i) \<le> currentTerm (nodes c' j)"
  shows "take (Suc (nat (commitIndex (nodes c i)))) (entries (log (nodes c' j))) =
         take (Suc (nat (commitIndex (nodes c i)))) (entries (log (nodes c i)))"
proof -
  have s': "sim cfg c' s'" and g: "grows s s'" using s(2) by (auto simp: advances_def)
  note I = sim_parts [OF s(1) i] and J = sim_parts [OF s' j]
  have "protocol_reachable (is_majority cfg) s'" using s' by (simp add: sim_def)
  note L = leader_tlog [OF J(1) this ld]
  have "commit_ok cfg s' (trm s i) (commitIndex (nodes c i)) (lg s i)"
    using commit_ok_grows [OF g I(5)] by simp
  then have "take (Suc (nat (commitIndex (nodes c i)))) (tlog s' (currentTerm (nodes c' j))) =
      take (Suc (nat (commitIndex (nodes c i)))) (lg s i)"
    using commit_ok_leader [OF sim_inv [OF s'] _ chained_grows [OF g I(4)]] L(2) t I(3)
    by auto
  then show ?thesis unfolding I(2) J(2) L(1) .
qed

section \<open>Safety across time\<close>

text \<open>
  C1. State machine safety: whatever two nodes hand to their state machines, one at some time and
  the other at the same or any later time, one sequence is a prefix of the other, so no two nodes
  ever apply different commands at the same index.
\<close>

theorem state_machine_safety:
  assumes "positional cfg" and "reachable cfg c" and "later cfg c c'"
    and "i \<in> node_ids cfg" and "j \<in> node_ids cfg"
  shows "prefix (commitCh (nodes c i)) (commitCh (nodes c' j)) \<or>
         prefix (commitCh (nodes c' j)) (commitCh (nodes c i))"
proof -
  obtain s s' where "sim cfg c s" "advances cfg c s c' s'"
    using reachable_later [OF assms(1-3)] .
  then show ?thesis using delivered_comparable assms(4,5) by blast
qed

theorem state_machine_safety_witness:
  "commitCh (nodes applied 0) = [\<lparr>am_Index = 1, am_Term = 1, am_Command = ''noop''\<rparr>] \<and>
   (prefix (commitCh (nodes applied 0)) (commitCh (nodes reelected 1)) \<or>
    prefix (commitCh (nodes reelected 1)) (commitCh (nodes applied 0)))"
proof
  show "commitCh (nodes applied 0) = [\<lparr>am_Index = 1, am_Term = 1, am_Command = ''noop''\<rparr>]"
    by code_simp
  have "0 \<in> node_ids three" "1 \<in> node_ids three" by code_simp+
  then show "prefix (commitCh (nodes applied 0)) (commitCh (nodes reelected 1)) \<or>
    prefix (commitCh (nodes reelected 1)) (commitCh (nodes applied 0))"
    using state_machine_safety [OF three_positional reachable_applied run_later [OF run_reelected]]
    by blast
qed

text \<open>
  C2. Leader completeness: once a node considers a prefix of its log committed, every leader of the
  same or a later term, at that moment or at any later one, has exactly that prefix in its log.
\<close>

theorem committed_in_later_leaders:
  assumes "positional cfg" and "reachable cfg c" and "later cfg c c'"
    and "i \<in> node_ids cfg" and "j \<in> node_ids cfg"
    and "rstate (nodes c' j) = Leader" and "currentTerm (nodes c i) \<le> currentTerm (nodes c' j)"
  shows "take (Suc (nat (commitIndex (nodes c i)))) (entries (log (nodes c' j))) =
         take (Suc (nat (commitIndex (nodes c i)))) (entries (log (nodes c i)))"
proof -
  obtain s s' where "sim cfg c s" "advances cfg c s c' s'"
    using reachable_later [OF assms(1-3)] .
  then show ?thesis using later_leader_has assms(4-7) by blast
qed

theorem committed_in_later_leaders_witness:
  "commitIndex (nodes applied 0) = 1 \<and> rstate (nodes reelected 1) = Leader \<and>
   take 2 (entries (log (nodes reelected 1))) = take 2 (entries (log (nodes applied 0)))"
proof -
  have h: "commitIndex (nodes applied 0) = 1" "rstate (nodes reelected 1) = Leader"
    "currentTerm (nodes applied 0) \<le> currentTerm (nodes reelected 1)"
    "0 \<in> node_ids three" "1 \<in> node_ids three" by code_simp+
  then show ?thesis
    using committed_in_later_leaders [OF three_positional reachable_applied run_later [OF run_reelected], of 0 1]
    by (simp add: numeral_2_eq_2)
qed

text \<open>
  C3. Durability: the committed prefix of a node's log is never changed or lost by that node, whatever
  leaders come and go; its commit index, its applied index and its term never go back, and the
  commands it delivered stay delivered.
\<close>

theorem committed_prefix_durable:
  assumes "positional cfg" and "reachable cfg c" and "later cfg c c'" and "i \<in> node_ids cfg"
  shows "take (Suc (nat (commitIndex (nodes c i)))) (entries (log (nodes c' i))) =
           take (Suc (nat (commitIndex (nodes c i)))) (entries (log (nodes c i))) \<and>
         currentTerm (nodes c i) \<le> currentTerm (nodes c' i) \<and>
         commitIndex (nodes c i) \<le> commitIndex (nodes c' i) \<and>
         lastApplied (nodes c i) \<le> lastApplied (nodes c' i) \<and>
         prefix (commitCh (nodes c i)) (commitCh (nodes c' i))"
proof -
  obtain s s' where s: "sim cfg c s" "advances cfg c s c' s'"
    using reachable_later [OF assms(1-3)] .
  have s': "sim cfg c' s'" and g: "grows s s'" and n: "node_grows (nodes c i) (nodes c' i)"
    using s(2) by (auto simp: advances_def)
  note I = sim_parts [OF s(1) assms(4)] and J = sim_parts [OF s' assms(4)]
  have "nat (commitIndex (nodes c i)) \<le> nat (commitIndex (nodes c' i))"
    using n by (simp add: node_grows_def nat_mono)
  then have "take (Suc (nat (commitIndex (nodes c i)))) (lg s' i) =
      take (Suc (nat (commitIndex (nodes c i)))) (lg s i)"
    using agree_later [OF s assms(4,4) order_refl] by simp
  then show ?thesis using n growsD(1) [OF g, of i] unfolding node_grows_def I(2,3) J(2,3) by simp
qed

theorem committed_prefix_durable_witness:
  "commitIndex (nodes applied 1) = 0 \<and> commitIndex (nodes applied 0) = 1 \<and>
   take 2 (entries (log (nodes reelected 0))) = take 2 (entries (log (nodes applied 0)))"
proof -
  have h: "commitIndex (nodes applied 1) = 0" "commitIndex (nodes applied 0) = 1" "0 \<in> node_ids three"
    by code_simp+
  then show ?thesis
    using committed_prefix_durable
      [OF three_positional reachable_applied run_later [OF run_reelected], of 0]
    by (simp add: numeral_2_eq_2)
qed

text \<open>
  C4. Quorum durability: the prefix a node considers committed is stored, at that very moment, in the
  logs of a majority of the configured nodes.
\<close>

theorem committed_on_majority:
  assumes "positional cfg" and "reachable cfg c" and "i \<in> node_ids cfg"
    and "0 < commitIndex (nodes c i)"
  shows "\<exists>Q. is_majority cfg Q \<and>
    (\<forall>p \<in> Q. take (Suc (nat (commitIndex (nodes c i)))) (entries (log (nodes c p))) =
              take (Suc (nat (commitIndex (nodes c i)))) (entries (log (nodes c i))))"
proof -
  obtain s where s: "sim cfg c s" using reachable_sim [OF assms(1,2)] by blast
  note I = sim_parts [OF s assms(3)]
  have inv: "protocol_inv (is_majority cfg) s" using sim_inv [OF s] .
  then have ai: "acks_inv s" by (simp add: protocol_inv_def)
  obtain t m where t: "chosen (is_majority cfg) s t m" "nat (commitIndex (nodes c i)) \<le> m"
    "take (Suc (nat (commitIndex (nodes c i)))) (lg s i) =
     take (Suc (nat (commitIndex (nodes c i)))) (tlog s t)"
    using I(5) assms(4) unfolding commit_ok_def committed_def by blast
  obtain Q where Q: "is_majority cfg Q" "\<forall>p\<in>Q. (p, t, m) \<in> acks s" using chosenD(4) [OF t(1)] by blast
  have "take (Suc (nat (commitIndex (nodes c i)))) (lg s p) =
      take (Suc (nat (commitIndex (nodes c i)))) (lg s i)" if "p \<in> Q" for p
  proof -
    have "\<not> refuted s t m (trm s p)"
      using majority.leader_completeness [OF inv t(1)] unfolding refuted_def by blast
    then have "holds s t m (lg s p)" using ai Q(2) that unfolding acks_inv_def by blast
    then show ?thesis using holds_take t(2,3) by fastforce
  qed
  moreover have "entries (log (nodes c p)) = lg s p" if "p \<in> Q" for p
    using sim_parts(2) [OF s] that Q(1) unfolding is_majority_def by blast
  ultimately show ?thesis using Q(1) I(2) by metis
qed

theorem committed_on_majority_witness:
  "\<exists>Q. is_majority three Q \<and>
     (\<forall>p \<in> Q. take 2 (entries (log (nodes applied p))) = [zeroEntry, first_noop])"
proof -
  have h: "commitIndex (nodes applied 0) = 1" "0 \<in> node_ids three"
    "take (Suc (nat 1)) (entries (log (nodes applied 0))) = [zeroEntry, first_noop]" by code_simp+
  then show ?thesis
    using committed_on_majority [OF three_positional reachable_applied, of 0]
    by (simp add: numeral_2_eq_2)
qed

section \<open>Elections and logs\<close>

text \<open>
  C5. Election safety: two nodes never lead in the same term; not even at different times, so a term
  has at most one leader for ever.
\<close>

theorem election_safety:
  assumes "positional cfg" and "reachable cfg c" and "later cfg c c'"
    and "i \<in> node_ids cfg" and "j \<in> node_ids cfg" and "i \<noteq> j"
    and "rstate (nodes c i) = Leader" and "currentTerm (nodes c' j) = currentTerm (nodes c i)"
  shows "rstate (nodes c' j) \<noteq> Leader"
proof
  assume "rstate (nodes c' j) = Leader"
  obtain s s' where s: "sim cfg c s" "advances cfg c s c' s'"
    using reachable_later [OF assms(1-3)] .
  have s': "sim cfg c' s'" and g: "grows s s'" using s(2) by (auto simp: advances_def)
  have pr: "protocol_reachable (is_majority cfg) s" "protocol_reachable (is_majority cfg) s'"
    using s(1) s' by (auto simp: sim_def)
  obtain V el where "elect s (currentTerm (nodes c i)) = Some (i, V, el)"
    using leader_tlog(2) [OF sim_node [OF s(1) assms(4)] pr(1) assms(7)] by blast
  then have "elect s' (currentTerm (nodes c i)) = Some (i, V, el)" using growsD(3) [OF g] by blast
  moreover obtain W el' where "elect s' (currentTerm (nodes c' j)) = Some (j, W, el')"
    using leader_tlog(2) [OF sim_node [OF s' assms(5)] pr(2) \<open>rstate (nodes c' j) = Leader\<close>] by blast
  ultimately show False using assms(6,8) by simp
qed

theorem election_safety_witness:
  "rstate (nodes elected 0) = Leader \<and> currentTerm (nodes applied 1) = currentTerm (nodes elected 0) \<and>
   rstate (nodes applied 1) \<noteq> Leader"
proof -
  have h: "rstate (nodes elected 0) = Leader" "currentTerm (nodes applied 1) = currentTerm (nodes elected 0)"
    "0 \<in> node_ids three" "1 \<in> node_ids three" by code_simp+
  then show ?thesis
    using election_safety [OF three_positional reachable_elected run_later [OF run_applied], of 0 1] by simp
qed

text \<open>
  C6. Log matching: if the logs of two nodes have entries of the same term at the same index, the
  logs are identical up to that index, commands included.
\<close>

theorem log_matching:
  assumes "positional cfg" and "reachable cfg c"
    and "i \<in> node_ids cfg" and "j \<in> node_ids cfg"
    and "k < length (entries (log (nodes c i)))" and "k < length (entries (log (nodes c j)))"
    and "le_Term (entries (log (nodes c i)) ! k) = le_Term (entries (log (nodes c j)) ! k)"
  shows "take (Suc k) (entries (log (nodes c i))) = take (Suc k) (entries (log (nodes c j)))"
proof -
  obtain s where s: "sim cfg c s" using reachable_sim [OF assms(1,2)] by blast
  note I = sim_parts [OF s assms(3)] and J = sim_parts [OF s assms(4)]
  show ?thesis using chained_match [OF I(4) J(4)] assms(5-7) unfolding I(2) J(2) by blast
qed

theorem log_matching_witness:
  "le_Term (entries (log (nodes reelected 0)) ! 1) = le_Term (entries (log (nodes reelected 1)) ! 1) \<and>
   take 2 (entries (log (nodes reelected 0))) = take 2 (entries (log (nodes reelected 1)))"
proof -
  have h: "le_Term (entries (log (nodes reelected 0)) ! 1) = le_Term (entries (log (nodes reelected 1)) ! 1)"
    "1 < length (entries (log (nodes reelected 0)))" "1 < length (entries (log (nodes reelected 1)))"
    "0 \<in> node_ids three" "1 \<in> node_ids three" by code_simp+
  then show ?thesis
    using log_matching [OF three_positional reachable_reelected, of 0 1 1] by (simp add: numeral_2_eq_2)
qed

text \<open>
  C7. Leader append-only: while a node leads in one term, its log only gets longer.
\<close>

theorem leader_append_only:
  assumes "positional cfg" and "reachable cfg c" and "later cfg c c'" and "i \<in> node_ids cfg"
    and "rstate (nodes c i) = Leader" and "rstate (nodes c' i) = Leader"
    and "currentTerm (nodes c' i) = currentTerm (nodes c i)"
  shows "prefix (entries (log (nodes c i))) (entries (log (nodes c' i)))"
proof -
  obtain s s' where s: "sim cfg c s" "advances cfg c s c' s'"
    using reachable_later [OF assms(1-3)] .
  have s': "sim cfg c' s'" and g: "grows s s'" using s(2) by (auto simp: advances_def)
  have pr: "protocol_reachable (is_majority cfg) s" "protocol_reachable (is_majority cfg) s'"
    using s(1) s' by (auto simp: sim_def)
  note I = sim_parts [OF s(1) assms(4)] and J = sim_parts [OF s' assms(4)]
  note LI = leader_tlog [OF I(1) pr(1) assms(5)] and LJ = leader_tlog [OF J(1) pr(2) assms(6)]
  have "elect s (currentTerm (nodes c i)) \<noteq> None" using LI(2) by auto
  then obtain r where "tlog s' (currentTerm (nodes c i)) = tlog s (currentTerm (nodes c i)) @ r"
    using growsD(4) [OF g] by blast
  then show ?thesis using LI(1) LJ(1) unfolding I(2) J(2) assms(7) by (simp add: prefix_def)
qed

theorem leader_append_only_witness:
  "prefix (entries (log (nodes elected 0))) (entries (log (nodes applied 0)))"
proof -
  have h: "rstate (nodes elected 0) = Leader" "rstate (nodes applied 0) = Leader"
    "currentTerm (nodes applied 0) = currentTerm (nodes elected 0)" "0 \<in> node_ids three" by code_simp+
  then show ?thesis
    using leader_append_only [OF three_positional reachable_elected run_later [OF run_applied], of 0] by simp
qed

text \<open>
  One vote per term: all the granted replies a node ever sends for a term name one candidate, no
  matter how requests are repeated or reordered.
\<close>

theorem one_vote_per_term:
  assumes "positional cfg" and "reachable cfg c"
    and "(a, p, t, r) \<in> voteReps c" and "vr_VoteGranted r"
    and "(b, p, t, r') \<in> voteReps c" and "vr_VoteGranted r'"
  shows "a = b"
proof -
  obtain s where "sim cfg c s" using reachable_sim [OF assms(1,2)] by blast
  then have "vrep_ok s (a, p, t, r)" "vrep_ok s (b, p, t, r')"
    using assms(3,5) by (auto simp: sim_def msgs_ok_def)
  then show ?thesis using assms(4,6) by (auto simp: vrep_ok_def)
qed

theorem one_vote_per_term_witness:
  "(1, 2, 2, \<lparr>vr_Term = 2, vr_VoteGranted = True\<rparr>) \<in> voteReps reelected \<and> (1::int32) = 1"
proof -
  have h: "(1, 2, 2, \<lparr>vr_Term = 2, vr_VoteGranted = True\<rparr>) \<in> voteReps reelected" by code_simp
  then show ?thesis using one_vote_per_term [OF three_positional reachable_reelected h _ h] by simp
qed

text \<open>
  C8. The node invariant: the log is well formed (sentinel, consecutive indices), the applied index
  never passes the commit index, the commit index never passes the end of the log, and the messages
  delivered to the state machine are exactly the entries 1 to \<open>lastApplied\<close>, in order, once each.
\<close>

theorem node_invariant:
  assumes "positional cfg" and "reachable cfg c" and "i \<in> node_ids cfg"
  shows "wf_log (log (nodes c i)) \<and> 0 \<le> lastApplied (nodes c i) \<and>
         lastApplied (nodes c i) \<le> commitIndex (nodes c i) \<and>
         commitIndex (nodes c i) \<le> LastIndex (log (nodes c i)) \<and>
         commitCh (nodes c i) =
           map to_msg (Entries (log (nodes c i)) 1 (lastApplied (nodes c i) + 1))"
proof -
  obtain s where s: "sim cfg c s" using reachable_sim [OF assms(1,2)] by blast
  note I = sim_parts [OF s assms(3)]
  have "wf_log (log (nodes c i))" using I(1) by (simp add: node_ok_def shape_ok_def)
  moreover have "Entries (log (nodes c i)) 1 (lastApplied (nodes c i) + 1) =
      drop 1 (take (Suc (nat (lastApplied (nodes c i)))) (lg s i))"
    using Entries_upto [OF I(6), of "log (nodes c i)"] I(7,9) unfolding I(2) by simp
  ultimately show ?thesis using I by (simp add: LastIndex_def)
qed

theorem node_invariant_witness:
  "lastApplied (nodes applied 0) = 1 \<and>
   commitCh (nodes applied 0) = map to_msg (Entries (log (nodes applied 0)) 1 2)"
proof -
  have h: "lastApplied (nodes applied 0) = 1" "0 \<in> node_ids three" by code_simp+
  then show ?thesis using node_invariant [OF three_positional reachable_applied, of 0] by simp
qed

text \<open>
  C9. No handler panics: in a reachable cluster every event that can happen runs to its end. In
  particular the index check of \<open>Log.Append\<close>, which panics, and the slice accesses by node id never
  fail, also for stale, repeated or reordered messages.
\<close>

theorem no_handler_panics:
  assumes "positional cfg" and "reachable cfg c" and "enabled cfg c ev"
  shows "fire c ev \<noteq> None"
proof -
  obtain s where s: "sim cfg c s" using reachable_sim [OF assms(1,2)] by blast
  show ?thesis using sim_fire [OF assms(1) s assms(3)] by auto
qed

theorem no_handler_panics_witness:
  "fire elected (Replicate 0 2) \<noteq> None"
proof -
  have h: "enabled three elected (Replicate 0 2)" by code_simp
  then show ?thesis using no_handler_panics [OF three_positional reachable_elected] by blast
qed

text \<open>
  C10. The cluster refines the abstract protocol: whatever protocol state a cluster is related to, every
  event of the cluster executes, and a number of protocol steps (\<open>protocol_run\<close> is the reflexive and
  transitive closure of \<open>protocol_step\<close>) leads from that protocol state to one related to the new
  cluster, with the terms and logs of the nodes as its terms and logs.
\<close>

theorem cluster_refines_protocol:
  assumes "positional cfg" and "sim cfg c s" and "enabled cfg c ev"
  shows "\<exists>c' s'. fire c ev = Some c' \<and> sim cfg c' s' \<and> protocol_run (is_majority cfg) s s' \<and>
    protocol_reachable (is_majority cfg) s' \<and> grows s s' \<and>
    (\<forall>i \<in> node_ids cfg. trm s' i = currentTerm (nodes c' i) \<and>
                         lg s' i = entries (log (nodes c' i)))"
proof -
  obtain c' s' where c': "fire c ev = Some c'" "advances cfg c s c' s'"
    using sim_fire [OF assms] by blast
  then have "sim cfg c' s'" "protocol_run (is_majority cfg) s s'" "grows s s'" by (auto simp: advances_def)
  then show ?thesis using c'(1) sim_parts(2,3) [of cfg c' s'] by (auto simp: sim_def)
qed

theorem cluster_refines_protocol_witness:
  "sim three (boot_of three) proto_init \<and>
   (\<exists>c' s'. fire (boot_of three) (ElectionTimeout 2) = Some c' \<and> sim three c' s' \<and>
      protocol_run (is_majority three) proto_init s' \<and> trm s' 2 = currentTerm (nodes c' 2))"
proof -
  have h: "enabled three (boot_of three) (ElectionTimeout 2)" "2 \<in> node_ids three" by code_simp+
  show ?thesis
    using cluster_refines_protocol [OF three_positional sim_initial [OF boot_of_initial] h(1)]
      sim_initial [OF boot_of_initial] h(2) by blast
qed

section \<open>A cluster of one\<close>

lemma leader_stays:
  assumes "fire c ev = Some c'" and "\<And>i p t r. ev \<noteq> ReceiveVote i p t r"
    and "rstate (nodes c' i) = Leader"
  shows "rstate (nodes c i) = Leader"
  using assms
  by (cases ev)
    (auto simp: fire_timeout_def startElection_def set_node_def fire_deliver_vote_def RequestVote_def
      Let_def fire_replicate_def fire_deliver_append_def AppendEntries_def follow_commit_def
      bind_eq_Some_conv fire_receive_append_def send_reply_def fire_submit_def Start_def
      apply_one_def Kill_def
      split: if_splits option.splits prod.splits)

lemma lone_node:
  assumes "length (Nodes cfg) = 1" and "i \<in> node_ids cfg" and "j \<in> node_ids cfg"
  shows "i = j"
proof -
  obtain n where "Nodes cfg = [n]" using assms(1) by (auto simp: length_Suc_conv)
  then show ?thesis using assms(2,3) by (simp add: node_ids_def)
qed

text \<open>
  A cluster of one node never gets a leader: votes are counted only when a reply of a peer
  arrives, so the node stands in ever higher terms and no command is ever accepted, although its own
  vote is a majority.
\<close>

theorem single_node_never_leads:
  assumes "positional cfg" and "length (Nodes cfg) = 1" and "reachable cfg c" and "i \<in> node_ids cfg"
  shows "rstate (nodes c i) \<noteq> Leader \<and> is_majority cfg {i}"
proof
  show "is_majority cfg {i}" using assms(2,4) by (simp add: is_majority_def)
  show "rstate (nodes c i) \<noteq> Leader"
    using assms(3)
  proof (induction rule: reachable.induct)
    case (boot c)
    then obtain dial rand where "New dial i cfg rand = Some (nodes c i)"
      using assms(4) by (auto simp: initial_def)
    then show ?case using New_Some [of dial i cfg rand "nodes c i"] by (simp add: NewPaused_def)
  next
    case (next_state c c')
    obtain ev where ev: "enabled cfg c ev" "fire c ev = Some c'"
      using next_state.hyps(2) by (auto simp: cluster_step_iff)
    obtain s where "sim cfg c s" using reachable_sim [OF assms(1) next_state.hyps(1)] by blast
    then have gos: "\<forall>m \<in> voteGos c. go_ok cfg s m" by (simp add: sim_def msgs_ok_def)
    have "ev \<noteq> ReceiveVote a p t r" for a p t r
      using ev(1) gos lone_node [OF assms(2)] by (force simp: go_ok_def)
    then show ?case using leader_stays [OF ev(2)] next_state.IH by blast
  qed
qed

definition lone :: ClusterConfig where
  "lone = \<lparr>Nodes = [\<lparr>ID = 0, ClientAddr = ''localhost:8000'', PeerAddr = ''localhost:9000''\<rparr>]\<rparr>"

theorem single_node_never_leads_witness:
  "\<exists>c. run lone (boot_of lone) [ElectionTimeout 0, ElectionTimeout 0] = Some c \<and>
     rstate (nodes c 0) = Candidate \<and> currentTerm (nodes c 0) = 2 \<and> rstate (nodes c 0) \<noteq> Leader"
proof -
  let ?r = "run lone (boot_of lone) [ElectionTimeout 0, ElectionTimeout 0]"
  have h: "positional lone" "length (Nodes lone) = 1" "0 \<in> node_ids lone"
    "map_option (\<lambda>c. (rstate (nodes c 0), currentTerm (nodes c 0))) ?r = Some (Candidate, 2)"
    by code_simp+
  then obtain c where c: "?r = Some c" "rstate (nodes c 0) = Candidate" "currentTerm (nodes c 0) = 2"
    by auto
  have "reachable lone c" using run_reachable [OF reachable.boot [OF boot_of_initial] c(1)] .
  then show ?thesis using c single_node_never_leads [OF h(1,2) _ h(3)] by blast
qed

section \<open>Replication converges\<close>

lemma logs_match_chained: "chained s L \<Longrightarrow> chained s F \<Longrightarrow> logs_match L F"
  using chained_match unfolding logs_match_def by blast

lemma ready_sim:
  assumes pos: "positional cfg" and sim: "sim cfg c s" and i: "i \<in> node_ids cfg"
    and p: "p \<in> node_ids cfg" and ld: "rstate (nodes c i) = Leader"
    and t: "currentTerm (nodes c p) \<le> currentTerm (nodes c i)"
  shows "ready (nodes c i) p (nodes c p)"
proof -
  note I = sim_parts [OF sim i] and P = sim_parts [OF sim p]
  have sh: "shape_ok cfg i (nodes c i)" "shape_ok cfg p (nodes c p)"
    and lo: "leader_ok cfg s i (nodes c i)"
    using I(1) P(1) ld by (auto simp: node_ok_def)
  have pr: "protocol_reachable (is_majority cfg) s" using sim by (simp add: sim_def)
  then have ai: "acks_inv s" using protocol_reachable_inv by (auto simp: protocol_inv_def)
  let ?m = "matchIndex (nodes c i) ! nat p"
  have "?m < int (length (lg s i))"
  proof (cases "0 < ?m")
    case True
    then have "(p, currentTerm (nodes c i), nat ?m) \<in> acks s" using lo p by (auto simp: leader_ok_def)
    then have "nat ?m < length (lg s i)"
      using ai leader_tlog(1) [OF I(1) pr ld] unfolding acks_inv_def by metis
    then show ?thesis by linarith
  next
    case False
    have "lg s i \<noteq> []" using chained_nonempty [OF I(4)] .
    then show ?thesis using False by (metis length_greater_0_conv not_less of_nat_0_less_iff order.strict_trans1)
  qed
  then show ?thesis
    using sh ld lo p t I(2,9) P(2) tracks_peers_ok [OF pos sh(1)] node_ids_in_range [OF pos sh(1) p]
      logs_match_chained [OF I(4) P(4)]
    by (simp add: ready_def shape_ok_def leader_ok_def LastIndex_def)
qed

text \<open>
  C11. Replication converges: from any reachable state, the loop of \<open>sendAppendEntries\<close> of a leader for a
  peer that answers ends after at most one pass per log entry and two more, whatever the peer's log held.
  If the peer is in no higher term than the leader, the peer then has the leader's whole log, the leader
  counts it as fully matched, and the peer's commit index has caught up with the leader's. If the peer
  is in a higher term, the leader has stepped down to that term, and the peer is as it was.
\<close>

theorem replication_converges:
  assumes "positional cfg" and "reachable cfg c" and "i \<in> node_ids cfg" and "p \<in> node_ids cfg"
    and "rstate (nodes c i) = Leader" and "Suc (length (entries (log (nodes c i)))) \<le> fuel"
  shows "\<exists>l f. catch_up fuel (nodes c i) p (nodes c p) = Some (Some (l, f)) \<and>
    (if currentTerm (nodes c p) \<le> currentTerm (nodes c i)
     then log l = log (nodes c i) \<and>
       take (length (entries (log l))) (entries (log f)) = entries (log l) \<and>
       matchIndex l ! nat p = LastIndex (log l) \<and>
       commitIndex (nodes c i) \<le> commitIndex l \<and> commitIndex l \<le> commitIndex f
     else l = becomeFollower (currentTerm (nodes c p)) (nodes c i) \<and> f = nodes c p)"
proof (cases "currentTerm (nodes c p) \<le> currentTerm (nodes c i)")
  case False
  obtain s where s: "sim cfg c s" using reachable_sim [OF assms(1,2)] by blast
  then have "shape_ok cfg i (nodes c i)" using sim_parts(1) [OF s assms(3)] by (simp add: node_ok_def)
  note rng = node_ids_in_range [OF assms(1) this assms(4)]
  obtain n where "fuel = Suc n" using assms(6) by (cases fuel) auto
  then show ?thesis using catch_up_deposed [of "nodes c i" "nodes c p" p n] assms(5) rng False by simp
next
  case True
  obtain s where s: "sim cfg c s" using reachable_sim [OF assms(1,2)] by blast
  have r: "ready (nodes c i) p (nodes c p)" using ready_sim [OF assms(1) s assms(3-5) True] .
  obtain k where k: "nextIndex (nodes c i) ! nat p = int (Suc k)" using next_index_Suc [OF r] by blast
  then have "Suc k \<le> length (entries (log (nodes c i)))" using r by (simp add: ready_def)
  then show ?thesis using catch_up_total [OF r k, of fuel] assms(6) True unfolding in_sync_def by fastforce
qed

theorem replication_converges_witness:
  "length (entries (log (nodes reelected 2))) = 1 \<and> length (entries (log (nodes reelected 1))) = 4 \<and>
   (\<exists>l f. catch_up 5 (nodes reelected 1) 2 (nodes reelected 2) = Some (Some (l, f)) \<and>
     take (length (entries (log l))) (entries (log f)) = entries (log l))"
proof -
  have h: "1 \<in> node_ids three" "2 \<in> node_ids three" "rstate (nodes reelected 1) = Leader"
    "Suc (length (entries (log (nodes reelected 1)))) \<le> 5"
    "currentTerm (nodes reelected 2) \<le> currentTerm (nodes reelected 1)"
    "length (entries (log (nodes reelected 2))) = 1" "length (entries (log (nodes reelected 1))) = 4"
    by code_simp+
  then show ?thesis
    using replication_converges [OF three_positional reachable_reelected h(1-4)] by auto
qed

section \<open>The handlers on every branch\<close>

text \<open>
  C13. \<open>AppendEntries\<close> on every branch, for any well-formed log: a request of an old term changes
  nothing; otherwise the node is in the request's term afterwards (as a follower without a vote if
  that term is new, in its old role if not) and accepts exactly if its log agrees at the preceding
  entry; an accepted request replaces the log's tail from the first conflict on and moves the commit
  index to the leader's, capped at the end of the log; a refused one leaves log and commit index.
\<close>

theorem append_entries_behaviour:
  assumes "wf_log (log rf)" and "0 \<le> ae_PrevLogIndex req"
    and "consecutive (ae_PrevLogIndex req + 1) (ae_Entries req)"
  shows "case AppendEntries rf req of None \<Rightarrow> False | Some (rf', reply) \<Rightarrow>
    (let ok = (currentTerm rf \<le> ae_Term req \<and> prev_consistent rf req) in
     ar_Success reply = ok \<and> ar_Term reply = currentTerm rf' \<and>
     currentTerm rf' = max (currentTerm rf) (ae_Term req) \<and>
     rstate rf' = (if currentTerm rf < ae_Term req then Follower else rstate rf) \<and>
     votedFor rf' = (if currentTerm rf < ae_Term req then -1 else votedFor rf) \<and>
     wf_log (log rf') \<and>
     entries (log rf') =
       (if ok then merged (entries (log rf)) (Suc (nat (ae_PrevLogIndex req))) (ae_Entries req)
        else entries (log rf)) \<and>
     commitIndex rf' =
       (if ok \<and> commitIndex rf < ae_LeaderCommit req
        then min (ae_LeaderCommit req) (LastIndex (log rf')) else commitIndex rf))"
proof (cases "currentTerm rf \<le> ae_Term req")
  case False
  then show ?thesis using AppendEntries_stale [of req rf] assms(1) by (simp add: ae_reply_def Let_def)
next
  case t: True
  show ?thesis
  proof (cases "prev_consistent rf req")
    case False
    then show ?thesis
      using AppendEntries_inconsistent [OF t False] t assms(1) by (auto simp: ae_reply_def Let_def)
  next
    case True
    show ?thesis
      using AppendEntries_merges [OF t True assms] t True by (auto simp: ae_reply_def Let_def)
  qed
qed

theorem append_entries_behaviour_witness:
  "\<exists>rf' reply. AppendEntries (nodes applied 2) first_append = Some (rf', reply) \<and>
     ar_Success reply \<and> entries (log rf') = [zeroEntry, first_noop]"
proof -
  have h: "wf_log (log (nodes applied 2))"
    "consecutive (ae_PrevLogIndex first_append + 1) (ae_Entries first_append)"
    "0 \<le> ae_PrevLogIndex first_append"
    "currentTerm (nodes applied 2) \<le> ae_Term first_append \<and> prev_consistent (nodes applied 2) first_append"
    "merged (entries (log (nodes applied 2))) (Suc (nat (ae_PrevLogIndex first_append)))
       (ae_Entries first_append) = [zeroEntry, first_noop]"
    unfolding wf_log_def wf_entries_def consecutive_def by code_simp+
  then show ?thesis
    using append_entries_behaviour [OF h(1,3,2)] by (auto simp: Let_def split: option.splits)
qed

text \<open>
  \<open>RequestVote\<close> on every branch: a vote is granted exactly if the request is not of an old term,
  the node has not voted for someone else in that term, and the candidate's last entry is of a later
  term than the node's or of the same term at no smaller index; the log never changes, and only a
  granted vote is recorded.
\<close>

theorem request_vote_behaviour:
  "case RequestVote rf req of (rf', reply) \<Rightarrow>
     (let free = (currentTerm rf < rv_Term req \<or> votedFor rf = -1 \<or> votedFor rf = rv_CandidateId req);
          grant = (currentTerm rf \<le> rv_Term req \<and> free \<and>
             (LastTerm (log rf) < rv_LastLogTerm req \<or>
              LastTerm (log rf) = rv_LastLogTerm req \<and> LastIndex (log rf) \<le> rv_LastLogIndex req))
      in vr_VoteGranted reply = grant \<and> vr_Term reply = currentTerm rf' \<and>
         currentTerm rf' = max (currentTerm rf) (rv_Term req) \<and>
         log rf' = log rf \<and> commitIndex rf' = commitIndex rf \<and>
         rstate rf' = (if currentTerm rf < rv_Term req then Follower else rstate rf) \<and>
         votedFor rf' =
           (if grant then rv_CandidateId req
            else if currentTerm rf < rv_Term req then -1 else votedFor rf))"
  by (auto simp: RequestVote_def Let_def)

text \<open>
  C14. The commit scan of the leader commits the highest index it may: the new commit index is the
  old one or an index whose entry is of the current term and acknowledged by a majority, and no
  higher index qualifies; nothing else changes.
\<close>

theorem commit_scan_highest:
  assumes "tracks_peers rf"
  shows "\<exists>N. advanceCommitIndex rf = Some (rf\<lparr>commitIndex := N\<rparr>) \<and> commitIndex rf \<le> N \<and>
    (N = commitIndex rf \<or>
       snd (At (log rf) N) \<and> le_Term (fst (At (log rf) N)) = currentTerm rf \<and>
       quorum rf \<le> 1 + int (length (matching rf N))) \<and>
    (\<forall>k > N. snd (At (log rf) k) \<and> le_Term (fst (At (log rf) k)) = currentTerm rf \<longrightarrow>
       1 + int (length (matching rf k)) < quorum rf)"
proof -
  obtain N where N: "advanceCommitIndex rf = Some (rf\<lparr>commitIndex := N\<rparr>)"
    "N = commitIndex rf \<or> can_commit rf N" "\<forall>k > N. \<not> can_commit rf k"
    using advanceCommitIndex_result [OF assms] by blast
  have le: "commitIndex rf \<le> N" using N(2) by (auto simp: can_commit_def)
  have "1 + int (length (matching rf k)) < quorum rf"
    if "N < k" "snd (At (log rf) k)" "le_Term (fst (At (log rf) k)) = currentTerm rf" for k
    using N(3) that le by (auto simp: can_commit_def At_def not_le split: if_splits)
  then show ?thesis
    using N(1,2) le by (intro exI [of _ N]) (auto simp: can_commit_def At_def)
qed

theorem commit_scan_highest_witness:
  "tracks_peers (nodes elected 0) \<and>
   (\<exists>N. advanceCommitIndex ((nodes elected 0)\<lparr>matchIndex := [0, 1, 0]\<rparr>) =
          Some ((nodes elected 0)\<lparr>matchIndex := [0, 1, 0], commitIndex := N\<rparr>) \<and> 0 \<le> N)"
proof -
  have h: "tracks_peers (nodes elected 0)" "tracks_peers ((nodes elected 0)\<lparr>matchIndex := [0, 1, 0]\<rparr>)"
    "commitIndex (nodes elected 0) = 0"
    unfolding tracks_peers_def by code_simp+
  then show ?thesis using commit_scan_highest [OF h(2)] by auto
qed

end
