(* ===== verification/RaftProgress.thy ===== *)
theory RaftProgress
  imports RaftTheorems
begin

text \<open>
  Progress of the cluster: from every reachable state a majority of live nodes, whatever their roles,
  terms and logs, can by themselves elect a leader, accept a command, replicate, commit and deliver
  it. The run is built in stages (an election, the submission, two rounds of replication, the
  application), each a lemma on runs in which only nodes of that majority act.
\<close>

section \<open>Runs driven by a set of nodes\<close>

text \<open>The events in which only nodes of \<open>A\<close> act; none of them is killed.\<close>

fun acts_in :: "int32 set \<Rightarrow> event \<Rightarrow> bool" where
  "acts_in A (ElectionTimeout i) = (i \<in> A)"
| "acts_in A (DeliverVote p args) = (p \<in> A)"
| "acts_in A (ReceiveVote i p t reply) = (i \<in> A)"
| "acts_in A (Replicate i p) = (i \<in> A)"
| "acts_in A (DeliverAppend p args) = (p \<in> A)"
| "acts_in A (ReceiveAppend i p args reply) = (i \<in> A)"
| "acts_in A (Submit i cmd) = (i \<in> A)"
| "acts_in A (ApplyEntry i) = (i \<in> A)"
| "acts_in A (KillNode i) = False"

definition driven :: "ClusterConfig \<Rightarrow> int32 set \<Rightarrow> cluster \<Rightarrow> cluster \<Rightarrow> bool" where
  "driven cfg A c c' \<longleftrightarrow> (\<exists>evs. run cfg c evs = Some c' \<and> list_all (acts_in A) evs)"

lemma driven_refl: "driven cfg A c c"
  unfolding driven_def by (intro exI [of _ "[]"]) simp

lemma driven_trans: "driven cfg A c c1 \<Longrightarrow> driven cfg A c1 c2 \<Longrightarrow> driven cfg A c c2"
  unfolding driven_def
proof (elim exE conjE)
  fix a b
  assume "run cfg c a = Some c1" "list_all (acts_in A) a" "run cfg c1 b = Some c2" "list_all (acts_in A) b"
  then show "\<exists>evs. run cfg c evs = Some c2 \<and> list_all (acts_in A) evs"
    by (intro exI [of _ "a @ b"]) (auto simp: run_append)
qed

lemma driven_event:
  "enabled cfg c ev \<Longrightarrow> fire c ev = Some c' \<Longrightarrow> acts_in A ev \<Longrightarrow> driven cfg A c c'"
  unfolding driven_def by (intro exI [of _ "[ev]"]) simp

lemma driven_reachable: "reachable cfg c \<Longrightarrow> driven cfg A c c' \<Longrightarrow> reachable cfg c'"
  unfolding driven_def using run_reachable by blast

lemma reachable_shape:
  assumes "positional cfg" and "reachable cfg c" and "i \<in> node_ids cfg"
  shows "shape_ok cfg i (nodes c i)"
proof -
  obtain s where "sim cfg c s" using reachable_sim [OF assms(1,2)] by blast
  then show ?thesis using sim_parts(1) [OF _ assms(3)] by (auto simp: node_ok_def)
qed

lemma nodes_set_node [simp]: "nodes (set_node c i rf) = (nodes c)(i := rf)"
  by (simp add: set_node_def)

section \<open>The candidate\<close>

text \<open>The test of \<open>RequestVote\<close>: the log of the candidate is at least as recent as the voter's.\<close>

definition as_fresh :: "Log \<Rightarrow> Log \<Rightarrow> bool" where
  "as_fresh a b \<longleftrightarrow>
     LastTerm a > LastTerm b \<or> (LastTerm a = LastTerm b \<and> LastIndex a \<ge> LastIndex b)"

lemma freshest_exists:
  assumes "finite A" and "A \<noteq> {}"
  shows "\<exists>i \<in> A. \<forall>p \<in> A. as_fresh (l i) (l p)"
  using assms
proof (induction rule: finite_ne_induct)
  case (singleton x)
  then show ?case by (simp add: as_fresh_def)
next
  case (insert x F)
  then obtain i where i: "i \<in> F" "\<forall>p \<in> F. as_fresh (l i) (l p)" by blast
  show ?case
  proof (cases "as_fresh (l i) (l x)")
    case True
    then show ?thesis using i by blast
  next
    case False
    then have "\<forall>p \<in> insert x F. as_fresh (l x) (l p)" using i(2) by (auto simp: as_fresh_def)
    then show ?thesis by blast
  qed
qed

text \<open>A node that does not lead and is alive may time out again and again.\<close>

lemma timeout_node:
  assumes "rstate (nodes c i) \<noteq> Leader" and "\<not> dead (nodes c i)"
  shows "nodes (fire_timeout c i) = (nodes c)(i := resetElectionTimer
    ((nodes c i)\<lparr>currentTerm := currentTerm (nodes c i) + 1, rstate := Candidate,
                 votedFor := rid (nodes c i)\<rparr>))"
  using assms by (simp add: fire_timeout_def startElection_def Let_def)

definition stands_as :: "Raft \<Rightarrow> Raft \<Rightarrow> bool" where
  "stands_as rf rf' \<longleftrightarrow> log rf' = log rf \<and> rstate rf' \<noteq> Leader \<and> \<not> dead rf'"

lemma timeouts_raise_term:
  assumes "i \<in> node_ids cfg" and "i \<in> A" and "rstate (nodes c i) \<noteq> Leader" and "\<not> dead (nodes c i)"
  shows "\<exists>c' rf. driven cfg A c c' \<and> nodes c' = (nodes c)(i := rf) \<and> stands_as (nodes c i) rf \<and>
    currentTerm (nodes c i) + int n \<le> currentTerm rf"
proof (induction n)
  case 0
  have "(nodes c)(i := nodes c i) = nodes c" by simp
  then show ?case
    using driven_refl [of cfg A c] assms(3,4) unfolding stands_as_def
    by (intro exI [of _ c] exI [of _ "nodes c i"]) simp
next
  case (Suc n)
  then obtain c1 rf where c1: "driven cfg A c c1" "nodes c1 = (nodes c)(i := rf)"
    "stands_as (nodes c i) rf" "currentTerm (nodes c i) + int n \<le> currentTerm rf" by blast
  let ?rf' = "resetElectionTimer (rf\<lparr>currentTerm := currentTerm rf + 1, rstate := Candidate,
    votedFor := rid rf\<rparr>)"
  have "nodes (fire_timeout c1 i) = (nodes c1)(i := ?rf')"
    using timeout_node [of c1 i] c1(2,3) by (simp add: stands_as_def)
  moreover have "driven cfg A c1 (fire_timeout c1 i)"
    using assms(1,2) by (intro driven_event [of _ _ "ElectionTimeout i"]) simp_all
  ultimately show ?case
    using driven_trans [OF c1(1)] c1(2-4)
    by (intro exI [of _ "fire_timeout c1 i"] exI [of _ ?rf']) (auto simp: stands_as_def)
qed

section \<open>The election\<close>

text \<open>One voter: the request is delivered, the vote granted, the reply counted.\<close>

definition ballot_of :: "Raft \<Rightarrow> RequestVoteArgs" where
  "ballot_of rf = \<lparr>rv_Term = currentTerm rf, rv_CandidateId = rid rf,
     rv_LastLogIndex = LastIndex (log rf), rv_LastLogTerm = LastTerm (log rf)\<rparr>"

text \<open>The leader that the candidate becomes.\<close>

definition winner :: "Raft \<Rightarrow> Raft" where
  "winner rf = rf\<lparr>rstate := Leader,
     nextIndex := map (\<lambda>_. LastIndex (log rf) + 1) (nextIndex rf),
     matchIndex := map (\<lambda>_. 0) (matchIndex rf),
     log := (log rf)\<lparr>entries := entries (log rf) @ [noop_entry rf]\<rparr>\<rparr>"

lemma vote_granted:
  assumes "currentTerm f < currentTerm rf" and "as_fresh (log rf) (log f)"
  shows "\<exists>f'. RequestVote f (ballot_of rf) = (f', \<lparr>vr_Term = currentTerm rf, vr_VoteGranted = True\<rparr>) \<and>
    currentTerm f' = currentTerm rf"
  using assms by (auto simp: RequestVote_def ballot_of_def as_fresh_def Let_def)

lemma count_vote:
  assumes "currentTerm rf = t" and "rstate rf = Candidate"
  shows "election_reply rf t v \<lparr>vr_Term = t, vr_VoteGranted = True\<rparr> =
    Some (if quorum rf \<le> v + 1 then winner rf else rf, v + 1)"
  using assms by (simp add: election_reply_def becomeLeader_Some winner_def Let_def)

lemma ignore_vote:
  "currentTerm rf = t \<Longrightarrow> rstate rf \<noteq> Candidate \<Longrightarrow>
     election_reply rf t v \<lparr>vr_Term = t, vr_VoteGranted = b\<rparr> = Some (rf, v)"
  by (simp add: election_reply_def)

text \<open>After the votes of the nodes in \<open>P\<close>, with the candidate \<open>rf\<close> at the start.\<close>

definition polled :: "int32 \<Rightarrow> Raft \<Rightarrow> int32 set \<Rightarrow> cluster \<Rightarrow> int32 set \<Rightarrow> cluster \<Rightarrow> bool" where
  "polled i rf W c P c' \<longleftrightarrow>
     nodes c' i = (if quorum rf \<le> 1 + int (card P) then winner rf else rf) \<and>
     (int (card P) < quorum rf - 1 \<longrightarrow> votes c' i (currentTerm rf) = 1 + int (card P)) \<and>
     (\<forall>p \<in> P. currentTerm (nodes c' p) = currentTerm rf) \<and>
     (\<forall>p \<in> W - P. nodes c' p = nodes c p \<and> (p, ballot_of rf) \<in> voteReqs c' \<and>
                    (i, p, currentTerm rf) \<in> voteGos c')"

lemma poll_one:
  assumes pl: "polled i rf W c P c1" and p: "p \<in> W - P" "p \<noteq> i" and i: "i \<notin> P" "i \<notin> W" and fin: "finite P"
    and rf: "rstate rf = Candidate" "rid rf = i"
    and f: "currentTerm (nodes c p) < currentTerm rf" "as_fresh (log rf) (log (nodes c p))"
    and A: "i \<in> A" "p \<in> A"
  shows "\<exists>c2. driven cfg A c1 c2 \<and> polled i rf W c (insert p P) c2"
proof -
  let ?t = "currentTerm rf" and ?yes = "\<lparr>vr_Term = currentTerm rf, vr_VoteGranted = True\<rparr>"
  have np: "nodes c1 p = nodes c p" "(p, ballot_of rf) \<in> voteReqs c1" "(i, p, ?t) \<in> voteGos c1"
    using pl p by (auto simp: polled_def)
  obtain f' where f': "RequestVote (nodes c p) (ballot_of rf) = (f', ?yes)" "currentTerm f' = ?t"
    using vote_granted [OF f] by blast
  define d where "d = fire_deliver_vote c1 p (ballot_of rf)"
  have d: "nodes d = (nodes c1)(p := f')" "voteReqs d = voteReqs c1" "voteGos d = voteGos c1"
    "votes d = votes c1" "(i, p, ?t, ?yes) \<in> voteReps d"
    using f' np(1) rf(2) by (simp_all add: d_def fire_deliver_vote_def set_node_def ballot_of_def)
  have s1: "driven cfg A c1 d"
    using np(2) A(2) unfolding d_def by (intro driven_event [of _ _ "DeliverVote p (ballot_of rf)"]) simp_all
  have ci: "nodes d i = nodes c1 i" using d(1) p(2) by simp
  define won where "won \<longleftrightarrow> quorum rf \<le> 1 + int (card P)"
  define rf2 v2 where "rf2 = (if quorum rf \<le> 2 + int (card P) then winner rf else rf)"
    and "v2 = (if won then votes c1 i ?t else votes c1 i ?t + 1)"
  have er: "election_reply (nodes d i) ?t (votes d i ?t) ?yes = Some (rf2, v2)"
  proof (cases won)
    case True
    then have "nodes d i = winner rf" using pl ci by (simp add: polled_def won_def)
    moreover have "quorum rf \<le> 2 + int (card P)" using True by (simp add: won_def)
    ultimately show ?thesis
      using ignore_vote [of "winner rf" ?t] True d(4) by (simp add: winner_def rf2_def v2_def)
  next
    case False
    then have "nodes d i = rf" "votes d i ?t = 1 + int (card P)"
      using pl ci d(4) by (simp_all add: polled_def won_def)
    then show ?thesis
      using count_vote [of rf ?t "1 + int (card P)"] rf(1) False d(4) by (simp add: rf2_def v2_def)
  qed
  define c2 where "c2 = (set_node d i rf2)\<lparr>voteGos := voteGos d - {(i, p, ?t)},
    votes := (votes d)(i := (votes d i)(?t := v2))\<rparr>"
  have "fire d (ReceiveVote i p ?t ?yes) = Some c2" using er by (simp add: fire_receive_vote_def c2_def)
  then have s2: "driven cfg A d c2"
    using d(3,5) np(3) A(1) by (intro driven_event [of _ _ "ReceiveVote i p ?t ?yes"]) simp_all
  have n2: "nodes c2 = (nodes c1)(p := f', i := rf2)" using d(1) by (simp add: c2_def)
  have card: "card (insert p P) = Suc (card P)" using fin p(1) by simp
  have "polled i rf W c (insert p P) c2"
    unfolding polled_def card
  proof (intro conjI)
    show "nodes c2 i = (if quorum rf \<le> 1 + int (Suc (card P)) then winner rf else rf)"
      by (simp add: n2 rf2_def)
    show "int (Suc (card P)) < quorum rf - 1 \<longrightarrow> votes c2 i ?t = 1 + int (Suc (card P))"
      using pl by (auto simp: c2_def v2_def won_def polled_def)
    show "\<forall>q \<in> insert p P. currentTerm (nodes c2 q) = ?t"
      using pl i p(2) f'(2) by (auto simp: n2 polled_def)
    show "\<forall>q \<in> W - insert p P. nodes c2 q = nodes c q \<and> (q, ballot_of rf) \<in> voteReqs c2 \<and>
        (i, q, ?t) \<in> voteGos c2"
      using pl i(2) d(1-3) by (auto simp: polled_def c2_def set_node_def)
  qed
  then show ?thesis using driven_trans [OF s1 s2] by blast
qed

lemma poll_all:
  assumes "finite W" and "i \<notin> W" and "insert i W \<subseteq> A" and "polled i rf W c {} c"
    and "rstate rf = Candidate" and "rid rf = i"
    and "\<forall>p \<in> W. currentTerm (nodes c p) < currentTerm rf \<and> as_fresh (log rf) (log (nodes c p))"
  shows "\<exists>c'. driven cfg A c c' \<and> polled i rf W c W c'"
proof -
  have "\<exists>c'. driven cfg A c c' \<and> polled i rf W c P c'" if "finite P" "P \<subseteq> W" for P
    using that
  proof (induction rule: finite_induct)
    case empty
    then show ?case using assms(4) driven_refl by blast
  next
    case (insert p P)
    then obtain c1 where c1: "driven cfg A c c1" "polled i rf W c P c1" by blast
    have "p \<in> W - P" "p \<noteq> i" "i \<notin> P" "i \<in> A" "p \<in> A" using insert.hyps(2) insert.prems assms(2,3) by auto
    then show ?case
      using poll_one [OF c1(2) _ _ _ assms(2) insert.hyps(1) assms(5,6)] assms(7) driven_trans [OF c1(1)]
      by blast
  qed
  then show ?thesis using assms(1) by blast
qed

lemma majority_finite: "is_majority cfg A \<Longrightarrow> finite A \<and> A \<subseteq> node_ids cfg"
  unfolding is_majority_def by (auto intro: finite_subset simp: node_ids_def)

definition leads_over :: "cluster \<Rightarrow> int32 \<Rightarrow> int32 set \<Rightarrow> bool" where
  "leads_over c i A \<longleftrightarrow>
     i \<in> A \<and> rstate (nodes c i) = Leader \<and> (\<forall>p \<in> A. currentTerm (nodes c p) \<le> currentTerm (nodes c i))"

lemma timeout_sends:
  assumes "rstate (nodes c i) \<noteq> Leader" and "\<not> dead (nodes c i)"
  defines "d \<equiv> fire_timeout c i"
  shows "voteReqs d = voteReqs c \<union>
      (\<lambda>p. (p, ballot_of (nodes d i))) ` callable (nodes d i) (other_peers (nodes d i))"
    and "voteGos d = voteGos c \<union>
      (\<lambda>p. (i, p, currentTerm (nodes d i))) ` callable (nodes d i) (other_peers (nodes d i))"
    and "votes d i (currentTerm (nodes d i)) = 1"
  using assms(1,2)
  by (simp_all add: d_def fire_timeout_def startElection_def ballot_of_def set_node_def Let_def)

lemma timeout_polls:
  assumes sh: "shape_ok cfg i (nodes (fire_timeout c i) i)" and i: "i \<notin> W" "W \<subseteq> node_ids cfg"
    and n: "2 \<le> length (Nodes cfg)" and nl: "rstate (nodes c i) \<noteq> Leader" "\<not> dead (nodes c i)"
  shows "polled i (nodes (fire_timeout c i) i) W (fire_timeout c i) {} (fire_timeout c i)"
proof -
  let ?d = "fire_timeout c i" and ?rf = "nodes (fire_timeout c i) i"
  have q: "2 \<le> quorum ?rf" using sh n by (simp add: quorum_def shape_ok_def)
  have "voteReqs ?d = voteReqs c \<union> (\<lambda>p. (p, ballot_of ?rf)) ` (node_ids cfg - {i})"
    "voteGos ?d = voteGos c \<union> (\<lambda>p. (i, p, currentTerm ?rf)) ` (node_ids cfg - {i})"
    "votes ?d i (currentTerm ?rf) = 1"
    using callable_peers [OF sh] timeout_sends [OF nl] by simp_all
  then show ?thesis using q i unfolding polled_def by auto
qed

lemma finite_upper:
  "finite A \<Longrightarrow> \<exists>n. \<forall>p \<in> A. f p \<le> b + int n"
proof (induction rule: finite_induct)
  case (insert x F)
  then obtain n where n: "\<forall>p \<in> F. f p \<le> b + int n" by blast
  have "\<forall>p \<in> insert x F. f p \<le> b + int (n + nat (f x - b))" using n by force
  then show ?case by blast
qed simp

lemma finite_greatest:
  fixes f :: "'a \<Rightarrow> int"
  assumes "finite A" and "A \<noteq> {}"
  shows "\<exists>j \<in> A. \<forall>p \<in> A. f p \<le> f j"
  using assms
proof (induction rule: finite_ne_induct)
  case (insert x F)
  then obtain j where j: "j \<in> F" "\<forall>p \<in> F. f p \<le> f j" by blast
  show ?case
  proof (cases "f x \<le> f j")
    case False
    then have "\<forall>p \<in> insert x F. f p \<le> f x" using j(2) by force
    then show ?thesis by blast
  qed (use j in blast)
qed simp

lemma election_won:
  assumes pos: "positional cfg" and n: "2 \<le> length (Nodes cfg)" and re: "reachable cfg c"
    and maj: "is_majority cfg A" and i: "i \<in> A" and nl: "rstate (nodes c i) \<noteq> Leader" "\<not> dead (nodes c i)"
    and fr: "\<forall>p \<in> A. as_fresh (log (nodes c i)) (log (nodes c p))"
  shows "\<exists>c'. driven cfg A c c' \<and> leads_over c' i A \<and>
    prefix (entries (log (nodes c i))) (entries (log (nodes c' i)))"
proof -
  note fin = majority_finite [OF maj]
  have ids: "i \<in> node_ids cfg" using fin i by blast
  obtain k where k: "\<forall>p \<in> A. currentTerm (nodes c p) \<le> currentTerm (nodes c i) + int k"
    using finite_upper [of A "\<lambda>p. currentTerm (nodes c p)"] fin by blast
  obtain c1 r where c1: "driven cfg A c c1" "nodes c1 = (nodes c)(i := r)" "stands_as (nodes c i) r"
    "currentTerm (nodes c i) + int k \<le> currentTerm r"
    using timeouts_raise_term [OF ids i nl] by blast
  define d where "d = fire_timeout c1 i"
  let ?rf = "nodes d i" and ?W = "A - {i}"
  have nl1: "rstate (nodes c1 i) \<noteq> Leader" "\<not> dead (nodes c1 i)"
    using c1(2,3) by (simp_all add: stands_as_def)
  note tn = timeout_node [OF nl1, folded d_def]
  have d: "driven cfg A c d"
    using driven_trans [OF c1(1) driven_event [of _ _ "ElectionTimeout i"]] i ids by (simp add: d_def)
  have sh: "shape_ok cfg i ?rf" using reachable_shape [OF pos driven_reachable [OF re d] ids] .
  have rf: "rstate ?rf = Candidate" "rid ?rf = i" "log ?rf = log (nodes c i)" "currentTerm r < currentTerm ?rf"
    using tn c1(2,3) sh by (simp_all add: stands_as_def shape_ok_def)
  have "?W \<subseteq> node_ids cfg" "i \<notin> ?W" using fin by auto
  then have pl: "polled i ?rf ?W d {} d"
    using timeout_polls [of cfg i c1 ?W] sh n nl1 unfolding d_def by blast
  have low: "currentTerm (nodes d p) < currentTerm ?rf \<and> as_fresh (log ?rf) (log (nodes d p))" if "p \<in> ?W" for p
    using that k fr rf(3,4) c1(2,4) tn by fastforce
  then obtain c' where c': "driven cfg A d c'" "polled i ?rf ?W d ?W c'"
    using poll_all [of ?W i A ?rf d cfg] pl rf(1,2) fin i by auto
  have "card ?W = card A - 1" "0 < card A" using fin i by (auto simp: card_gt_0_iff)
  then have "quorum ?rf \<le> 1 + int (card ?W)"
    using maj sh by (simp add: is_majority_def quorum_def shape_ok_def of_nat_diff)
  then have w: "nodes c' i = winner ?rf" "\<forall>p \<in> ?W. currentTerm (nodes c' p) = currentTerm ?rf"
    using c'(2) by (simp_all add: polled_def)
  have "currentTerm (nodes c' p) = currentTerm ?rf" if "p \<in> A" for p
    using w that by (cases "p = i") (simp_all add: winner_def)
  then have "leads_over c' i A" using i w(1) by (simp add: leads_over_def winner_def)
  then show ?thesis
    using driven_trans [OF d c'(1)] w(1) rf(3) by (intro exI [of _ c']) (simp add: winner_def)
qed

section \<open>A leader over the majority\<close>

text \<open>An old leader steps down when a node with a higher term asks for its vote.\<close>

lemma leader_unseated:
  assumes pos: "positional cfg" and re: "reachable cfg c" and A: "A \<subseteq> node_ids cfg"
    and i: "i \<in> A" "rstate (nodes c i) = Leader" and j: "j \<in> A" "rstate (nodes c j) \<noteq> Leader" "\<not> dead (nodes c j)"
    and t: "currentTerm (nodes c i) \<le> currentTerm (nodes c j)"
  shows "\<exists>c'. driven cfg A c c' \<and> rstate (nodes c' i) \<noteq> Leader \<and>
    (\<forall>p. log (nodes c' p) = log (nodes c p) \<and> dead (nodes c' p) = dead (nodes c p))"
proof -
  define d where "d = fire_timeout c j"
  let ?rf = "nodes d j"
  have ij: "i \<noteq> j" using i j by auto
  note tn = timeout_node [OF j(2,3), folded d_def]
  have s1: "driven cfg A c d"
    using A j(1) unfolding d_def by (intro driven_event [of _ _ "ElectionTimeout j"]) auto
  have ids: "i \<in> node_ids cfg" "j \<in> node_ids cfg" using A i j by auto
  have sh: "shape_ok cfg j ?rf" using reachable_shape [OF pos driven_reachable [OF re s1] ids(2)] .
  have ni: "nodes d i = nodes c i" "currentTerm (nodes c i) < currentTerm ?rf" using tn ij t by simp_all
  have req: "(i, ballot_of ?rf) \<in> voteReqs d"
    using timeout_sends(1) [OF j(2,3), folded d_def] callable_peers [OF sh] ids(1) ij by simp
  obtain f r where f: "RequestVote (nodes c i) (ballot_of ?rf) = (f, r)" by fastforce
  have fl: "rstate f \<noteq> Leader \<and> log f = log (nodes c i) \<and> dead f = dead (nodes c i)"
    using f ni(2) by (auto simp: RequestVote_def ballot_of_def Let_def split: if_splits)
  let ?c' = "fire_deliver_vote d i (ballot_of ?rf)"
  have n': "nodes ?c' = (nodes d)(i := f)" using f ni(1) by (simp add: fire_deliver_vote_def)
  have "driven cfg A d ?c'"
    using req i(1) by (intro driven_event [of _ _ "DeliverVote i (ballot_of ?rf)"]) simp_all
  then have "driven cfg A c ?c'" using driven_trans [OF s1] by blast
  moreover have "\<forall>p. log (nodes ?c' p) = log (nodes c p) \<and> dead (nodes ?c' p) = dead (nodes c p)"
    using fl tn unfolding n' by simp
  ultimately show ?thesis using fl n' by (intro exI [of _ ?c']) simp
qed

text \<open>From any reachable state the majority gets a leader whose term none of its nodes exceeds.\<close>

lemma leader_emerges:
  assumes pos: "positional cfg" and n: "2 \<le> length (Nodes cfg)" and re: "reachable cfg c"
    and maj: "is_majority cfg A" and live: "\<forall>p \<in> A. \<not> dead (nodes c p)"
  shows "\<exists>c' i. driven cfg A c c' \<and> leads_over c' i A \<and>
    prefix (entries (log (nodes c i))) (entries (log (nodes c' i)))"
proof -
  note fin = majority_finite [OF maj]
  have ne: "A \<noteq> {}" using majorities_meet [OF maj maj] by simp
  obtain j where j: "j \<in> A" "\<forall>p \<in> A. currentTerm (nodes c p) \<le> currentTerm (nodes c j)"
    using finite_greatest [of A "\<lambda>p. currentTerm (nodes c p)"] fin ne by blast
  show ?thesis
  proof (cases "rstate (nodes c j) = Leader")
    case True
    then show ?thesis
      using j driven_refl [of cfg A c] by (intro exI [of _ c] exI [of _ j]) (simp add: leads_over_def)
  next
    case nl: False
    obtain i where i: "i \<in> A" "\<forall>p \<in> A. as_fresh (log (nodes c i)) (log (nodes c p))"
      using freshest_exists [of A "\<lambda>p. log (nodes c p)"] fin ne by blast
    show ?thesis
    proof (cases "rstate (nodes c i) = Leader")
      case False
      then show ?thesis using election_won [OF pos n re maj i(1) _ _ i(2)] live i(1) by blast
    next
      case True
      obtain d where d: "driven cfg A c d" "rstate (nodes d i) \<noteq> Leader"
        "\<forall>p. log (nodes d p) = log (nodes c p) \<and> dead (nodes d p) = dead (nodes c p)"
        using leader_unseated [OF pos re _ i(1) True j(1) nl] fin live j i(1) by blast
      have "\<not> dead (nodes d i)" "\<forall>p \<in> A. as_fresh (log (nodes d i)) (log (nodes d p))"
        using d(3) live i by auto
      then show ?thesis
        using election_won [OF pos n driven_reachable [OF re d(1)] maj i(1) d(2)] d(1,3) driven_trans
        by metis
    qed
  qed
qed

section \<open>Replication to the majority\<close>

text \<open>A pass of the loop of \<open>sendAppendEntries\<close>, and the whole loop, as events of the cluster.\<close>

lemma exchange_driven:
  assumes pos: "positional cfg" and re: "reachable cfg c" and A: "A \<subseteq> node_ids cfg"
    and i: "i \<in> A" and p: "p \<in> A" "p \<noteq> i"
    and e: "exchange (nodes c i) p (nodes c p) = Some (l', f', again)"
  shows "\<exists>c'. driven cfg A c c' \<and> nodes c' = (nodes c)(p := f', i := l')"
proof -
  let ?l = "nodes c i"
  have ids: "i \<in> node_ids cfg" "p \<in> node_ids cfg" using A i p by auto
  have sh: "shape_ok cfg i ?l" using reachable_shape [OF pos re ids(1)] .
  show ?thesis
  proof (cases "send_prepare ?l p")
    case None
    then show ?thesis using e by (simp add: exchange_def)
  next
    case (Some m)
    show ?thesis
    proof (cases m)
      case None
      then have "l' = ?l" "f' = nodes c p" using e Some by (simp_all add: exchange_def)
      then show ?thesis using driven_refl [of cfg A c] by (intro exI [of _ c]) simp
    next
      case (Some a)
      have a: "send_prepare ?l p = Some (Some a)" using \<open>send_prepare ?l p = Some m\<close> Some by simp
      obtain r where r: "AppendEntries (nodes c p) a = Some (f', r)" "send_reply ?l p a r = Some (l', again)"
        using e a by (auto simp: exchange_def bind_eq_Some_conv)
      have ld: "ae_LeaderId a = i" using send_prepare_term [OF a] sh by (simp add: shape_ok_def)
      have pp: "p \<in> set (other_peers ?l)" "p \<in> callable ?l [p]"
        using other_peers_ok [OF sh] sh ids(2) p(2) by (simp_all add: callable_def shape_ok_def)
      define c1 where "c1 = c\<lparr>appReqs := appReqs c \<union> (\<lambda>q. (q, a)) ` callable ?l [p]\<rparr>"
      define c2 where "c2 = (set_node c1 p f')\<lparr>appReps := insert (i, p, a, r) (appReps c1)\<rparr>"
      have "driven cfg A c c1"
        using pp ids(1) i a
        by (intro driven_event [of _ _ "Replicate i p"]) (simp_all add: fire_replicate_def c1_def)
      moreover have "(p, a) \<in> appReqs c1" "nodes c1 = nodes c" using pp(2) by (simp_all add: c1_def)
      then have "driven cfg A c1 c2"
        using r(1) p(1) ld
        by (intro driven_event [of _ _ "DeliverAppend p a"]) (simp_all add: fire_deliver_append_def c2_def)
      moreover have "(i, p, a, r) \<in> appReps c2" "nodes c2 i = ?l" "nodes c2 = (nodes c)(p := f')"
        using p(2) by (simp_all add: c2_def c1_def)
      then have "driven cfg A c2 (set_node c2 i l')"
        using r(2) i
        by (intro driven_event [of _ _ "ReceiveAppend i p a r"]) (simp_all add: fire_receive_append_def)
      ultimately show ?thesis
        using driven_trans \<open>nodes c2 = (nodes c)(p := f')\<close> by (metis nodes_set_node)
    qed
  qed
qed

lemma catch_up_driven:
  assumes "positional cfg" and "A \<subseteq> node_ids cfg" and "i \<in> A" and "p \<in> A" and "p \<noteq> i"
  shows "reachable cfg c \<Longrightarrow> catch_up fuel (nodes c i) p (nodes c p) = Some (Some (l', f')) \<Longrightarrow>
    \<exists>c'. driven cfg A c c' \<and> nodes c' = (nodes c)(p := f', i := l')"
proof (induction fuel arbitrary: c)
  case (Suc fuel)
  obtain l1 f1 again where e: "exchange (nodes c i) p (nodes c p) = Some (l1, f1, again)"
    using Suc.prems(2) by (cases "exchange (nodes c i) p (nodes c p)") auto
  obtain c1 where c1: "driven cfg A c c1" "nodes c1 = (nodes c)(p := f1, i := l1)"
    using exchange_driven [OF assms(1) Suc.prems(1) assms(2-5) e] by blast
  show ?case
  proof (cases again)
    case False
    then have "l' = l1" "f' = f1" using Suc.prems(2) e by simp_all
    then show ?thesis using c1 by blast
  next
    case True
    have "nodes c1 i = l1" "nodes c1 p = f1" using c1(2) assms(5) by simp_all
    then have "catch_up fuel (nodes c1 i) p (nodes c1 p) = Some (Some (l', f'))"
      using Suc.prems(2) e True by simp
    then obtain c2 where c2: "driven cfg A c1 c2" "nodes c2 = (nodes c1)(p := f', i := l')"
      using Suc.IH [OF driven_reachable [OF Suc.prems(1) c1(1)]] by blast
    have "nodes c2 = (nodes c)(p := f', i := l')" using c2(2) c1(2) assms(5) by auto
    then show ?thesis using driven_trans [OF c1(1) c2(1)] by blast
  qed
qed simp

text \<open>One peer, then all of them: the state the loops reach.\<close>

lemma peer_synced:
  assumes pos: "positional cfg" and re: "reachable cfg c" and A: "A \<subseteq> node_ids cfg"
    and ld: "leads_over c i A" and p: "p \<in> A" "p \<noteq> i"
  shows "\<exists>c' l' f'. driven cfg A c c' \<and> nodes c' = (nodes c)(p := f', i := l') \<and>
    keeps_office (nodes c i) p (nodes c p) l' f' \<and> log l' = log (nodes c i) \<and> in_sync l' p f' \<and>
    commitIndex (nodes c i) \<le> commitIndex l' \<and> commitIndex l' \<le> commitIndex f' \<and>
    advanceCommitIndex l' = Some l'"
proof -
  have i: "i \<in> A" "rstate (nodes c i) = Leader" "currentTerm (nodes c p) \<le> currentTerm (nodes c i)"
    using ld p(1) by (auto simp: leads_over_def)
  obtain s where s: "sim cfg c s" using reachable_sim [OF pos re] by blast
  have r: "ready (nodes c i) p (nodes c p)" using ready_sim [OF pos s _ _ i(2,3)] A i(1) p(1) by blast
  obtain k where "nextIndex (nodes c i) ! nat p = int (Suc k)" using next_index_Suc [OF r] by blast
  then obtain l' f' where cu: "catch_up (Suc (Suc k)) (nodes c i) p (nodes c p) = Some (Some (l', f'))"
    "log l' = log (nodes c i) \<and> in_sync l' p f' \<and> commitIndex (nodes c i) \<le> commitIndex l' \<and>
     commitIndex l' \<le> commitIndex f' \<and> advanceCommitIndex l' = Some l'"
    using catch_up_total [OF r] by blast
  have "keeps_office (nodes c i) p (nodes c p) l' f'"
    using catch_up_frame [OF cu(1)] r by (simp add: ready_def)
  then show ?thesis using catch_up_driven [OF pos A i(1) p re cu(1)] cu(2) by blast
qed

definition replicated :: "int32 set \<Rightarrow> int32 \<Rightarrow> cluster \<Rightarrow> int32 set \<Rightarrow> cluster \<Rightarrow> bool" where
  "replicated A i c P c' \<longleftrightarrow>
     leads_over c' i A \<and> log (nodes c' i) = log (nodes c i) \<and>
     currentTerm (nodes c' i) = currentTerm (nodes c i) \<and>
     commitIndex (nodes c i) \<le> commitIndex (nodes c' i) \<and>
     (P \<noteq> {} \<longrightarrow> advanceCommitIndex (nodes c' i) = Some (nodes c' i)) \<and>
     (\<forall>p \<in> P. in_sync (nodes c' i) p (nodes c' p) \<and> commitIndex (nodes c i) \<le> commitIndex (nodes c' p))"

lemma replicate_one:
  assumes pos: "positional cfg" and re: "reachable cfg c1" and A: "A \<subseteq> node_ids cfg"
    and rp: "replicated A i c P c1" and P: "P \<subseteq> A - {i}" and p: "p \<in> A" "p \<noteq> i" "p \<notin> P"
  shows "\<exists>c'. driven cfg A c1 c' \<and> replicated A i c (insert p P) c'"
proof -
  have ld: "leads_over c1 i A" using rp by (simp add: replicated_def)
  obtain c' l' f' where d: "driven cfg A c1 c'" and n: "nodes c' = (nodes c1)(p := f', i := l')"
    and k: "keeps_office (nodes c1 i) p (nodes c1 p) l' f'" and lg: "log l' = log (nodes c1 i)"
    and sy: "in_sync l' p f'" and ci: "commitIndex (nodes c1 i) \<le> commitIndex l'"
      "commitIndex l' \<le> commitIndex f'" and ad: "advanceCommitIndex l' = Some l'"
    using peer_synced [OF pos re A ld p(1,2)] by blast
  have low: "currentTerm (nodes c1 p) \<le> currentTerm (nodes c1 i)"
    using ld p(1) by (simp add: leads_over_def)
  have "in_sync l' q (nodes c' q) \<and> commitIndex (nodes c i) \<le> commitIndex (nodes c' q)" if q: "q \<in> P" for q
  proof -
    have "0 \<le> q" "0 \<le> p" "q \<noteq> p" using q p P A positional_id_range [OF pos] by blast+
    then have "nat q \<noteq> nat p" by simp
    moreover have "nodes c' q = nodes c1 q" using n q p(3) P by auto
    moreover have "in_sync (nodes c1 i) q (nodes c1 q)" "commitIndex (nodes c i) \<le> commitIndex (nodes c1 q)"
      using rp q by (auto simp: replicated_def)
    moreover have "matchIndex l' ! nat q = matchIndex (nodes c1 i) ! nat q"
      using k \<open>nat q \<noteq> nat p\<close> by (simp add: keeps_office_def)
    ultimately show ?thesis using lg by (simp add: in_sync_def)
  qed
  moreover have "leads_over c' i A"
    using ld k low p(2) unfolding leads_over_def keeps_office_def n by auto
  ultimately have "replicated A i c (insert p P) c'"
    using rp k lg sy ci ad n p(2) unfolding replicated_def keeps_office_def by auto
  then show ?thesis using d by blast
qed

lemma replicate_all:
  assumes pos: "positional cfg" and re: "reachable cfg c" and A: "A \<subseteq> node_ids cfg" "finite A"
    and ld: "leads_over c i A"
  shows "\<exists>c'. driven cfg A c c' \<and> replicated A i c (A - {i}) c'"
proof -
  have "\<exists>c'. driven cfg A c c' \<and> replicated A i c P c'" if "finite P" "P \<subseteq> A - {i}" for P
    using that
  proof (induction rule: finite_induct)
    case empty
    then show ?case
      using driven_refl [of cfg A c] ld by (intro exI [of _ c]) (simp add: replicated_def)
  next
    case (insert p P)
    then obtain c1 where c1: "driven cfg A c c1" "replicated A i c P c1" by blast
    then obtain c' where "driven cfg A c1 c'" "replicated A i c (insert p P) c'"
      using replicate_one [OF pos driven_reachable [OF re c1(1)] A(1) c1(2)] insert.prems insert.hyps(2)
      by blast
    then show ?case using driven_trans [OF c1(1)] by blast
  qed
  then show ?thesis using A(2) by blast
qed

text \<open>When all of them are in sync, the last entry of the leader's term is committed.\<close>

lemma all_match_commits:
  assumes pos: "positional cfg" and sh: "shape_ok cfg i l" and maj: "is_majority cfg A" and i: "i \<in> A"
    and m: "\<forall>p \<in> A - {i}. matchIndex l ! nat p = LastIndex (log l)"
    and ad: "advanceCommitIndex l = Some l"
    and last: "le_Term (last (entries (log l))) = currentTerm l" and pos_last: "0 < LastIndex (log l)"
  shows "LastIndex (log l) \<le> commitIndex l"
proof (rule ccontr)
  let ?n = "LastIndex (log l)"
  assume less: "\<not> ?n \<le> commitIndex l"
  note fin = majority_finite [OF maj]
  have "A - {i} \<subseteq> ID ` set (matching l ?n)"
  proof
    fix p assume p: "p \<in> A - {i}"
    then have "p \<in> ID ` set (Nodes cfg)" using fin by (auto simp: node_ids_def)
    then show "p \<in> ID ` set (matching l ?n)" using m p sh by (auto simp: matching_def shape_ok_def)
  qed
  then have "card (A - {i}) \<le> card (ID ` set (matching l ?n))" by (intro card_mono) auto
  also have "\<dots> \<le> length (matching l ?n)"
    by (metis card_image_le card_length le_trans List.finite_set)
  finally have "int (card (A - {i})) \<le> int (length (matching l ?n))" by simp
  moreover have "card (A - {i}) = card A - 1" "0 < card A" using fin i by (auto simp: card_gt_0_iff)
  then have "int (card (A - {i})) = int (card A) - 1" by linarith
  ultimately have "quorum l \<le> 1 + int (length (matching l ?n))"
    using maj sh by (simp add: is_majority_def quorum_def shape_ok_def)
  moreover have "entries (log l) ! nat ?n = last (entries (log l))"
    using pos_last by (subst last_conv_nth) (auto simp: LastIndex_def nat_diff_distrib)
  ultimately have "can_commit l ?n"
    using less pos_last last by (simp add: can_commit_def LastIndex_def)
  moreover obtain N where "advanceCommitIndex l = Some (l\<lparr>commitIndex := N\<rparr>)" "\<forall>k > N. \<not> can_commit l k"
    using advanceCommitIndex_result [OF tracks_peers_ok [OF pos sh]] by blast
  moreover from this have "commitIndex l = N" using ad by (metis Raft.select_convs(4) Raft.surjective Raft.update_convs(4) option.inject)
  ultimately show False using less by auto
qed

section \<open>Application at every node of the majority\<close>

definition caught_up :: "Raft \<Rightarrow> Raft \<Rightarrow> bool" where
  "caught_up rf rf' \<longleftrightarrow>
     log rf' = log rf \<and> rstate rf' = rstate rf \<and> currentTerm rf' = currentTerm rf \<and>
     commitIndex rf' = commitIndex rf \<and> lastApplied rf' = commitIndex rf"

lemma applies_all:
  assumes pos: "positional cfg" and i: "i \<in> node_ids cfg" "i \<in> A"
  shows "reachable cfg c \<Longrightarrow>
    \<exists>c' rf. driven cfg A c c' \<and> nodes c' = (nodes c)(i := rf) \<and> caught_up (nodes c i) rf"
proof (induction "nat (commitIndex (nodes c i) - lastApplied (nodes c i))" arbitrary: c)
  case 0
  have "(nodes c)(i := nodes c i) = nodes c" by simp
  moreover have "caught_up (nodes c i) (nodes c i)"
    using 0(1) node_invariant [OF pos 0(2) i(1)] by (simp add: caught_up_def)
  ultimately show ?case
    using driven_refl [of cfg A c] by (intro exI [of _ c] exI [of _ "nodes c i"]) simp
next
  case (Suc n)
  let ?rf = "nodes c i" and ?c1 = "set_node c i (fst (apply_one (nodes c i)))"
  have less: "lastApplied ?rf < commitIndex ?rf" using Suc.hyps(2) by simp
  have "0 \<le> lastApplied ?rf" "wf_log (log ?rf)" "commitIndex ?rf < int (length (entries (log ?rf)))"
    using node_invariant [OF pos Suc.prems i(1)] by (simp_all add: LastIndex_def)
  then have ap: "fst (apply_one ?rf) = ?rf\<lparr>lastApplied := lastApplied ?rf + 1,
      commitCh := commitCh ?rf @ [to_msg (entries (log ?rf) ! nat (lastApplied ?rf + 1))]\<rparr>"
    using apply_one_step [of ?rf] less by simp
  have d: "driven cfg A c ?c1" using i by (intro driven_event [of _ _ "ApplyEntry i"]) simp_all
  have "n = nat (commitIndex (nodes ?c1 i) - lastApplied (nodes ?c1 i))"
    using Suc.hyps(2) by (simp add: ap)
  from Suc.hyps(1) [OF this driven_reachable [OF Suc.prems d]] obtain c' rf where
    c': "driven cfg A ?c1 c'" "nodes c' = (nodes ?c1)(i := rf)" "caught_up (nodes ?c1 i) rf" by blast
  have "nodes c' = (nodes c)(i := rf)" "caught_up ?rf rf" using c'(2,3) by (simp_all add: ap caught_up_def)
  then show ?case using driven_trans [OF d c'(1)] by blast
qed

lemma majority_applies:
  assumes pos: "positional cfg" and re: "reachable cfg c" and A: "A \<subseteq> node_ids cfg" "finite A"
  shows "\<exists>c'. driven cfg A c c' \<and> (\<forall>p \<in> A. caught_up (nodes c p) (nodes c' p))"
proof -
  have "\<exists>c'. driven cfg A c c' \<and> (\<forall>p \<in> P. caught_up (nodes c p) (nodes c' p)) \<and>
      (\<forall>p. p \<notin> P \<longrightarrow> nodes c' p = nodes c p)" if "finite P" "P \<subseteq> A" for P
    using that
  proof (induction rule: finite_induct)
    case empty
    then show ?case using driven_refl [of cfg A c] by (intro exI [of _ c]) simp
  next
    case (insert p P)
    then obtain c1 where c1: "driven cfg A c c1" "\<forall>q \<in> P. caught_up (nodes c q) (nodes c1 q)"
      "\<forall>q. q \<notin> P \<longrightarrow> nodes c1 q = nodes c q" by blast
    have "p \<in> node_ids cfg" "p \<in> A" using insert.prems A(1) by auto
    then obtain c' rf where c': "driven cfg A c1 c'" "nodes c' = (nodes c1)(p := rf)"
      "caught_up (nodes c1 p) rf"
      using applies_all [OF pos _ _ driven_reachable [OF re c1(1)]] by blast
    have "\<forall>q \<in> insert p P. caught_up (nodes c q) (nodes c' q)"
      "\<forall>q. q \<notin> insert p P \<longrightarrow> nodes c' q = nodes c q"
      using c1(2,3) c'(2,3) insert.hyps(2) by auto
    then show ?case using driven_trans [OF c1(1) c'(1)] by blast
  qed
  then show ?thesis using A by blast
qed

section \<open>Progress\<close>

text \<open>The command's entry, once it is at index \<open>idx\<close> of a leader's log, reaches the whole majority.\<close>

lemma last_entry_spreads:
  assumes pos: "positional cfg" and re: "reachable cfg c" and maj: "is_majority cfg A"
    and n: "2 \<le> length (Nodes cfg)" and ld: "leads_over c i A"
    and last: "le_Term (last (entries (log (nodes c i)))) = currentTerm (nodes c i)"
    and idx: "0 < LastIndex (log (nodes c i))"
  shows "\<exists>c'. driven cfg A c c' \<and> replicated A i c (A - {i}) c' \<and>
    (\<forall>p \<in> A. LastIndex (log (nodes c i)) \<le> commitIndex (nodes c' p))"
proof -
  note fin = majority_finite [OF maj]
  have i: "i \<in> A" "i \<in> node_ids cfg" using ld fin by (auto simp: leads_over_def)
  obtain c1 where c1: "driven cfg A c c1" "replicated A i c (A - {i}) c1"
    using replicate_all [OF pos re _ _ ld] fin by blast
  have re1: "reachable cfg c1" using driven_reachable [OF re c1(1)] .
  have ne: "A - {i} \<noteq> {}"
  proof
    assume "A - {i} = {}"
    then have "A = {i}" using i by auto
    moreover have "1 \<le> int (length (Nodes cfg)) div 2" using n by simp
    ultimately show False using maj by (simp add: is_majority_def)
  qed
  have l1: "log (nodes c1 i) = log (nodes c i)" "currentTerm (nodes c1 i) = currentTerm (nodes c i)"
    "advanceCommitIndex (nodes c1 i) = Some (nodes c1 i)" "leads_over c1 i A"
    "\<forall>p \<in> A - {i}. matchIndex (nodes c1 i) ! nat p = LastIndex (log (nodes c1 i))"
    using c1(2) ne by (auto simp: replicated_def in_sync_def)
  have ci: "LastIndex (log (nodes c i)) \<le> commitIndex (nodes c1 i)"
    using all_match_commits [OF pos reachable_shape [OF pos re1 i(2)] maj i(1) l1(5,3)] last idx l1(1,2)
    by simp
  obtain c2 where c2: "driven cfg A c1 c2" "replicated A i c1 (A - {i}) c2"
    using replicate_all [OF pos re1 _ _ l1(4)] fin by blast
  have "LastIndex (log (nodes c i)) \<le> commitIndex (nodes c2 p)" if "p \<in> A" for p
    using c2(2) ci that by (cases "p = i") (auto simp: replicated_def intro: order.trans)
  moreover have "replicated A i c (A - {i}) c2"
    using c1(2) c2(2) unfolding replicated_def by (auto intro: order.trans)
  ultimately show ?thesis using driven_trans [OF c1(1) c2(1)] by blast
qed

lemma delivered_entry:
  assumes pos: "positional cfg" and re: "reachable cfg c" and i: "i \<in> node_ids cfg"
    and k: "0 < k" "int k \<le> lastApplied (nodes c i)"
  shows "to_msg (entries (log (nodes c i)) ! k) \<in> set (commitCh (nodes c i))"
proof -
  let ?L = "entries (log (nodes c i))" and ?a = "nat (lastApplied (nodes c i))"
  note I = node_invariant [OF pos re i]
  have "k \<le> ?a" "lastApplied (nodes c i) < int (length ?L)" using k I by (simp_all add: LastIndex_def)
  then have a: "k \<le> ?a" "?a < length ?L" using k by linarith+
  then have "drop 1 (take (Suc ?a) ?L) ! (k - 1) = ?L ! k" "k - 1 < length (drop 1 (take (Suc ?a) ?L))"
    using k(1) by simp_all
  then have "?L ! k \<in> set (drop 1 (take (Suc ?a) ?L))" by (metis nth_mem)
  moreover have "Entries (log (nodes c i)) 1 (lastApplied (nodes c i) + 1) = drop 1 (take (Suc ?a) ?L)"
    using I a by (intro Entries_upto) (simp_all add: LastIndex_def)
  ultimately show ?thesis using I by simp
qed

text \<open>
  C12. Progress: in every reachable state of a cluster of at least two nodes, whatever was lost, delayed
  or repeated before and whatever roles, terms and logs the nodes have, any majority of live nodes can by itself elect a leader that
  takes a client's command at a new index and gets it committed and delivered at every node of the
  majority: the cluster never reaches a state from which it could not go on. (A cluster of one node
  never has a leader, see \<open>RaftTheorems\<close>.)
\<close>

theorem cluster_makes_progress:
  assumes "positional cfg" and "2 \<le> length (Nodes cfg)" and "reachable cfg c"
    and "is_majority cfg A" and "\<forall>p \<in> A. \<not> dead (nodes c p)"
  shows "\<exists>evs c' i idx. run cfg c evs = Some c' \<and> list_all (acts_in A) evs \<and> i \<in> A \<and>
    rstate (nodes c' i) = Leader \<and> LastIndex (log (nodes c i)) < idx \<and>
    (\<forall>p \<in> A. idx \<le> commitIndex (nodes c' p) \<and>
       \<lparr>am_Index = idx, am_Term = currentTerm (nodes c' i), am_Command = cmd\<rparr> \<in> set (commitCh (nodes c' p)))"
proof -
  note fin = majority_finite [OF assms(4)]
  obtain c1 i where c1: "driven cfg A c c1" "leads_over c1 i A"
    "prefix (entries (log (nodes c i))) (entries (log (nodes c1 i)))"
    using leader_emerges [OF assms] by blast
  have i: "i \<in> A" "i \<in> node_ids cfg" "rstate (nodes c1 i) = Leader"
    using c1(2) fin by (auto simp: leads_over_def)
  let ?l = "nodes c1 i" and ?idx = "LastIndex (log (nodes c1 i)) + 1" and ?e = "command_entry (nodes c1 i) cmd"
  define l where "l = ?l\<lparr>log := (log ?l)\<lparr>entries := entries (log ?l) @ [?e]\<rparr>\<rparr>"
  define c2 where "c2 = set_node c1 i l"
  have s2: "driven cfg A c1 c2"
    using i Start_leader [OF i(3)]
    by (intro driven_event [of _ _ "Submit i cmd"]) (simp_all add: fire_submit_def c2_def l_def)
  have re2: "reachable cfg c2" using driven_reachable [OF driven_reachable [OF assms(3) c1(1)] s2] .
  have l: "nodes c2 i = l" "LastIndex (log l) = ?idx" "currentTerm l = currentTerm ?l"
    "last (entries (log l)) = ?e" "rstate l = Leader"
    using i(3) by (simp_all add: c2_def l_def LastIndex_def)
  have ld: "leads_over c2 i A" using c1(2) l by (auto simp: leads_over_def c2_def)
  have "entries (log ?l) \<noteq> []"
    using node_invariant [OF assms(1) driven_reachable [OF assms(3) c1(1)] i(2)] log_nonempty by blast
  then have idx: "0 < ?idx" by (simp add: LastIndex_def)
  obtain c3 where c3: "driven cfg A c2 c3" "replicated A i c2 (A - {i}) c3"
    "\<forall>p \<in> A. ?idx \<le> commitIndex (nodes c3 p)"
    using last_entry_spreads [OF assms(1) re2 assms(4,2) ld] l idx by (auto simp: command_entry_def)
  have re3: "reachable cfg c3" using driven_reachable [OF re2 c3(1)] .
  obtain c4 where c4: "driven cfg A c3 c4" "\<forall>p \<in> A. caught_up (nodes c3 p) (nodes c4 p)"
    using majority_applies [OF assms(1) re3] fin by blast
  have re4: "reachable cfg c4" using driven_reachable [OF re3 c4(1)] .
  have at: "entries (log (nodes c4 p)) ! nat ?idx = ?e" if p: "p \<in> A" for p
  proof -
    have L: "nat ?idx < length (entries (log l))" "entries (log l) ! nat ?idx = ?e"
      using idx by (simp_all add: l_def LastIndex_def)
    have "take (length (entries (log l))) (entries (log (nodes c3 p))) = entries (log l)"
      using c3(2) p l(1) by (cases "p = i") (auto simp: replicated_def in_sync_def)
    then have "entries (log (nodes c3 p)) ! nat ?idx = ?e" using L by (metis nth_take)
    then show ?thesis using c4(2) p by (simp add: caught_up_def)
  qed
  have t: "currentTerm (nodes c4 i) = currentTerm ?l" "rstate (nodes c4 i) = Leader"
    using c4(2) c3(2) i(1) l by (auto simp: caught_up_def replicated_def leads_over_def)
  have "?idx \<le> commitIndex (nodes c4 p) \<and> to_msg ?e \<in> set (commitCh (nodes c4 p))" if p: "p \<in> A" for p
  proof -
    have "?idx \<le> commitIndex (nodes c4 p)" "lastApplied (nodes c4 p) = commitIndex (nodes c4 p)"
      using c3(3) c4(2) p by (auto simp: caught_up_def)
    then show ?thesis
      using delivered_entry [OF assms(1) re4, of p "nat ?idx"] at [OF p] idx fin p by auto
  qed
  moreover have "to_msg ?e = \<lparr>am_Index = ?idx, am_Term = currentTerm (nodes c4 i), am_Command = cmd\<rparr>"
    using t(1) by (simp add: to_msg_def command_entry_def)
  moreover have "LastIndex (log (nodes c i)) < ?idx"
    using prefix_length_le [OF c1(3)] by (simp add: LastIndex_def)
  moreover have "driven cfg A c c4"
    using driven_trans [OF driven_trans [OF driven_trans [OF c1(1) s2] c3(1)] c4(1)] .
  ultimately show ?thesis using i(1) t(2) unfolding driven_def by metis
qed

text \<open>Two nodes of the cluster in which node 1 was re-elected carry on without it.\<close>

theorem cluster_makes_progress_witness:
  "rstate (nodes reelected 1) = Leader \<and>
   (\<exists>evs c' i idx. run three reelected evs = Some c' \<and> list_all (acts_in {0, 2}) evs \<and> i \<in> {0, 2} \<and>
      rstate (nodes c' i) = Leader \<and>
      \<lparr>am_Index = idx, am_Term = currentTerm (nodes c' i), am_Command = ''y:2''\<rparr>
        \<in> set (commitCh (nodes c' 0)))"
proof -
  have h: "2 \<le> length (Nodes three)" "\<not> dead (nodes reelected 0)" "\<not> dead (nodes reelected 2)"
    "rstate (nodes reelected 1) = Leader" "0 \<in> node_ids three" "2 \<in> node_ids three"
    "length (Nodes three) = 3" by code_simp+
  have "is_majority three {0, 2}" using h(5-7) by (simp add: is_majority_def)
  moreover have "\<forall>p \<in> {0, 2}. \<not> dead (nodes reelected p)" using h(2,3) by simp
  ultimately show ?thesis
    using cluster_makes_progress [OF three_positional h(1) reachable_reelected, of "{0, 2}" "''y:2''"] h(4)
    by blast
qed

end
