(* ===== verification/KvStore.thy ===== *)
theory KvStore
  imports Prelude
begin

text \<open>
  The in-memory stores (\<open>internal/store/store.go\<close>): the one of \<open>hw3\<close> keeps a value per key, the one
  of \<open>hw2\<close> also the Lamport timestamp of the write. A Go map is a partial function with a finite
  domain. What the servers rely on is stated once as the locale \<open>kv_store\<close> and holds for both.
\<close>

section \<open>The interface\<close>

text \<open>
  \<open>stored\<close> is what a write leaves in the store; a lookup returns it and \<open>True\<close>, or the zero entry and
  \<open>False\<close>.
\<close>

locale kv_store =
  fixes empty :: 's
    and put :: "'s \<Rightarrow> string \<Rightarrow> 'w \<Rightarrow> 's"
    and get :: "'s \<Rightarrow> string \<Rightarrow> 'e \<times> bool"
    and stored :: "'w \<Rightarrow> 'e"
    and zero :: 'e
  assumes get_empty: "get empty k = (zero, False)"
    and get_put: "get (put s k w) k' = (if k' = k then (stored w, True) else get s k')"
begin

definition replay :: "'s \<Rightarrow> (string \<times> 'w) list \<Rightarrow> 's" where
  "replay s ws = foldl (\<lambda>s (k, w). put s k w) s ws"

lemma replay_Nil [simp]: "replay s [] = s"
  by (simp add: replay_def)

lemma replay_snoc [simp]: "replay s (ws @ [(k, w)]) = put (replay s ws) k w"
  by (simp add: replay_def)

lemma replay_append: "replay s (ws @ ws') = replay (replay s ws) ws'"
  by (simp add: replay_def)

text \<open>Last writer wins.\<close>

lemma get_replay:
  "get (replay s ws) k =
     (case map_of (rev ws) k of None \<Rightarrow> get s k | Some w \<Rightarrow> (stored w, True))"
proof (induction ws rule: rev_induct)
  case (snoc x ws)
  then show ?case by (cases x) (simp add: get_put)
qed simp

lemma get_replay_empty:
  "get (replay empty ws) k =
     (case map_of (rev ws) k of None \<Rightarrow> (zero, False) | Some w \<Rightarrow> (stored w, True))"
  by (auto simp: get_replay get_empty split: option.splits)

lemma written_iff: "map_of (rev ws) k = None \<longleftrightarrow> k \<notin> fst ` set ws"
  by (simp add: map_of_eq_None_iff)

lemma found_replay: "snd (get (replay empty ws) k) \<longleftrightarrow> k \<in> fst ` set ws"
  using written_iff [of ws k] by (auto simp: get_replay_empty split: option.splits)

lemma replay_unwritten: "k \<notin> fst ` set ws \<Longrightarrow> get (replay s ws) k = get s k"
  using written_iff [of ws k] by (simp add: get_replay)

text \<open>Writing the same again is invisible, and writes to different keys commute.\<close>

lemma get_put_twice: "get (put (put s k w) k w) k' = get (put s k w) k'"
  by (simp add: get_put)

lemma get_put_commute:
  "k \<noteq> l \<Longrightarrow> get (put (put s k v) l w) k' = get (put (put s l w) k v) k'"
  by (simp add: get_put)

end

section \<open>The store of hw3\<close>

record Entry =
  Value :: string

record Store =
  data :: "string \<rightharpoonup> Entry"

definition store_new :: Store where
  "store_new = \<lparr>data = (\<lambda>_. None)\<rparr>"

definition store_put :: "Store \<Rightarrow> string \<Rightarrow> string \<Rightarrow> Store" where
  "store_put s key val = s\<lparr>data := (data s)(key \<mapsto> \<lparr>Value = val\<rparr>)\<rparr>"

definition store_get :: "Store \<Rightarrow> string \<Rightarrow> Entry \<times> bool" where
  "store_get s key =
     (case data s key of None \<Rightarrow> (\<lparr>Value = []\<rparr>, False) | Some e \<Rightarrow> (e, True))"

text \<open>The copy loop of \<open>Snapshot\<close> reaches every key of the map, in any order.\<close>

definition store_snapshot :: "Store \<Rightarrow> string \<rightharpoonup> Entry" where
  "store_snapshot s = (\<lambda>k. data s k)"

definition store_len :: "Store \<Rightarrow> int" where
  "store_len s = int (card (dom (data s)))"

interpretation kv: kv_store store_new store_put store_get "\<lambda>v. \<lparr>Value = v\<rparr>" "\<lparr>Value = []\<rparr>"
  by unfold_locales (auto simp: store_new_def store_put_def store_get_def)

section \<open>The store of hw2\<close>

record TsEntry =
  TsValue :: string
  Ts :: int64

record TsStore =
  ts_data :: "string \<rightharpoonup> TsEntry"

definition ts_new :: TsStore where
  "ts_new = \<lparr>ts_data = (\<lambda>_. None)\<rparr>"

definition ts_put :: "TsStore \<Rightarrow> string \<Rightarrow> string \<Rightarrow> int64 \<Rightarrow> TsStore" where
  "ts_put s key val ts = s\<lparr>ts_data := (ts_data s)(key \<mapsto> \<lparr>TsValue = val, Ts = ts\<rparr>)\<rparr>"

definition ts_get :: "TsStore \<Rightarrow> string \<Rightarrow> TsEntry \<times> bool" where
  "ts_get s key =
     (case ts_data s key of None \<Rightarrow> (\<lparr>TsValue = [], Ts = 0\<rparr>, False) | Some e \<Rightarrow> (e, True))"

definition ts_snapshot :: "TsStore \<Rightarrow> string \<rightharpoonup> TsEntry" where
  "ts_snapshot s = (\<lambda>k. ts_data s k)"

definition ts_len :: "TsStore \<Rightarrow> int" where
  "ts_len s = int (card (dom (ts_data s)))"

interpretation tskv: kv_store ts_new "\<lambda>s k (v, t). ts_put s k v t" ts_get
  "\<lambda>(v, t). \<lparr>TsValue = v, Ts = t\<rparr>" "\<lparr>TsValue = [], Ts = 0\<rparr>"
  by unfold_locales (auto simp: ts_new_def ts_put_def ts_get_def split: prod.splits)

section \<open>Sizes\<close>

lemma store_len_put:
  assumes "finite (dom (data s))"
  shows "store_len (store_put s k v) = (if snd (store_get s k) then store_len s else store_len s + 1)"
  using assms by (auto simp: store_len_def store_put_def store_get_def insert_absorb domIff
      card_insert_if split: option.splits)

lemma ts_len_put:
  assumes "finite (dom (ts_data s))"
  shows "ts_len (ts_put s k v t) = (if snd (ts_get s k) then ts_len s else ts_len s + 1)"
  using assms by (auto simp: ts_len_def ts_put_def ts_get_def insert_absorb domIff
      card_insert_if split: option.splits)

end
