(* ===== verification/Rpc.thy ===== *)
theory Rpc
  imports Prelude
begin

text \<open>
  gRPC results: a handler returns a response or a status error with a code of
  \<open>google.golang.org/grpc/codes\<close>; the codes are the ones the servers use.
\<close>

datatype code = Aborted | DeadlineExceeded | Unavailable | Internal

datatype status = Status code string

type_synonym 'a rpc = "status + 'a"

end
