(* ===== verification/KvServer.thy ===== *)
theory KvServer
  imports KvStore Rpc RaftNode
begin

text \<open>
  The key-value server of \<open>hw3/server/main.go\<close> on top of one Raft instance. A \<open>Put\<close> handler blocks
  in the middle, so it is split where other code can run: \<open>put_begin\<close> (encode and \<open>Start\<close>),
  \<open>put_redirect\<close> (the answer of a follower), \<open>put_register\<close> (the entry in \<open>pending\<close>), then \<open>put_wake\<close> or \<open>put_timeout\<close> (the two cases of the
  \<open>select\<close>). Each handler call has an identity; its \<open>pendingPut\<close> cell is addressed by that identity,
  since the handler and the map share the cell by pointer. \<open>consumed\<close> counts the messages that the
  server's apply loop has taken from the commit channel.
\<close>

section \<open>Commands\<close>

text \<open>\<open>strings.SplitN(s, sep, n)\<close> for a separator of one character and positive \<open>n\<close>.\<close>

fun splitN :: "nat \<Rightarrow> char \<Rightarrow> string \<Rightarrow> string list" where
  "splitN 0 c s = []"
| "splitN (Suc 0) c s = [s]"
| "splitN (Suc (Suc n)) c s =
     (case dropWhile (\<lambda>x. x \<noteq> c) s of
        [] \<Rightarrow> [s]
      | _ # rest \<Rightarrow> takeWhile (\<lambda>x. x \<noteq> c) s # splitN (Suc n) c rest)"

definition encodeCommand :: "string \<Rightarrow> string \<Rightarrow> string" where
  "encodeCommand key val = ''put:'' @ key @ '':'' @ val"

definition decodeCommand :: "string \<Rightarrow> string \<times> string \<times> string" where
  "decodeCommand cmd =
     (let parts = splitN 3 CHR '':'' cmd in
      if length parts < 2 then ([], [], [])
      else if length parts = 3 then (parts ! 0, parts ! 1, parts ! 2)
      else (parts ! 0, parts ! 1, []))"

section \<open>State and messages\<close>

record PutRequest =
  put_key :: string
  put_value :: string

record PutResponse =
  pr_ok :: bool
  pr_redirect :: string

record GetResponse =
  gr_found :: bool
  gr_value :: string

record GetPrimaryResponse =
  gp_id :: int32
  gp_addr :: string

record pendingPut =
  pp_term :: int64
  pp_closed :: bool

text \<open>
  A handler call: submitted to Raft, refused by it, waiting in the \<open>select\<close>, or returned.
\<close>

datatype put_phase = Submitted | Refused | Waiting | Returned "PutResponse rpc"

record put_call =
  pc_req :: PutRequest
  pc_index :: int64
  pc_term :: int64
  pc_cell :: pendingPut
  pc_phase :: put_phase

record Server =
  sid :: int32
  scfg :: ClusterConfig
  st :: Store
  pending :: "int64 \<rightharpoonup> nat"
  leaderID :: int32
  calls :: "nat \<rightharpoonup> put_call"
  consumed :: nat

definition newServer :: "int32 \<Rightarrow> ClusterConfig \<Rightarrow> Server" where
  "newServer i cfg =
     \<lparr>sid = i, scfg = cfg, st = store_new, pending = (\<lambda>_. None), leaderID = -1,
      calls = (\<lambda>_. None), consumed = 0\<rparr>"

section \<open>Handlers\<close>

definition currentLeaderAddr :: "Server \<Rightarrow> string" where
  "currentLeaderAddr s =
     (let i = leaderID s in
      if i < 0 \<or> i \<ge> int (length (Nodes (scfg s))) then []
      else ClientAddr (Nodes (scfg s) ! nat i))"

definition put_begin :: "Server \<Rightarrow> Raft \<Rightarrow> nat \<Rightarrow> PutRequest \<Rightarrow> (Server \<times> Raft) go" where
  "put_begin s rf n req =
     then_do (Start rf (encodeCommand (put_key req) (put_value req)))
       (\<lambda>(rf', index, submittedTerm, isLeader).
          let cell = \<lparr>pp_term = submittedTerm, pp_closed = False\<rparr>;
              phase = (if \<not> isLeader then Refused else Submitted)
          in Some (s\<lparr>calls := (calls s)(n \<mapsto>
                      \<lparr>pc_req = req, pc_index = index, pc_term = submittedTerm, pc_cell = cell,
                       pc_phase = phase\<rparr>)\<rparr>, rf'))"

definition put_redirect :: "Server \<Rightarrow> nat \<Rightarrow> Server option" where
  "put_redirect s n =
     (case calls s n of
        Some call \<Rightarrow>
          (if pc_phase call = Refused
           then Some (s\<lparr>calls := (calls s)(n \<mapsto> call\<lparr>pc_phase :=
                  Returned (Inr \<lparr>pr_ok = False, pr_redirect = currentLeaderAddr s\<rparr>)\<rparr>)\<rparr>)
           else None)
      | None \<Rightarrow> None)"

definition put_register :: "Server \<Rightarrow> nat \<Rightarrow> Server option" where
  "put_register s n =
     (case calls s n of
        Some call \<Rightarrow>
          (if pc_phase call = Submitted
           then Some (s\<lparr>pending := (pending s)(pc_index call \<mapsto> n),
                        calls := (calls s)(n \<mapsto> call\<lparr>pc_phase := Waiting\<rparr>)\<rparr>)
           else None)
      | None \<Rightarrow> None)"

definition put_wake :: "Server \<Rightarrow> nat \<Rightarrow> Server option" where
  "put_wake s n =
     (case calls s n of
        Some call \<Rightarrow>
          (if pc_phase call = Waiting \<and> pp_closed (pc_cell call)
           then
             let result =
               (if pp_term (pc_cell call) \<noteq> pc_term call
                then Inl (Status Aborted ''leadership changed: entry may not have committed'')
                else Inr \<lparr>pr_ok = True, pr_redirect = []\<rparr>)
             in Some (s\<lparr>calls := (calls s)(n \<mapsto> call\<lparr>pc_phase := Returned result\<rparr>)\<rparr>)
           else None)
      | None \<Rightarrow> None)"

definition put_timeout :: "Server \<Rightarrow> nat \<Rightarrow> Server option" where
  "put_timeout s n =
     (case calls s n of
        Some call \<Rightarrow>
          (if pc_phase call = Waiting
           then Some (s\<lparr>pending := (pending s)(pc_index call := None),
                        calls := (calls s)(n \<mapsto> call\<lparr>pc_phase :=
                          Returned (Inl (Status DeadlineExceeded ''timed out waiting for commit''))\<rparr>)\<rparr>)
           else None)
      | None \<Rightarrow> None)"

definition Get :: "Server \<Rightarrow> string \<Rightarrow> GetResponse" where
  "Get s key =
     (case store_get (st s) key of
        (entry, found) \<Rightarrow> \<lparr>gr_found = found, gr_value = Value entry\<rparr>)"

text \<open>
  The outer option is the panic of indexing \<open>cfg.Nodes\<close> by the node's own id. The Raft state is read
  first, the server later.
\<close>

definition GetPrimary :: "Server \<Rightarrow> Raft \<Rightarrow> GetPrimaryResponse rpc go" where
  "GetPrimary s rf =
     (if snd (GetState rf) then
        then_do (slice_get (Nodes (scfg s)) (sid s))
          (\<lambda>n. Some (Inr \<lparr>gp_id = sid s, gp_addr = ClientAddr n\<rparr>))
      else
        let i = leaderID s in
        if i < 0 \<or> i \<ge> int (length (Nodes (scfg s)))
        then Some (Inl (Status Unavailable ''leader unknown''))
        else then_do (slice_get (Nodes (scfg s)) i)
               (\<lambda>n. Some (Inr \<lparr>gp_id = i, gp_addr = ClientAddr n\<rparr>)))"

text \<open>What the wrapper of \<open>AppendEntries\<close> does after the Raft handler returned.\<close>

definition note_leader :: "Server \<Rightarrow> AppendEntriesArgs \<Rightarrow> AppendEntriesReply \<Rightarrow> Server" where
  "note_leader s req reply =
     (if ar_Term reply = ae_Term req then s\<lparr>leaderID := ae_LeaderId req\<rparr> else s)"

section \<open>The apply loop\<close>

definition apply_command :: "Store \<Rightarrow> string \<Rightarrow> Store" where
  "apply_command s cmd =
     (case decodeCommand cmd of
        (op, key, val) \<Rightarrow> if op = ''put'' then store_put s key val else s)"

text \<open>
  One message: the store, then the waiting handler's cell. The two have separate locks; they are one step
  because \<open>Get\<close> is the only code that reads the store, and it does not touch \<open>pending\<close> or a cell.
\<close>

definition apply_msg :: "Server \<Rightarrow> ApplyMsg \<Rightarrow> Server" where
  "apply_msg s msg =
     (let s1 = s\<lparr>st := apply_command (st s) (am_Command msg), consumed := consumed s + 1\<rparr> in
      case pending s1 (am_Index msg) of
        Some n \<Rightarrow>
          s1\<lparr>pending := (pending s1)(am_Index msg := None),
             calls := (calls s1)(n := map_option
               (\<lambda>call. call\<lparr>pc_cell := \<lparr>pp_term = am_Term msg, pp_closed = True\<rparr>\<rparr>) (calls s1 n))\<rparr>
      | None \<Rightarrow> s1)"

section \<open>Coding of commands\<close>

lemma cut_at:
  "c \<notin> set a \<Longrightarrow> takeWhile (\<lambda>x. x \<noteq> c) (a @ c # b) = a"
  "c \<notin> set a \<Longrightarrow> dropWhile (\<lambda>x. x \<noteq> c) (a @ c # b) = c # b"
  by (induction a) auto

lemma splitN_free:
  "c \<notin> set s \<Longrightarrow> splitN (Suc (Suc n)) c (s @ c # r) = s # splitN (Suc n) c r"
  by (simp add: cut_at)

lemma decode_put:
  "decodeCommand (''put:'' @ r) =
     (case splitN 2 CHR '':'' r of
        [a] \<Rightarrow> (''put'', a, []) | a # b # _ \<Rightarrow> (''put'', a, b) | [] \<Rightarrow> ([], [], []))"
  by (auto simp: decodeCommand_def numeral_3_eq_3 numeral_2_eq_2 Let_def split: list.split)

lemma split_first:
  "splitN 2 c (s @ c # r) =
     (if c \<in> set s then takeWhile (\<lambda>x. x \<noteq> c) s # [tl (dropWhile (\<lambda>x. x \<noteq> c) s) @ c # r]
      else [s, r])"
proof (cases "c \<in> set s")
  case True
  then obtain a b where "s = a @ c # b" "c \<notin> set a" using split_list_first by metis
  then show ?thesis using splitN_free [of c a 0] by (simp add: numeral_2_eq_2 cut_at)
next
  case False
  then show ?thesis using splitN_free [of c s 0 r] by (simp add: numeral_2_eq_2)
qed

text \<open>What a command decodes to: the key is cut at its first colon.\<close>

lemma decode_encode:
  "decodeCommand (encodeCommand k v) =
     (if CHR '':'' \<in> set k
      then (''put'', takeWhile (\<lambda>x. x \<noteq> CHR '':'') k, tl (dropWhile (\<lambda>x. x \<noteq> CHR '':'') k) @ '':'' @ v)
      else (''put'', k, v))"
  using split_first [of "CHR '':''" k v] decode_put [of "k @ '':'' @ v"]
  by (simp add: encodeCommand_def)

lemma takeWhile_shorter: "c \<in> set s \<Longrightarrow> takeWhile (\<lambda>x. x \<noteq> c) s \<noteq> s"
  by (metis set_takeWhileD)

lemma decode_noop: "decodeCommand ''noop'' = ([], [], [])"
  by (simp add: decodeCommand_def numeral_3_eq_3 Let_def)

end
