(* ===== verification/KvSystem.thy ===== *)
theory KvSystem
  imports KvServer RaftTheorems
begin

text \<open>
  The replicated store: the Raft cluster with one server on every node. A step is a Raft event, a
  step of a \<open>Put\<close> handler, one message of a server's apply loop, or the note a server takes of the
  leader after an accepted \<open>AppendEntries\<close>. Commands enter the logs only through \<open>Put\<close> and the
  no-op entries of new leaders.
\<close>

section \<open>The system\<close>

record system =
  raft :: cluster
  servers :: "int32 \<Rightarrow> Server"

datatype kv_event =
    RaftEvent event
  | Begin int32 nat PutRequest
  | Redirect int32 nat
  | Register int32 nat
  | Wake int32 nat
  | TimeOut int32 nat
  | Consume int32
  | NoteLeader int32 int32 AppendEntriesArgs AppendEntriesReply

definition kv_initial :: "ClusterConfig \<Rightarrow> system \<Rightarrow> bool" where
  "kv_initial cfg sys \<longleftrightarrow>
     initial cfg (raft sys) \<and> (\<forall>i \<in> node_ids cfg. servers sys i = newServer i cfg)"

definition set_server :: "system \<Rightarrow> int32 \<Rightarrow> Server \<Rightarrow> system" where
  "set_server sys i s = sys\<lparr>servers := (servers sys)(i := s)\<rparr>"

fun is_submit :: "event \<Rightarrow> bool" where
  "is_submit (Submit i cmd) = True"
| "is_submit _ = False"

fun kv_enabled :: "ClusterConfig \<Rightarrow> system \<Rightarrow> kv_event \<Rightarrow> bool" where
  "kv_enabled cfg sys (RaftEvent ev) = (enabled cfg (raft sys) ev \<and> \<not> is_submit ev)"
| "kv_enabled cfg sys (Begin i n req) = (i \<in> node_ids cfg \<and> calls (servers sys i) n = None)"
| "kv_enabled cfg sys (Redirect i n) = (i \<in> node_ids cfg)"
| "kv_enabled cfg sys (Register i n) = (i \<in> node_ids cfg)"
| "kv_enabled cfg sys (Wake i n) = (i \<in> node_ids cfg)"
| "kv_enabled cfg sys (TimeOut i n) = (i \<in> node_ids cfg)"
| "kv_enabled cfg sys (Consume i) =
     (i \<in> node_ids cfg \<and> consumed (servers sys i) < length (commitCh (nodes (raft sys) i)))"
| "kv_enabled cfg sys (NoteLeader l p args reply) =
     (p \<in> node_ids cfg \<and> (l, p, args, reply) \<in> appReps (raft sys))"

fun kv_fire :: "system \<Rightarrow> kv_event \<Rightarrow> system option" where
  "kv_fire sys (RaftEvent ev) = map_option (\<lambda>c. sys\<lparr>raft := c\<rparr>) (fire (raft sys) ev)"
| "kv_fire sys (Begin i n req) =
     (case put_begin (servers sys i) (nodes (raft sys) i) n req of
        None \<Rightarrow> None
      | Some (s, rf) \<Rightarrow> Some ((set_server sys i s)\<lparr>raft := set_node (raft sys) i rf\<rparr>))"
| "kv_fire sys (Redirect i n) = map_option (set_server sys i) (put_redirect (servers sys i) n)"
| "kv_fire sys (Register i n) = map_option (set_server sys i) (put_register (servers sys i) n)"
| "kv_fire sys (Wake i n) = map_option (set_server sys i) (put_wake (servers sys i) n)"
| "kv_fire sys (TimeOut i n) = map_option (set_server sys i) (put_timeout (servers sys i) n)"
| "kv_fire sys (Consume i) =
     Some (set_server sys i
       (apply_msg (servers sys i) (commitCh (nodes (raft sys) i) ! consumed (servers sys i))))"
| "kv_fire sys (NoteLeader l p args reply) =
     Some (set_server sys p (note_leader (servers sys p) args reply))"

inductive kv_step :: "ClusterConfig \<Rightarrow> system \<Rightarrow> system \<Rightarrow> bool" for cfg where
  kv_fires: "kv_enabled cfg sys ev \<Longrightarrow> kv_fire sys ev = Some sys' \<Longrightarrow> kv_step cfg sys sys'"

inductive_simps kv_step_iff: "kv_step cfg sys sys'"

inductive kv_reachable :: "ClusterConfig \<Rightarrow> system \<Rightarrow> bool" for cfg where
  kv_boot: "kv_initial cfg sys \<Longrightarrow> kv_reachable cfg sys"
| kv_next: "kv_reachable cfg sys \<Longrightarrow> kv_step cfg sys sys' \<Longrightarrow> kv_reachable cfg sys'"

fun kv_run :: "ClusterConfig \<Rightarrow> system \<Rightarrow> kv_event list \<Rightarrow> system option" where
  "kv_run cfg sys [] = Some sys"
| "kv_run cfg sys (ev # evs) =
     (if kv_enabled cfg sys ev then
        (case kv_fire sys ev of None \<Rightarrow> None | Some sys' \<Rightarrow> kv_run cfg sys' evs)
      else None)"

lemma kv_run_reachable:
  "kv_reachable cfg sys \<Longrightarrow> kv_run cfg sys evs = Some sys' \<Longrightarrow> kv_reachable cfg sys'"
  by (induction evs arbitrary: sys)
    (auto split: if_splits option.splits, blast intro: kv_next kv_fires)

section \<open>The invariant of the servers\<close>

definition replayed :: "ApplyMsg list \<Rightarrow> Store" where
  "replayed msgs = foldl (\<lambda>s m. apply_command s (am_Command m)) store_new msgs"

text \<open>A call whose command is in the log of its term's leader, at its index.\<close>

definition issued :: "proto \<Rightarrow> put_call \<Rightarrow> bool" where
  "issued s call \<longleftrightarrow>
     elect s (pc_term call) \<noteq> None \<and> 0 < pc_index call \<and>
     nat (pc_index call) < length (tlog s (pc_term call)) \<and>
     tlog s (pc_term call) ! nat (pc_index call) =
       \<lparr>le_Index = pc_index call, le_Term = pc_term call,
        le_Command = encodeCommand (put_key (pc_req call)) (put_value (pc_req call))\<rparr>"

text \<open>A message of the consumed ones carries the call's index and the given term.\<close>

definition delivered :: "ApplyMsg list \<Rightarrow> put_call \<Rightarrow> int64 \<Rightarrow> bool" where
  "delivered msgs call t \<longleftrightarrow>
     (\<exists>m \<in> set msgs. am_Index m = pc_index call \<and> am_Term m = t)"

definition call_ok :: "proto \<Rightarrow> ApplyMsg list \<Rightarrow> put_call \<Rightarrow> bool" where
  "call_ok s msgs call \<longleftrightarrow>
     (case pc_phase call of
        Returned (Inr r) \<Rightarrow>
          pr_ok r \<longrightarrow> issued s call \<and> delivered msgs call (pc_term call)
      | Returned (Inl e) \<Rightarrow>
          issued s call \<and>
          (case e of Status cd msg \<Rightarrow>
             cd = Aborted \<longrightarrow> (\<exists>t. t \<noteq> pc_term call \<and> delivered msgs call t))
      | Refused \<Rightarrow> True
      | _ \<Rightarrow> issued s call) \<and>
     (pp_closed (pc_cell call) \<longrightarrow> delivered msgs call (pp_term (pc_cell call)))"

definition server_ok :: "ClusterConfig \<Rightarrow> proto \<Rightarrow> int32 \<Rightarrow> Raft \<Rightarrow> Server \<Rightarrow> bool" where
  "server_ok cfg s i rf srv \<longleftrightarrow>
     sid srv = i \<and> scfg srv = cfg \<and> (leaderID srv = -1 \<or> leaderID srv \<in> node_ids cfg) \<and>
     consumed srv \<le> length (commitCh rf) \<and>
     st srv = replayed (take (consumed srv) (commitCh rf)) \<and>
     (\<forall>n call. calls srv n = Some call \<longrightarrow> call_ok s (take (consumed srv) (commitCh rf)) call) \<and>
     (\<forall>k n. pending srv k = Some n \<longrightarrow> (\<exists>call. calls srv n = Some call \<and> pc_index call = k))"

definition kv_sim :: "ClusterConfig \<Rightarrow> system \<Rightarrow> proto \<Rightarrow> bool" where
  "kv_sim cfg sys s \<longleftrightarrow>
     sim cfg (raft sys) s \<and>
     (\<forall>i \<in> node_ids cfg. server_ok cfg s i (nodes (raft sys) i) (servers sys i))"

lemma issued_grows:
  assumes "grows s s'" and "issued s call"
  shows "issued s' call"
proof -
  have el: "elect s (pc_term call) \<noteq> None" and len: "nat (pc_index call) < length (tlog s (pc_term call))"
    using assms(2) by (auto simp: issued_def)
  show ?thesis
    using assms(2) grows_elected [OF assms(1) el] grows_tlog_length [OF assms(1) el]
      grows_tlog_nth [OF assms(1) el len] unfolding issued_def by auto
qed

lemma delivered_mono: "set msgs \<subseteq> set msgs' \<Longrightarrow> delivered msgs call t \<Longrightarrow> delivered msgs' call t"
  unfolding delivered_def by blast

lemma issued_frame [simp]:
  "issued s (call\<lparr>pc_phase := ph\<rparr>) = issued s call" "issued s (call\<lparr>pc_cell := cell\<rparr>) = issued s call"
  by (simp_all add: issued_def)

lemma delivered_frame [simp]:
  "delivered msgs (call\<lparr>pc_phase := ph\<rparr>) t = delivered msgs call t"
  "delivered msgs (call\<lparr>pc_cell := cell\<rparr>) t = delivered msgs call t"
  by (simp_all add: delivered_def)

text \<open>An open call that goes on waiting or fails.\<close>

lemma call_ok_open:
  "call_ok s msgs call \<Longrightarrow> pc_phase call = Submitted \<or> pc_phase call = Waiting \<Longrightarrow>
     ph = Waiting \<or> ph = Returned (Inl (Status DeadlineExceeded m)) \<Longrightarrow> call_ok s msgs (call\<lparr>pc_phase := ph\<rparr>)"
  by (auto simp: call_ok_def)

lemma call_ok_mono:
  assumes "grows s s'" and "set msgs \<subseteq> set msgs'" and "call_ok s msgs call"
  shows "call_ok s' msgs' call"
  using assms issued_grows [OF assms(1)] delivered_mono [OF assms(2)]
  unfolding call_ok_def by (auto split: put_phase.splits sum.splits status.splits)

lemma server_ok_grows:
  assumes "grows s s'" and "node_grows rf rf'" and "server_ok cfg s i rf srv"
  shows "server_ok cfg s' i rf' srv"
proof -
  have p: "prefix (commitCh rf) (commitCh rf')" using assms(2) by (simp add: node_grows_def)
  then have len: "length (commitCh rf) \<le> length (commitCh rf')" by (simp add: prefix_length_le)
  have le: "consumed srv \<le> length (commitCh rf)" using assms(3) by (simp add: server_ok_def)
  then have "take (consumed srv) (commitCh rf') = take (consumed srv) (commitCh rf)"
    using p by (auto simp: prefix_def)
  then show ?thesis
    using assms(3) len le call_ok_mono [OF assms(1) order_refl] by (auto simp: server_ok_def)
qed

section \<open>Every step preserves the invariant\<close>

lemma kv_sim_advance:
  assumes "kv_sim cfg sys s" and "advances cfg (raft sys) s c' s'"
  shows "kv_sim cfg (sys\<lparr>raft := c'\<rparr>) s'"
  using assms server_ok_grows unfolding kv_sim_def advances_def by fastforce

lemma kv_sim_server:
  "kv_sim cfg sys s \<Longrightarrow> server_ok cfg s i (nodes (raft sys) i) srv \<Longrightarrow> kv_sim cfg (set_server sys i srv) s"
  by (simp add: kv_sim_def set_server_def)

lemma kv_sim_at:
  "kv_sim cfg sys s \<Longrightarrow> i \<in> node_ids cfg \<Longrightarrow> server_ok cfg s i (nodes (raft sys) i) (servers sys i)"
  by (simp add: kv_sim_def)

lemma server_ok_call:
  assumes ok: "server_ok cfg s i rf srv" and c: "call_ok s (take (consumed srv) (commitCh rf)) call"
    and idx: "\<And>old. calls srv n = Some old \<Longrightarrow> pc_index call = pc_index old"
  shows "server_ok cfg s i rf (srv\<lparr>calls := (calls srv)(n \<mapsto> call)\<rparr>)"
proof -
  have "\<exists>c'. ((calls srv)(n \<mapsto> call)) m = Some c' \<and> pc_index c' = k" if "pending srv k = Some m" for k m
    using ok that idx unfolding server_ok_def by (cases "m = n") fastforce+
  then show ?thesis using ok c unfolding server_ok_def by simp
qed

lemma server_ok_pending:
  "server_ok cfg s i rf srv \<Longrightarrow> (\<And>k n. f k = Some n \<Longrightarrow> \<exists>call. calls srv n = Some call \<and> pc_index call = k) \<Longrightarrow>
     server_ok cfg s i rf (srv\<lparr>pending := f\<rparr>)"
  by (simp add: server_ok_def)

lemma server_ok_redirect:
  assumes ok: "server_ok cfg s i rf srv" and r: "put_redirect srv n = Some srv'"
  shows "server_ok cfg s i rf srv'"
proof -
  let ?ph = "Returned (Inr \<lparr>pr_ok = False, pr_redirect = currentLeaderAddr srv\<rparr>)"
  obtain call where call: "calls srv n = Some call"
    "srv' = srv\<lparr>calls := (calls srv)(n \<mapsto> call\<lparr>pc_phase := ?ph\<rparr>)\<rparr>"
    using r by (auto simp: put_redirect_def split: option.splits if_splits)
  have "call_ok s (take (consumed srv) (commitCh rf)) call" using ok call(1) by (simp add: server_ok_def)
  then have "call_ok s (take (consumed srv) (commitCh rf)) (call\<lparr>pc_phase := ?ph\<rparr>)" by (simp add: call_ok_def)
  then show ?thesis unfolding call(2) by (rule server_ok_call [OF ok]) (use call(1) in auto)
qed

lemma server_ok_register:
  assumes ok: "server_ok cfg s i rf srv" and r: "put_register srv n = Some srv'"
  shows "server_ok cfg s i rf srv'"
proof -
  obtain call where call: "calls srv n = Some call" "pc_phase call = Submitted"
    "srv' = srv\<lparr>pending := (pending srv)(pc_index call \<mapsto> n), calls := (calls srv)(n \<mapsto> call\<lparr>pc_phase := Waiting\<rparr>)\<rparr>"
    using r by (auto simp: put_register_def split: option.splits if_splits)
  have c: "call_ok s (take (consumed srv) (commitCh rf)) (call\<lparr>pc_phase := Waiting\<rparr>)"
    by (rule call_ok_open) (use ok call(1,2) in \<open>auto simp: server_ok_def\<close>)
  let ?s1 = "srv\<lparr>pending := (pending srv)(pc_index call \<mapsto> n)\<rparr>"
  have "server_ok cfg s i rf ?s1"
    by (rule server_ok_pending [OF ok]) (use ok call(1) in \<open>auto simp: server_ok_def split: if_splits\<close>)
  then have "server_ok cfg s i rf (?s1\<lparr>calls := (calls ?s1)(n \<mapsto> call\<lparr>pc_phase := Waiting\<rparr>)\<rparr>)"
    by (rule server_ok_call) (use c call(1) in auto)
  then show ?thesis by (simp add: call(3))
qed

lemma server_ok_wake:
  assumes ok: "server_ok cfg s i rf srv" and r: "put_wake srv n = Some srv'"
  shows "server_ok cfg s i rf srv'"
proof -
  obtain call result where call: "calls srv n = Some call" "pc_phase call = Waiting"
    "pp_closed (pc_cell call)"
    "srv' = srv\<lparr>calls := (calls srv)(n \<mapsto> call\<lparr>pc_phase := Returned result\<rparr>)\<rparr>"
    "result = (if pp_term (pc_cell call) \<noteq> pc_term call
       then Inl (Status Aborted ''leadership changed: entry may not have committed'')
       else Inr \<lparr>pr_ok = True, pr_redirect = []\<rparr>)"
    using r by (auto simp: put_wake_def Let_def split: option.splits if_splits)
  have old: "call_ok s (take (consumed srv) (commitCh rf)) call" using ok call(1) by (simp add: server_ok_def)
  then have "call_ok s (take (consumed srv) (commitCh rf)) (call\<lparr>pc_phase := Returned result\<rparr>)"
    using call(2,3,5) by (auto simp: call_ok_def)
  then show ?thesis unfolding call(4) by (rule server_ok_call [OF ok]) (use call(1) in auto)
qed

lemma server_ok_timeout:
  assumes ok: "server_ok cfg s i rf srv" and r: "put_timeout srv n = Some srv'"
  shows "server_ok cfg s i rf srv'"
proof -
  let ?dl = "Returned (Inl (Status DeadlineExceeded ''timed out waiting for commit''))"
  obtain call where call: "calls srv n = Some call" "pc_phase call = Waiting"
    "srv' = srv\<lparr>pending := (pending srv)(pc_index call := None),
       calls := (calls srv)(n \<mapsto> call\<lparr>pc_phase := ?dl\<rparr>)\<rparr>"
    using r by (auto simp: put_timeout_def split: option.splits if_splits)
  have c: "call_ok s (take (consumed srv) (commitCh rf)) (call\<lparr>pc_phase := ?dl\<rparr>)"
    by (rule call_ok_open) (use ok call(1,2) in \<open>auto simp: server_ok_def\<close>)
  let ?s1 = "srv\<lparr>pending := (pending srv)(pc_index call := None)\<rparr>"
  have "server_ok cfg s i rf ?s1"
    by (rule server_ok_pending [OF ok]) (use ok in \<open>auto simp: server_ok_def split: if_splits\<close>)
  then have "server_ok cfg s i rf (?s1\<lparr>calls := (calls ?s1)(n \<mapsto> call\<lparr>pc_phase := ?dl\<rparr>)\<rparr>)"
    by (rule server_ok_call) (use c call(1) in auto)
  then show ?thesis by (simp add: call(3))
qed

lemma replayed_snoc: "replayed (ms @ [m]) = apply_command (replayed ms) (am_Command m)"
  by (simp add: replayed_def)

lemma server_ok_consume:
  assumes ok: "server_ok cfg s i rf srv" and more: "consumed srv < length (commitCh rf)"
  shows "server_ok cfg s i rf (apply_msg srv (commitCh rf ! consumed srv))"
proof -
  let ?m = "commitCh rf ! consumed srv" and ?old = "take (consumed srv) (commitCh rf)"
  let ?new = "take (Suc (consumed srv)) (commitCh rf)"
  have tk: "?new = ?old @ [?m]" using more by (rule take_Suc_conv_app_nth)
  let ?s1 = "srv\<lparr>st := apply_command (st srv) (am_Command ?m), consumed := consumed srv + 1\<rparr>"
  have mono: "call_ok s ?new call" if "call_ok s ?old call" for call
    using call_ok_mono [OF grows_refl _ that] by (simp add: tk subset_insertI)
  have ok1: "server_ok cfg s i rf ?s1"
    using ok more mono unfolding server_ok_def by (auto simp: tk replayed_snoc)
  show ?thesis
  proof (cases "pending srv (am_Index ?m)")
    case None
    then show ?thesis using ok1 by (simp add: apply_msg_def Let_def)
  next
    case (Some n)
    then obtain call where call: "calls srv n = Some call" "pc_index call = am_Index ?m"
      using ok unfolding server_ok_def by blast
    let ?call = "call\<lparr>pc_cell := \<lparr>pp_term = am_Term ?m, pp_closed = True\<rparr>\<rparr>"
    let ?s2 = "?s1\<lparr>pending := (pending srv)(am_Index ?m := None)\<rparr>"
    have "server_ok cfg s i rf ?s2"
      by (rule server_ok_pending [OF ok1]) (use ok in \<open>auto simp: server_ok_def split: if_splits\<close>)
    moreover have "call_ok s ?new call" using ok call(1) mono by (simp add: server_ok_def)
    then have "call_ok s ?new ?call"
      using call(2) by (auto simp: call_ok_def delivered_def tk split: put_phase.splits sum.splits status.splits)
    ultimately have "server_ok cfg s i rf (?s2\<lparr>calls := (calls ?s2)(n \<mapsto> ?call)\<rparr>)"
      by (intro server_ok_call) (use call in auto)
    then show ?thesis using Some call(1) by (simp add: apply_msg_def Let_def)
  qed
qed

text \<open>A command accepted by a leader is in its log at the index and term it reports.\<close>

lemma submit_issued:
  assumes sim: "sim cfg c' s'" and i: "i \<in> node_ids cfg" and ld: "rstate rf = Leader"
    and wf: "wf_log (log rf)" and rf': "nodes c' i = rf'"
    and st: "Start rf (encodeCommand (put_key req) (put_value req)) = Some (rf', index, t, True)"
    and call: "pc_req call = req" "pc_index call = index" "pc_term call = t"
  shows "issued s' call"
proof -
  let ?e = "command_entry rf (encodeCommand (put_key req) (put_value req))"
  have S: "rf' = rf\<lparr>log := (log rf)\<lparr>entries := entries (log rf) @ [?e]\<rparr>\<rparr>"
    "index = LastIndex (log rf) + 1" "t = currentTerm rf"
    using st Start_leader [OF ld] by auto
  have pr: "protocol_reachable (is_majority cfg) s'" using sim by (simp add: sim_def)
  have "rstate (nodes c' i) = Leader" using ld S(1) rf' by simp
  note L = leader_tlog [OF sim_node [OF sim i] pr this]
  have "tlog s' t = entries (log rf) @ [?e]"
    using L(1) sim_parts(2) [OF sim i] S(1,3) rf' by simp
  moreover have "nat index = length (entries (log rf))" "0 < index"
    using S(2) log_nonempty [OF wf] by (auto simp: LastIndex_def)
  moreover have "elect s' t \<noteq> None" using L(2) S(1,3) rf' by auto
  ultimately show ?thesis using call S(2,3) by (simp add: issued_def command_entry_def)
qed

lemma set_server_raft: "set_server (sys\<lparr>raft := c\<rparr>) i srv = (set_server sys i srv)\<lparr>raft := c\<rparr>"
  by (cases sys) (simp add: set_server_def)

lemma kv_sim_begin:
  assumes pos: "positional cfg" and ks: "kv_sim cfg sys s" and i: "i \<in> node_ids cfg"
    and fresh: "calls (servers sys i) n = None"
  shows "\<exists>sys' s'. kv_fire sys (Begin i n req) = Some sys' \<and> kv_sim cfg sys' s' \<and>
    advances cfg (raft sys) s (raft sys') s'"
proof -
  let ?cmd = "encodeCommand (put_key req) (put_value req)" and ?rf = "nodes (raft sys) i"
  let ?srv = "servers sys i"
  have sim: "sim cfg (raft sys) s" using ks by (simp add: kv_sim_def)
  obtain c' s' where c': "fire_submit (raft sys) i ?cmd = Some c'" "advances cfg (raft sys) s c' s'"
    using sim_submit [OF pos sim i] by blast
  obtain rf' index t ld where st: "Start ?rf ?cmd = Some (rf', index, t, ld)"
    using c'(1) by (auto simp: fire_submit_def split: option.splits)
  have c'_eq: "c' = set_node (raft sys) i rf'" using c'(1) st by (simp add: fire_submit_def)
  let ?call = "\<lparr>pc_req = req, pc_index = index, pc_term = t,
    pc_cell = \<lparr>pp_term = t, pp_closed = False\<rparr>,
    pc_phase = (if \<not> ld then Refused else Submitted)\<rparr>"
  let ?srv' = "?srv\<lparr>calls := (calls ?srv)(n \<mapsto> ?call)\<rparr>"
  have f: "kv_fire sys (Begin i n req) = Some ((set_server sys i ?srv')\<lparr>raft := c'\<rparr>)"
    using st c'_eq by (simp add: put_begin_def Let_def)
  have ks': "kv_sim cfg (sys\<lparr>raft := c'\<rparr>) s'" using kv_sim_advance [OF ks c'(2)] .
  have sim': "sim cfg c' s'" using c'(2) by (simp add: advances_def)
  have wf: "wf_log (log ?rf)" using sim_node [OF sim i] by (simp add: node_ok_def shape_ok_def)
  have iss: "issued s' ?call" if "ld"
  proof -
    have "rstate ?rf = Leader" using st that by (auto simp: Start_def split: if_splits)
    then show ?thesis using submit_issued [OF sim' i _ wf _ _] st that by (simp add: c'_eq set_node_def)
  qed
  have "server_ok cfg s' i (nodes c' i) ?srv'"
  proof (rule server_ok_call)
    show "server_ok cfg s' i (nodes c' i) ?srv" using kv_sim_at [OF ks' i] by simp
    show "call_ok s' (take (consumed ?srv) (commitCh (nodes c' i))) ?call"
      using iss by (auto simp: call_ok_def)
  qed (use fresh in simp)
  then have "kv_sim cfg (set_server (sys\<lparr>raft := c'\<rparr>) i ?srv') s'" using kv_sim_server [OF ks'] by simp
  then have "kv_sim cfg ((set_server sys i ?srv')\<lparr>raft := c'\<rparr>) s'" unfolding set_server_raft .
  then show ?thesis using f c'(2) by auto
qed

lemma kv_sim_note:
  assumes ks: "kv_sim cfg sys s" and p: "p \<in> node_ids cfg" and en: "(l, p, args, reply) \<in> appReps (raft sys)"
    and ld: "\<And>m. m \<in> appReps (raft sys) \<Longrightarrow> fst m = ae_LeaderId (fst (snd (snd m)))"
  shows "kv_sim cfg (set_server sys p (note_leader (servers sys p) args reply)) s"
proof (rule kv_sim_server [OF ks])
  have "arep_ok cfg s (l, p, args, reply)" using ks en by (auto simp: kv_sim_def sim_def msgs_ok_def)
  then have "ae_LeaderId args \<in> node_ids cfg" using ld [OF en] by (simp add: arep_ok_def)
  then show "server_ok cfg s p (nodes (raft sys) p) (note_leader (servers sys p) args reply)"
    using kv_sim_at [OF ks p] by (simp add: server_ok_def note_leader_def)
qed

text \<open>Every reply goes back to the leader that its request names.\<close>

definition replies_addressed :: "cluster \<Rightarrow> bool" where
  "replies_addressed c \<longleftrightarrow> (\<forall>m \<in> appReps c. fst m = ae_LeaderId (fst (snd (snd m))))"

lemma replies_addressed_fire: "replies_addressed c \<Longrightarrow> fire c ev = Some c' \<Longrightarrow> replies_addressed c'"
  unfolding replies_addressed_def
  by (cases ev)
    (auto simp: fire_timeout_def set_node_def fire_deliver_vote_def fire_receive_vote_def
      fire_replicate_def fire_deliver_append_def fire_receive_append_def fire_submit_def
      split: option.splits prod.splits)

definition kv_inv :: "ClusterConfig \<Rightarrow> system \<Rightarrow> proto \<Rightarrow> bool" where
  "kv_inv cfg sys s \<longleftrightarrow> replies_addressed (raft sys) \<and> kv_sim cfg sys s"

definition kv_advances :: "ClusterConfig \<Rightarrow> system \<Rightarrow> proto \<Rightarrow> system \<Rightarrow> proto \<Rightarrow> bool" where
  "kv_advances cfg sys s sys' s' \<longleftrightarrow>
     kv_inv cfg sys' s' \<and> advances cfg (raft sys) s (raft sys') s'"

lemma kv_advances_server:
  assumes inv: "kv_inv cfg sys s" and "i \<in> node_ids cfg"
    and "server_ok cfg s i (nodes (raft sys) i) (servers sys i) \<Longrightarrow>
         server_ok cfg s i (nodes (raft sys) i) srv"
  shows "kv_advances cfg sys s (set_server sys i srv) s"
proof -
  have s: "kv_sim cfg sys s" and ra: "replies_addressed (raft sys)" using inv by (auto simp: kv_inv_def)
  have "kv_sim cfg (set_server sys i srv) s"
    by (rule kv_sim_server [OF s assms(3) [OF kv_sim_at [OF s assms(2)]]])
  moreover have "raft (set_server sys i srv) = raft sys" by (simp add: set_server_def)
  moreover have "advances cfg (raft sys) s (raft sys) s"
    using s by (simp add: kv_sim_def advances_refl)
  ultimately show ?thesis using ra by (simp add: kv_advances_def kv_inv_def)
qed

lemma kv_inv_fire:
  assumes pos: "positional cfg" and inv: "kv_inv cfg sys s" and en: "kv_enabled cfg sys ev"
    and f: "kv_fire sys ev = Some sys'"
  shows "\<exists>s'. kv_advances cfg sys s sys' s'"
proof -
  have s: "kv_sim cfg sys s" and ra: "replies_addressed (raft sys)"
    using inv by (auto simp: kv_inv_def)
  have sim: "sim cfg (raft sys) s" using s by (simp add: kv_sim_def)
  show ?thesis
  proof (cases ev)
    case (RaftEvent e)
    then obtain c' where c': "fire (raft sys) e = Some c'" "sys' = sys\<lparr>raft := c'\<rparr>" "enabled cfg (raft sys) e"
      using f en by auto
    obtain s' where adv: "advances cfg (raft sys) s c' s'" using sim_fire [OF pos sim c'(3)] c'(1) by auto
    then have "kv_sim cfg sys' s'" using kv_sim_advance [OF s] c'(2) by simp
    then have "kv_advances cfg sys s sys' s'"
      using replies_addressed_fire [OF ra c'(1)] c'(2) adv by (simp add: kv_inv_def kv_advances_def)
    then show ?thesis ..
  next
    case (Begin i n req)
    then have b: "i \<in> node_ids cfg" "calls (servers sys i) n = None" using en by auto
    obtain x s' where "kv_fire sys (Begin i n req) = Some x" "kv_sim cfg x s'"
      "advances cfg (raft sys) s (raft x) s'"
      using kv_sim_begin [OF pos s b] by blast
    then have "kv_sim cfg sys' s'" "advances cfg (raft sys) s (raft sys') s'" using f unfolding Begin by simp_all
    moreover have "appReps (raft sys') = appReps (raft sys)"
      using f Begin by (auto simp: set_server_def set_node_def split: option.splits prod.splits)
    ultimately have "kv_advances cfg sys s sys' s'"
      using ra unfolding kv_advances_def kv_inv_def replies_addressed_def by auto
    then show ?thesis ..
  next
    case (Redirect i n)
    then obtain srv where "i \<in> node_ids cfg" "put_redirect (servers sys i) n = Some srv"
      "sys' = set_server sys i srv" using en f by auto
    then show ?thesis using kv_advances_server [OF inv] server_ok_redirect by blast
  next
    case (Register i n)
    then obtain srv where "i \<in> node_ids cfg" "put_register (servers sys i) n = Some srv"
      "sys' = set_server sys i srv" using en f by auto
    then show ?thesis using kv_advances_server [OF inv] server_ok_register by blast
  next
    case (Wake i n)
    then obtain srv where "i \<in> node_ids cfg" "put_wake (servers sys i) n = Some srv"
      "sys' = set_server sys i srv" using en f by auto
    then show ?thesis using kv_advances_server [OF inv] server_ok_wake by blast
  next
    case (TimeOut i n)
    then obtain srv where "i \<in> node_ids cfg" "put_timeout (servers sys i) n = Some srv"
      "sys' = set_server sys i srv" using en f by auto
    then show ?thesis using kv_advances_server [OF inv] server_ok_timeout by blast
  next
    case (Consume i)
    then have "i \<in> node_ids cfg" "consumed (servers sys i) < length (commitCh (nodes (raft sys) i))"
      "sys' = set_server sys i
        (apply_msg (servers sys i) (commitCh (nodes (raft sys) i) ! consumed (servers sys i)))"
      using en f by auto
    then show ?thesis using kv_advances_server [OF inv] server_ok_consume by blast
  next
    case (NoteLeader l p args reply)
    then have n: "p \<in> node_ids cfg" "(l, p, args, reply) \<in> appReps (raft sys)"
      "sys' = set_server sys p (note_leader (servers sys p) args reply)"
      using en f by auto
    have "kv_sim cfg sys' s"
      unfolding n(3) by (rule kv_sim_note [OF s n(1,2)]) (use ra in \<open>simp add: replies_addressed_def\<close>)
    moreover have "raft sys' = raft sys" using n(3) by (simp add: set_server_def)
    ultimately have "kv_advances cfg sys s sys' s"
      using ra sim advances_refl unfolding kv_advances_def kv_inv_def by auto
    then show ?thesis ..
  qed
qed

lemma kv_inv_initial: "kv_initial cfg sys \<Longrightarrow> kv_inv cfg sys proto_init"
proof -
  assume init: "kv_initial cfg sys"
  have "sim cfg (raft sys) proto_init" using init sim_initial by (simp add: kv_initial_def)
  moreover have "server_ok cfg proto_init i (nodes (raft sys) i) (servers sys i)" if "i \<in> node_ids cfg" for i
    using init that by (simp add: kv_initial_def server_ok_def newServer_def replayed_def)
  ultimately show ?thesis
    using init by (simp add: kv_inv_def kv_sim_def replies_addressed_def kv_initial_def initial_def)
qed

lemma kv_reachable_inv:
  assumes pos: "positional cfg" and "kv_reachable cfg sys"
  shows "\<exists>s. kv_inv cfg sys s"
  using assms(2)
proof (induction rule: kv_reachable.induct)
  case (kv_boot sys)
  then show ?case using kv_inv_initial by blast
next
  case (kv_next sys sys')
  then show ?case using kv_inv_fire [OF pos] by (fastforce simp: kv_step_iff kv_advances_def)
qed

section \<open>Across time\<close>

definition kv_later :: "ClusterConfig \<Rightarrow> system \<Rightarrow> system \<Rightarrow> bool" where
  "kv_later cfg sys sys' \<longleftrightarrow> rtranclp (kv_step cfg) sys sys'"

lemma kv_later_refl [simp]: "kv_later cfg sys sys"
  by (simp add: kv_later_def)

lemma kv_run_later: "kv_run cfg sys evs = Some sys' \<Longrightarrow> kv_later cfg sys sys'"
  unfolding kv_later_def
  by (induction evs arbitrary: sys)
    (auto split: if_splits option.splits intro: converse_rtranclp_into_rtranclp kv_fires)

lemma kv_advances_trans:
  "kv_advances cfg a s b s' \<Longrightarrow> kv_advances cfg b s' c s'' \<Longrightarrow> kv_advances cfg a s c s''"
  using advances_trans unfolding kv_advances_def by blast

lemma kv_inv_later:
  assumes pos: "positional cfg" and "kv_later cfg sys sys'" and inv: "kv_inv cfg sys s"
  shows "\<exists>s'. kv_advances cfg sys s sys' s'"
  using assms(2) unfolding kv_later_def
proof (induction rule: rtranclp_induct)
  case base
  have "sim cfg (raft sys) s" using inv by (simp add: kv_inv_def kv_sim_def)
  then show ?case using inv advances_refl unfolding kv_advances_def by blast
next
  case (step x y)
  then obtain s' where s': "kv_advances cfg sys s x s'" by blast
  then have "kv_inv cfg x s'" by (simp add: kv_advances_def)
  moreover obtain ev where "kv_enabled cfg x ev" "kv_fire x ev = Some y"
    using step.hyps(2) by (auto simp: kv_step_iff)
  ultimately obtain s'' where "kv_advances cfg x s' y s''" using kv_inv_fire [OF pos] by blast
  then show ?case using kv_advances_trans [OF s'] by blast
qed

lemma kv_reachable_later:
  assumes "positional cfg" and "kv_reachable cfg sys" and "kv_later cfg sys sys'"
  obtains s s' where "kv_inv cfg sys s" and "kv_advances cfg sys s sys' s'"
  using kv_reachable_inv [OF assms(1,2)] kv_inv_later [OF assms(1,3)] by blast

end
