(* ===== verification/KvExecutions.thy ===== *)
theory KvExecutions
  imports KvSystem
begin

text \<open>
  Concrete executions of the replicated store on three nodes: node 0 is elected, a client puts
  \<open>x = 1\<close> there, the entry reaches node 1, is committed, applied and acknowledged; in the second one
  the entry is committed and consumed before the handler registers.
\<close>

definition boot_sys :: system where
  "boot_sys = \<lparr>raft = boot_of three, servers = (\<lambda>i. newServer i three)\<rparr>"

lemma boot_sys_initial: "kv_initial three boot_sys"
  by (simp add: kv_initial_def boot_sys_def boot_of_initial)

definition x_request :: PutRequest where
  "x_request = \<lparr>put_key = ''x'', put_value = ''1''\<rparr>"

definition x_entry :: LogEntry where
  "x_entry = \<lparr>le_Index = 2, le_Term = 1, le_Command = ''put:x:1''\<rparr>"

definition x_append :: AppendEntriesArgs where
  "x_append = first_append\<lparr>ae_Entries := [first_noop, x_entry]\<rparr>"

definition x_append_commit :: AppendEntriesArgs where
  "x_append_commit = \<lparr>ae_Term = 1, ae_LeaderId = 0, ae_PrevLogIndex = 2, ae_PrevLogTerm = 1,
     ae_Entries = [], ae_LeaderCommit = 2\<rparr>"

definition commit_x :: "kv_event list" where
  "commit_x = map RaftEvent [Replicate 0 1, DeliverAppend 1 x_append,
     ReceiveAppend 0 1 x_append accepted, ApplyEntry 0, ApplyEntry 0] @ [Consume 0, Consume 0]"

definition put_x :: "kv_event list" where
  "put_x = map RaftEvent win_first @ [Begin 0 0 x_request, Register 0 0] @ commit_x @ [Wake 0 0]"

text \<open>The follower learns the commit index and applies both entries.\<close>

definition follow_x :: "kv_event list" where
  "follow_x = map RaftEvent [Replicate 0 1, DeliverAppend 1 x_append_commit, ApplyEntry 1, ApplyEntry 1] @
     [NoteLeader 0 1 x_append_commit accepted, Consume 1, Consume 1]"

definition late_x :: "kv_event list" where
  "late_x = map RaftEvent win_first @ [Begin 0 0 x_request] @ commit_x"

definition acked :: system where
  "acked = the (kv_run three boot_sys put_x)"

definition followed :: system where
  "followed = the (kv_run three acked follow_x)"

definition late :: system where
  "late = the (kv_run three boot_sys late_x)"

definition late_done :: system where
  "late_done = the (kv_run three late [Register 0 0, TimeOut 0 0])"

lemma run_acked: "kv_run three boot_sys put_x = Some acked"
proof -
  have "kv_run three boot_sys put_x \<noteq> None" by code_simp
  then show ?thesis by (simp add: acked_def)
qed

lemma run_followed: "kv_run three acked follow_x = Some followed"
proof -
  have "kv_run three acked follow_x \<noteq> None" by code_simp
  then show ?thesis by (simp add: followed_def)
qed

lemma run_late: "kv_run three boot_sys late_x = Some late"
proof -
  have "kv_run three boot_sys late_x \<noteq> None" by code_simp
  then show ?thesis by (simp add: late_def)
qed

lemma run_late_done: "kv_run three late [Register 0 0, TimeOut 0 0] = Some late_done"
proof -
  have "kv_run three late [Register 0 0, TimeOut 0 0] \<noteq> None" by code_simp
  then show ?thesis by (simp add: late_done_def)
qed

lemma reachable_acked: "kv_reachable three acked"
  using kv_run_reachable [OF kv_boot [OF boot_sys_initial] run_acked] .

lemma reachable_followed: "kv_reachable three followed"
  using kv_run_reachable [OF reachable_acked run_followed] .

lemma reachable_late: "kv_reachable three late"
  using kv_run_reachable [OF kv_boot [OF boot_sys_initial] run_late] .

text \<open>
  A put that is overwritten: node 0 accepts \<open>x = 1\<close> in term 1 but replicates nothing; node 1 wins
  term 2, takes \<open>y = 2\<close> at the same index, commits it with node 0 and lets it know.
\<close>

definition y_append :: AppendEntriesArgs where
  "y_append = \<lparr>ae_Term = 2, ae_LeaderId = 1, ae_PrevLogIndex = 0, ae_PrevLogTerm = 0,
     ae_Entries = [\<lparr>le_Index = 1, le_Term = 2, le_Command = ''noop''\<rparr>,
                   \<lparr>le_Index = 2, le_Term = 2, le_Command = ''put:y:2''\<rparr>],
     ae_LeaderCommit = 0\<rparr>"

definition y_append_commit :: AppendEntriesArgs where
  "y_append_commit = \<lparr>ae_Term = 2, ae_LeaderId = 1, ae_PrevLogIndex = 2, ae_PrevLogTerm = 2,
     ae_Entries = [], ae_LeaderCommit = 2\<rparr>"

definition overwrite_x :: "kv_event list" where
  "overwrite_x = map RaftEvent win_first @ [Begin 0 0 x_request, Register 0 0] @
     map RaftEvent
       [ElectionTimeout 1, DeliverVote 2 (second_ballot\<lparr>rv_LastLogIndex := 0, rv_LastLogTerm := 0\<rparr>),
        ReceiveVote 1 2 2 \<lparr>vr_Term = 2, vr_VoteGranted = True\<rparr>] @
     [Begin 1 0 \<lparr>put_key = ''y'', put_value = ''2''\<rparr>] @
     map RaftEvent
       [Replicate 1 0, DeliverAppend 0 y_append, ReceiveAppend 1 0 y_append (accepted\<lparr>ar_Term := 2\<rparr>),
        Replicate 1 0, DeliverAppend 0 y_append_commit, ApplyEntry 0, ApplyEntry 0] @
     [Consume 0, Consume 0, Wake 0 0]"

definition overwritten :: system where
  "overwritten = the (kv_run three boot_sys overwrite_x)"

lemma run_overwritten: "kv_run three boot_sys overwrite_x = Some overwritten"
proof -
  have "kv_run three boot_sys overwrite_x \<noteq> None" by code_simp
  then show ?thesis by (simp add: overwritten_def)
qed

lemma reachable_overwritten: "kv_reachable three overwritten"
  using kv_run_reachable [OF kv_boot [OF boot_sys_initial] run_overwritten] .

end
