(* ===== verification/KvTheorems.thy ===== *)
theory KvTheorems
  imports KvExecutions
begin

text \<open>
  The properties of the replicated store: what an acknowledged or aborted \<open>Put\<close> means, that replicas
  agree, what the coding of commands loses, and what becomes of a handler that registers too late.
\<close>

section \<open>What the invariant says of messages\<close>

lemma message_at:
  assumes sim: "sim cfg c s" and i: "i \<in> node_ids cfg" and k: "k < length (commitCh (nodes c i))"
  shows "commitCh (nodes c i) ! k = to_msg (lg s i ! Suc k)" and "Suc k < length (lg s i)"
    and "am_Index (commitCh (nodes c i) ! k) = int (Suc k)"
    and "Suc k \<le> nat (lastApplied (nodes c i))"
proof -
  note I = sim_parts [OF sim i]
  have lk: "k < length (take (Suc (nat (lastApplied (nodes c i)))) (lg s i)) - 1"
    using k unfolding I(8) by simp
  then have le: "Suc k \<le> nat (lastApplied (nodes c i))" "Suc k < length (lg s i)" by auto
  show "Suc k \<le> nat (lastApplied (nodes c i))" "Suc k < length (lg s i)" using le by auto
  show m: "commitCh (nodes c i) ! k = to_msg (lg s i ! Suc k)"
    unfolding I(8) using lk le by simp
  have "wf_entries (lg s i)"
    using I(1,2) by (simp add: node_ok_def shape_ok_def wf_log_def)
  then show "am_Index (commitCh (nodes c i) ! k) = int (Suc k)"
    using m le(2) by (simp add: wf_entries_def to_msg_def)
qed

lemma delivered_at:
  assumes sim: "sim cfg c s" and i: "i \<in> node_ids cfg"
    and d: "delivered (take n (commitCh (nodes c i))) call t"
  obtains k where "pc_index call = int (Suc k)" and "k < n" and "k < length (commitCh (nodes c i))"
    and "am_Term (commitCh (nodes c i) ! k) = t"
proof -
  obtain m where "m \<in> set (take n (commitCh (nodes c i)))" "am_Index m = pc_index call" "am_Term m = t"
    using d by (auto simp: delivered_def)
  then obtain k where "k < length (take n (commitCh (nodes c i)))" "take n (commitCh (nodes c i)) ! k = m"
    by (meson in_set_conv_nth)
  then show ?thesis using that [of k] message_at(3) [OF sim i] \<open>am_Index m = pc_index call\<close>
    \<open>am_Term m = t\<close> by auto
qed

lemma issued_message:
  assumes sim: "sim cfg c s" and i: "i \<in> node_ids cfg" and iss: "issued s call"
    and k: "pc_index call = int (Suc k)" "k < length (commitCh (nodes c i))"
      "am_Term (commitCh (nodes c i) ! k) = pc_term call"
  shows "commitCh (nodes c i) ! k =
    \<lparr>am_Index = pc_index call, am_Term = pc_term call,
     am_Command = encodeCommand (put_key (pc_req call)) (put_value (pc_req call))\<rparr>"
proof -
  note M = message_at [OF sim i k(2)]
  have t: "le_Term (lg s i ! Suc k) = pc_term call" using k(3) M(1) by (simp add: to_msg_def)
  have "take (Suc (Suc k)) (lg s i) = take (Suc (Suc k)) (tlog s (pc_term call))"
    using chained_at [OF sim_parts(4) [OF sim i] M(2)] t by simp
  then have "lg s i ! Suc k = tlog s (pc_term call) ! Suc k" by (rule take_Suc_eq_nth)
  also have "\<dots> = \<lparr>le_Index = pc_index call, le_Term = pc_term call,
      le_Command = encodeCommand (put_key (pc_req call)) (put_value (pc_req call))\<rparr>"
    using iss k(1) unfolding issued_def by (metis nat_int)
  finally show ?thesis by (simp add: M(1) to_msg_def)
qed

lemma returned_call:
  assumes inv: "kv_inv cfg sys s" and i: "i \<in> node_ids cfg" and c: "calls (servers sys i) n = Some call"
  shows "call_ok s (take (consumed (servers sys i)) (commitCh (nodes (raft sys) i))) call"
    and "sim cfg (raft sys) s"
  using assms by (auto simp: kv_inv_def kv_sim_def server_ok_def)

section \<open>Acknowledgements\<close>

lemma acknowledged_message:
  assumes inv: "kv_inv cfg sys s" and i: "i \<in> node_ids cfg" and c: "calls (servers sys i) n = Some call"
    and ok: "pc_phase call = Returned (Inr r)" "pr_ok r"
  shows "\<exists>k < consumed (servers sys i). k < length (commitCh (nodes (raft sys) i)) \<and>
    pc_index call = int (Suc k) \<and>
    commitCh (nodes (raft sys) i) ! k =
      \<lparr>am_Index = pc_index call, am_Term = pc_term call,
       am_Command = encodeCommand (put_key (pc_req call)) (put_value (pc_req call))\<rparr>"
proof -
  note C = returned_call [OF inv i c]
  have iss: "issued s call"
    and d: "delivered (take (consumed (servers sys i)) (commitCh (nodes (raft sys) i))) call (pc_term call)"
    using C(1) ok by (auto simp: call_ok_def)
  obtain k where k: "pc_index call = int (Suc k)" "k < consumed (servers sys i)"
    "k < length (commitCh (nodes (raft sys) i))"
    "am_Term (commitCh (nodes (raft sys) i) ! k) = pc_term call"
    using delivered_at [OF C(2) i d] .
  then show ?thesis using issued_message [OF C(2) i iss k(1,3,4)] by auto
qed

text \<open>
  C15. An acknowledged \<open>Put\<close> is committed: when the handler returns ok, the command that the server applied
  at exactly the index and in the term that \<open>Start\<close> gave the call is its own encoded key and value.
\<close>

theorem acknowledged_put_applied:
  assumes "positional cfg" and "kv_reachable cfg sys" and "i \<in> node_ids cfg"
    and "calls (servers sys i) n = Some call" and "pc_phase call = Returned (Inr r)" and "pr_ok r"
  shows "\<exists>k < consumed (servers sys i). k < length (commitCh (nodes (raft sys) i)) \<and>
    pc_index call = int (Suc k) \<and>
    commitCh (nodes (raft sys) i) ! k =
      \<lparr>am_Index = pc_index call, am_Term = pc_term call,
       am_Command = encodeCommand (put_key (pc_req call)) (put_value (pc_req call))\<rparr>"
  using kv_reachable_inv [OF assms(1,2)] acknowledged_message [OF _ assms(3-6)] by blast

theorem acknowledged_put_applied_witness:
  "\<exists>k < consumed (servers acked 0). am_Command (commitCh (nodes (raft acked) 0) ! k) = ''put:x:1''"
proof -
  have h: "map_option (\<lambda>c. (pc_phase c, pc_req c)) (calls (servers acked 0) 0) =
      Some (Returned (Inr \<lparr>pr_ok = True, pr_redirect = []\<rparr>), x_request)" "0 \<in> node_ids three"
    "encodeCommand (put_key x_request) (put_value x_request) = ''put:x:1''" by code_simp+
  then obtain call where "calls (servers acked 0) 0 = Some call"
    "pc_phase call = Returned (Inr \<lparr>pr_ok = True, pr_redirect = []\<rparr>)" "pc_req call = x_request" by auto
  then show ?thesis
    using acknowledged_put_applied [OF three_positional reachable_acked h(2), of 0 call] h(3) by auto
qed

text \<open>
  An acknowledged \<open>Put\<close> survives leader changes: from the acknowledgement on, every leader of the
  same or a later term holds the command at its index.
\<close>

theorem acknowledged_put_durable:
  assumes "positional cfg" and "kv_reachable cfg sys" and "kv_later cfg sys sys'"
    and "i \<in> node_ids cfg" and "j \<in> node_ids cfg"
    and "calls (servers sys i) n = Some call" and "pc_phase call = Returned (Inr r)" and "pr_ok r"
    and "rstate (nodes (raft sys') j) = Leader"
    and "currentTerm (nodes (raft sys) i) \<le> currentTerm (nodes (raft sys') j)"
  shows "0 < pc_index call \<and> pc_index call \<le> LastIndex (log (nodes (raft sys') j)) \<and>
    le_Command (entries (log (nodes (raft sys') j)) ! nat (pc_index call)) =
      encodeCommand (put_key (pc_req call)) (put_value (pc_req call))"
proof -
  obtain s s' where inv: "kv_inv cfg sys s" and adv: "kv_advances cfg sys s sys' s'"
    using kv_reachable_later [OF assms(1-3)] .
  note C = returned_call [OF inv assms(4,6)]
  have iss: "issued s call"
    and d: "delivered (take (consumed (servers sys i)) (commitCh (nodes (raft sys) i))) call (pc_term call)"
    using C(1) assms(7,8) by (auto simp: call_ok_def)
  obtain k where k: "pc_index call = int (Suc k)" "k < consumed (servers sys i)"
    "k < length (commitCh (nodes (raft sys) i))"
    "am_Term (commitCh (nodes (raft sys) i) ! k) = pc_term call"
    using delivered_at [OF C(2) assms(4) d] .
  note M = message_at [OF C(2) assms(4) k(3)]
  have own: "le_Command (lg s i ! Suc k) = encodeCommand (put_key (pc_req call)) (put_value (pc_req call))"
    using issued_message [OF C(2) assms(4) iss k(1,3,4)] M(1) by (simp add: to_msg_def)
  note I = sim_parts [OF C(2) assms(4)]
  have ci: "Suc k \<le> nat (commitIndex (nodes (raft sys) i))" using M(4) I(7) by linarith
  have a: "advances cfg (raft sys) s (raft sys') s'" using adv by (simp add: kv_advances_def)
  have "take (Suc (nat (commitIndex (nodes (raft sys) i)))) (entries (log (nodes (raft sys') j))) =
      take (Suc (nat (commitIndex (nodes (raft sys) i)))) (lg s i)"
    using later_leader_has [OF C(2) a assms(4,5,9,10)] I(2) by simp
  then have eq: "take (Suc (Suc k)) (entries (log (nodes (raft sys') j))) = take (Suc (Suc k)) (lg s i)"
    by (rule take_eq_mono) (use ci in simp)
  have len: "Suc (Suc k) \<le> length (entries (log (nodes (raft sys') j)))"
    using take_eq_length [OF eq] M(2) by simp
  have "entries (log (nodes (raft sys') j)) ! Suc k = lg s i ! Suc k"
    using take_eq_nth [OF eq, of "Suc k"] by simp
  then show ?thesis using own len k(1) by (simp add: LastIndex_def nat_add_distrib)
qed

theorem acknowledged_put_durable_witness:
  "le_Command (entries (log (nodes (raft followed) 0)) ! 2) = ''put:x:1''"
proof -
  have h: "map_option (\<lambda>c. (pc_phase c, pc_req c, pc_index c)) (calls (servers acked 0) 0) =
      Some (Returned (Inr \<lparr>pr_ok = True, pr_redirect = []\<rparr>), x_request, 2)"
    "rstate (nodes (raft followed) 0) = Leader" "0 \<in> node_ids three"
    "currentTerm (nodes (raft acked) 0) \<le> currentTerm (nodes (raft followed) 0)"
    "encodeCommand (put_key x_request) (put_value x_request) = ''put:x:1''" by code_simp+
  then obtain call where "calls (servers acked 0) 0 = Some call" "pc_index call = 2"
    "pc_phase call = Returned (Inr \<lparr>pr_ok = True, pr_redirect = []\<rparr>)" "pc_req call = x_request" by auto
  then show ?thesis
    using acknowledged_put_durable [OF three_positional reachable_acked kv_run_later [OF run_followed]
        h(3) h(3), of 0 call] h(2,4,5) by simp
qed

text \<open>
  C16. An aborted \<open>Put\<close> is lost for good: when the handler returns \<open>Aborted\<close>, another entry was
  committed at its index, and no node ever applies the command this handler submitted.
\<close>

theorem aborted_put_never_applied:
  assumes "positional cfg" and "kv_reachable cfg sys" and "kv_later cfg sys sys'"
    and "i \<in> node_ids cfg" and "j \<in> node_ids cfg"
    and "calls (servers sys i) n = Some call"
    and "pc_phase call = Returned (Inl (Status Aborted text))"
  shows "\<not> (\<exists>m \<in> set (commitCh (nodes (raft sys') j)).
      am_Index m = pc_index call \<and> am_Term m = pc_term call)"
proof
  assume "\<exists>m \<in> set (commitCh (nodes (raft sys') j)). am_Index m = pc_index call \<and> am_Term m = pc_term call"
  obtain s s' where inv: "kv_inv cfg sys s" and adv: "kv_advances cfg sys s sys' s'"
    using kv_reachable_later [OF assms(1-3)] .
  then have a: "advances cfg (raft sys) s (raft sys') s'" and sim': "sim cfg (raft sys') s'"
    by (auto simp: kv_advances_def advances_def)
  note C = returned_call [OF inv assms(4,6)]
  obtain t where t: "t \<noteq> pc_term call"
    "delivered (take (consumed (servers sys i)) (commitCh (nodes (raft sys) i))) call t"
    using C(1) assms(7) by (auto simp: call_ok_def)
  obtain k where k: "pc_index call = int (Suc k)" "k < length (commitCh (nodes (raft sys) i))"
    "am_Term (commitCh (nodes (raft sys) i) ! k) = t"
    using delivered_at [OF C(2) assms(4) t(2)] by metis
  have "delivered (take (length (commitCh (nodes (raft sys') j))) (commitCh (nodes (raft sys') j))) call
      (pc_term call)"
    using \<open>\<exists>m \<in> _. _\<close> by (simp add: delivered_def)
  then obtain k' where k': "pc_index call = int (Suc k')" "k' < length (commitCh (nodes (raft sys') j))"
    "am_Term (commitCh (nodes (raft sys') j) ! k') = pc_term call"
    using delivered_at [OF sim' assms(5)] by metis
  have "k' = k" using k(1) k'(1) by simp
  have "commitCh (nodes (raft sys) i) ! k = commitCh (nodes (raft sys') j) ! k"
    using delivered_comparable [OF C(2) a assms(4,5)] k(2) k'(2) \<open>k' = k\<close>
    by (auto simp: prefix_def nth_append)
  then show False using k(3) k'(3) t(1) \<open>k' = k\<close> by simp
qed

theorem aborted_put_never_applied_witness:
  "map am_Command (commitCh (nodes (raft overwritten) 0)) = [''noop'', ''put:y:2''] \<and>
   \<not> (\<exists>m \<in> set (commitCh (nodes (raft overwritten) 0)). am_Index m = 2 \<and> am_Term m = 1)"
proof -
  have h: "map_option (\<lambda>c. (pc_phase c, pc_index c, pc_term c)) (calls (servers overwritten 0) 0) =
      Some (Returned (Inl (Status Aborted ''leadership changed: entry may not have committed'')), 2, 1)"
    "map am_Command (commitCh (nodes (raft overwritten) 0)) = [''noop'', ''put:y:2'']"
    "0 \<in> node_ids three" by code_simp+
  then obtain call where "calls (servers overwritten 0) 0 = Some call" "pc_index call = 2" "pc_term call = 1"
    "pc_phase call = Returned (Inl (Status Aborted ''leadership changed: entry may not have committed''))"
    by auto
  then show ?thesis
    using aborted_put_never_applied [OF three_positional reachable_overwritten kv_later_refl h(3) h(3)] h(2)
    by metis
qed

section \<open>Replicas\<close>

lemma taken_agree:
  assumes "prefix xs ys \<or> prefix ys xs" and "n \<le> length xs" and "n \<le> length ys"
  shows "take n xs = take n ys"
  using assms by (auto simp: prefix_def)

text \<open>
  C17. Replicas agree: two servers that have applied the same number of messages, at whatever times,
  hold the same store.
\<close>

theorem replica_stores_agree:
  assumes "positional cfg" and "kv_reachable cfg sys" and "kv_later cfg sys sys'"
    and "i \<in> node_ids cfg" and "j \<in> node_ids cfg"
    and "consumed (servers sys i) = consumed (servers sys' j)"
  shows "st (servers sys i) = st (servers sys' j)"
proof -
  obtain s s' where inv: "kv_inv cfg sys s" and adv: "kv_advances cfg sys s sys' s'"
    using kv_reachable_later [OF assms(1-3)] .
  then have I: "server_ok cfg s i (nodes (raft sys) i) (servers sys i)" "sim cfg (raft sys) s"
    and J: "server_ok cfg s' j (nodes (raft sys') j) (servers sys' j)"
    and a: "advances cfg (raft sys) s (raft sys') s'"
    using assms(4,5) by (auto simp: kv_advances_def kv_inv_def kv_sim_def)
  have "take (consumed (servers sys i)) (commitCh (nodes (raft sys) i)) =
      take (consumed (servers sys i)) (commitCh (nodes (raft sys') j))"
    using taken_agree [OF delivered_comparable [OF I(2) a assms(4,5)]] I(1) J assms(6)
    by (simp add: server_ok_def)
  then show ?thesis using I(1) J assms(6) by (simp add: server_ok_def)
qed

theorem replica_stores_agree_witness:
  "consumed (servers followed 1) = 2 \<and> st (servers acked 0) = st (servers followed 1)"
proof -
  have h: "consumed (servers acked 0) = 2" "consumed (servers followed 1) = 2"
    "0 \<in> node_ids three" "1 \<in> node_ids three" by code_simp+
  then show ?thesis
    using replica_stores_agree [OF three_positional reachable_acked kv_run_later [OF run_followed] h(3,4)]
    by simp
qed

text \<open>The puts among a list of messages, as the apply loop reads them.\<close>

definition put_of :: "ApplyMsg \<Rightarrow> (string \<times> string) option" where
  "put_of m =
     (case decodeCommand (am_Command m) of
        (op, key, val) \<Rightarrow> if op = ''put'' then Some (key, val) else None)"

definition writes :: "ApplyMsg list \<Rightarrow> (string \<times> string) list" where
  "writes msgs = List.map_filter put_of msgs"

lemma map_filter_snoc:
  "List.map_filter f (xs @ [x]) = List.map_filter f xs @ (case f x of None \<Rightarrow> [] | Some y \<Rightarrow> [y])"
  by (simp add: List.map_filter_def split: option.splits)

lemma replayed_writes: "replayed msgs = kv.replay store_new (writes msgs)"
proof (induction msgs rule: rev_induct)
  case Nil
  then show ?case by (simp add: replayed_def writes_def List.map_filter_def)
next
  case (snoc m msgs)
  then show ?case
    by (auto simp: replayed_snoc writes_def map_filter_snoc put_of_def apply_command_def split: prod.splits)
qed

lemma get_replayed:
  assumes "kv_inv cfg sys s" and "i \<in> node_ids cfg"
  shows "Get (servers sys i) key =
    (case map_of (rev (writes (take (consumed (servers sys i)) (commitCh (nodes (raft sys) i))))) key of
       None \<Rightarrow> \<lparr>gr_found = False, gr_value = []\<rparr>
     | Some v \<Rightarrow> \<lparr>gr_found = True, gr_value = v\<rparr>)"
proof -
  have "st (servers sys i) = replayed (take (consumed (servers sys i)) (commitCh (nodes (raft sys) i)))"
    using assms by (simp add: kv_inv_def kv_sim_def server_ok_def)
  then show ?thesis
    by (auto simp: Get_def replayed_writes kv.get_replay_empty split: option.splits)
qed

text \<open>
  What a read returns: \<open>Get\<close> on any server answers with the value of the last put of that key
  among the commands the server has applied, and not found if there is none; the commands are a
  prefix of the server's own committed log.
\<close>

theorem get_returns_last_applied:
  assumes "positional cfg" and "kv_reachable cfg sys" and "i \<in> node_ids cfg"
  shows "Get (servers sys i) key =
    (case map_of (rev (writes (take (consumed (servers sys i)) (commitCh (nodes (raft sys) i))))) key of
       None \<Rightarrow> \<lparr>gr_found = False, gr_value = []\<rparr>
     | Some v \<Rightarrow> \<lparr>gr_found = True, gr_value = v\<rparr>)"
  using kv_reachable_inv [OF assms(1,2)] get_replayed [OF _ assms(3)] by blast

theorem get_returns_last_applied_witness:
  "Get (servers followed 1) ''x'' = \<lparr>gr_found = True, gr_value = ''1''\<rparr>"
proof -
  have h: "1 \<in> node_ids three"
    "map_of (rev (writes (take (consumed (servers followed 1)) (commitCh (nodes (raft followed) 1))))) ''x'' =
     Some ''1''" by code_simp+
  then show ?thesis using get_returns_last_applied [OF three_positional reachable_followed h(1)] by simp
qed

section \<open>Coding of commands\<close>

text \<open>
  C18. Decoding gives back the key and value that were encoded exactly when the key has no colon; a
  colon in the value is harmless.
\<close>

theorem decode_encode_iff:
  "decodeCommand (encodeCommand k v) = (''put'', k, v) \<longleftrightarrow> CHR '':'' \<notin> set k"
  using takeWhile_shorter [of "CHR '':''" k] by (simp add: decode_encode)

text \<open>
  C19. A put whose key has a colon is acknowledged like any other, but writes under the part of the key
  before the colon: the key itself keeps its old value, and that of another key is overwritten.
\<close>

theorem colon_key_misplaced:
  assumes "CHR '':'' \<in> set k"
  shows "store_get (apply_command s (encodeCommand k v)) k = store_get s k \<and>
    store_get (apply_command s (encodeCommand k v)) (takeWhile (\<lambda>x. x \<noteq> CHR '':'') k) =
      (\<lparr>Value = tl (dropWhile (\<lambda>x. x \<noteq> CHR '':'') k) @ '':'' @ v\<rparr>, True)"
  using assms takeWhile_shorter [OF assms] takeWhile_shorter [OF assms, THEN not_sym]
  by (auto simp: apply_command_def decode_encode kv.get_put)

theorem colon_key_misplaced_witness:
  "store_get (apply_command store_new (encodeCommand ''a:b'' ''v'')) ''a:b'' = (\<lparr>Value = []\<rparr>, False) \<and>
   store_get (apply_command store_new (encodeCommand ''a:b'' ''v'')) ''a'' = (\<lparr>Value = ''b:v''\<rparr>, True)"
proof -
  have h: "takeWhile (\<lambda>x. x \<noteq> CHR '':'') ''a:b'' = ''a''" "CHR '':'' \<in> set ''a:b''"
    "tl (dropWhile (\<lambda>x. x \<noteq> CHR '':'') ''a:b'') = ''b''" by simp_all
  then show ?thesis
    using colon_key_misplaced [OF h(2), of store_new "''v''"] by (simp add: kv.get_empty)
qed

section \<open>A handler that registers too late\<close>

definition stuck :: "system \<Rightarrow> int32 \<Rightarrow> nat \<Rightarrow> int64 \<Rightarrow> bool" where
  "stuck sys i n idx \<longleftrightarrow>
     idx \<le> int (consumed (servers sys i)) \<and>
     (\<exists>call. calls (servers sys i) n = Some call \<and> pc_index call = idx \<and> \<not> pp_closed (pc_cell call) \<and>
        (pc_phase call = Submitted \<or> pc_phase call = Waiting \<or>
         (\<exists>m. pc_phase call = Returned (Inl (Status DeadlineExceeded m)))))"

lemma stuck_consume:
  assumes st: "stuck sys i n idx" and ok: "server_ok cfg s i (nodes (raft sys) i) (servers sys i)"
    and sim: "sim cfg (raft sys) s" and i: "i \<in> node_ids cfg"
    and more: "consumed (servers sys i) < length (commitCh (nodes (raft sys) i))"
  shows "stuck (set_server sys i
    (apply_msg (servers sys i) (commitCh (nodes (raft sys) i) ! consumed (servers sys i)))) i n idx"
proof -
  let ?m = "commitCh (nodes (raft sys) i) ! consumed (servers sys i)"
  have idx: "am_Index ?m = int (Suc (consumed (servers sys i)))" using message_at(3) [OF sim i more] .
  have "pending (servers sys i) (am_Index ?m) \<noteq> Some n"
  proof
    assume "pending (servers sys i) (am_Index ?m) = Some n"
    then have "idx = am_Index ?m" using ok st unfolding server_ok_def stuck_def by fastforce
    then show False using st idx by (simp add: stuck_def)
  qed
  then show ?thesis
    using st by (auto simp: stuck_def apply_msg_def set_server_def Let_def split: option.splits)
qed

lemma stuck_step:
  assumes inv: "kv_inv cfg sys s" and st: "stuck sys i n idx" and i: "i \<in> node_ids cfg"
    and en: "kv_enabled cfg sys ev" and f: "kv_fire sys ev = Some sys'"
  shows "stuck sys' i n idx"
proof (cases ev)
  case (RaftEvent e)
  then show ?thesis using st f by (auto simp: stuck_def)
next
  case (Begin j m req)
  then show ?thesis
    using st en f by (auto simp: stuck_def put_begin_def set_server_def bind_eq_Some_conv Let_def
        split: option.splits)
next
  case (Redirect j m)
  then show ?thesis
    using st f by (auto simp: stuck_def put_redirect_def set_server_def split: option.splits if_splits)
next
  case (Register j m)
  then show ?thesis
    using st f by (auto simp: stuck_def put_register_def set_server_def split: option.splits if_splits)
next
  case (Wake j m)
  then show ?thesis
    using st f by (auto simp: stuck_def put_wake_def set_server_def Let_def split: option.splits if_splits)
next
  case (TimeOut j m)
  then show ?thesis
    using st f by (auto simp: stuck_def put_timeout_def set_server_def split: option.splits if_splits)
next
  case (Consume j)
  show ?thesis
  proof (cases "j = i")
    case True
    then show ?thesis
      using stuck_consume [OF st _ _ i] inv i en f Consume by (auto simp: kv_inv_def kv_sim_def)
  next
    case False
    then show ?thesis using st f Consume by (auto simp: stuck_def set_server_def)
  qed
next
  case (NoteLeader l p args reply)
  then show ?thesis using st f by (auto simp: stuck_def note_leader_def set_server_def)
qed

lemma stuck_later:
  assumes pos: "positional cfg" and inv: "kv_inv cfg sys s" and "kv_later cfg sys sys'"
    and st: "stuck sys i n idx" and i: "i \<in> node_ids cfg"
  shows "stuck sys' i n idx \<and> (\<exists>s'. kv_inv cfg sys' s')"
  using assms(3) unfolding kv_later_def
proof (induction rule: rtranclp_induct)
  case base
  then show ?case using st inv by blast
next
  case (step x y)
  obtain s' ev where "kv_inv cfg x s'" "kv_enabled cfg x ev" "kv_fire x ev = Some y"
    using step by (auto simp: kv_step_iff)
  then show ?case using stuck_step [OF _ _ i] step.IH kv_inv_fire [OF pos] unfolding kv_advances_def by blast
qed

text \<open>
  C20. A handler that registers too late is never acknowledged: if the server has consumed the message
  at the index of a call before the call is in \<open>pending\<close> (it submits first and registers after), then
  at no later time has the call returned anything but \<open>DeadlineExceeded\<close>, although its command may
  be committed and applied.
\<close>

theorem late_registration_never_acknowledged:
  assumes "positional cfg" and "kv_reachable cfg sys" and "kv_later cfg sys sys'"
    and "i \<in> node_ids cfg" and "calls (servers sys i) n = Some call"
    and "pc_phase call = Submitted" and "\<not> pp_closed (pc_cell call)"
    and "pc_index call \<le> int (consumed (servers sys i))"
  shows "\<exists>call'. calls (servers sys' i) n = Some call' \<and>
    (pc_phase call' = Submitted \<or> pc_phase call' = Waiting \<or>
     (\<exists>m. pc_phase call' = Returned (Inl (Status DeadlineExceeded m))))"
proof -
  obtain s where inv: "kv_inv cfg sys s" using kv_reachable_inv [OF assms(1,2)] by blast
  have "stuck sys i n (pc_index call)" using assms(5-8) by (simp add: stuck_def)
  then show ?thesis using stuck_later [OF assms(1) inv assms(3) _ assms(4)] unfolding stuck_def by blast
qed

theorem late_registration_never_acknowledged_witness:
  "am_Command (commitCh (nodes (raft late) 0) ! 1) = ''put:x:1'' \<and>
   (\<exists>call'. calls (servers late_done 0) 0 = Some call' \<and>
     (pc_phase call' = Submitted \<or> pc_phase call' = Waiting \<or>
      (\<exists>m. pc_phase call' = Returned (Inl (Status DeadlineExceeded m)))))"
proof -
  have h: "map_option (\<lambda>c. (pc_phase c, pp_closed (pc_cell c), pc_index c)) (calls (servers late 0) 0) =
      Some (Submitted, False, 2)" "consumed (servers late 0) = 2" "0 \<in> node_ids three"
    "am_Command (commitCh (nodes (raft late) 0) ! 1) = ''put:x:1''" by code_simp+
  then obtain call where "calls (servers late 0) 0 = Some call" "pc_phase call = Submitted"
    "\<not> pp_closed (pc_cell call)" "pc_index call \<le> int (consumed (servers late 0))" by auto
  then show ?thesis
    using late_registration_never_acknowledged
      [OF three_positional reachable_late kv_run_later [OF run_late_done] h(3)] h(4) by blast
qed

section \<open>Finding the leader\<close>

lemma node_addr:
  assumes "positional cfg" and "j \<in> node_ids cfg"
  shows "\<exists>d. slice_get (Nodes cfg) j = Some d \<and> Self cfg j = Inr d"
  using assms positional_id_range [OF assms(1), of j] Self_positional [OF assms(1), of j] by auto

text \<open>
  \<open>GetPrimary\<close> on any server of a reachable system never panics: a leader names itself, another
  node the leader it last accepted entries from, with the client address the configuration has for
  that id; it fails only with \<open>Unavailable\<close>, before it has heard of any leader.
\<close>

theorem get_primary_answers:
  assumes "positional cfg" and "kv_reachable cfg sys" and "i \<in> node_ids cfg"
  shows "case GetPrimary (servers sys i) (nodes (raft sys) i) of
      None \<Rightarrow> False
    | Some (Inl e) \<Rightarrow> e = Status Unavailable ''leader unknown'' \<and>
        leaderID (servers sys i) = -1 \<and> rstate (nodes (raft sys) i) \<noteq> Leader
    | Some (Inr p) \<Rightarrow>
        gp_id p = (if rstate (nodes (raft sys) i) = Leader then i else leaderID (servers sys i)) \<and>
        gp_id p \<in> node_ids cfg \<and> (\<exists>d. Self cfg (gp_id p) = Inr d \<and> gp_addr p = ClientAddr d)"
proof -
  obtain s where "kv_inv cfg sys s" using kv_reachable_inv [OF assms(1,2)] by blast
  then have ok: "sid (servers sys i) = i" "scfg (servers sys i) = cfg"
    "leaderID (servers sys i) = -1 \<or> leaderID (servers sys i) \<in> node_ids cfg"
    using assms(3) by (auto simp: kv_inv_def kv_sim_def server_ok_def)
  show ?thesis
  proof (cases "rstate (nodes (raft sys) i) = Leader")
    case True
    then show ?thesis
      using ok node_addr [OF assms(1,3)] assms(3) by (auto simp: GetPrimary_def GetState_def)
  next
    case False
    show ?thesis
    proof (cases "leaderID (servers sys i) = -1")
      case True
      then show ?thesis using False by (simp add: GetPrimary_def GetState_def)
    next
      case named: False
      then have l: "leaderID (servers sys i) \<in> node_ids cfg" using ok(3) by blast
      then have "0 \<le> leaderID (servers sys i)" "leaderID (servers sys i) < int (length (Nodes cfg))"
        using positional_id_range [OF assms(1)] by auto
      then show ?thesis
        using False ok(2) node_addr [OF assms(1) l] l by (auto simp: GetPrimary_def GetState_def Let_def)
    qed
  qed
qed

theorem get_primary_answers_witness:
  "GetPrimary (servers followed 1) (nodes (raft followed) 1) =
     Some (Inr \<lparr>gp_id = 0, gp_addr = ''localhost:8000''\<rparr>) \<and>
   (0::int32) \<in> node_ids three"
proof -
  have h: "1 \<in> node_ids three" "GetPrimary (servers followed 1) (nodes (raft followed) 1) =
     Some (Inr \<lparr>gp_id = 0, gp_addr = ''localhost:8000''\<rparr>)" by code_simp+
  then show ?thesis using get_primary_answers [OF three_positional reachable_followed h(1)] by simp
qed

end
