(* ===== verification/LamportClock.thy ===== *)
theory LamportClock
  imports Prelude
begin

text \<open>
  The Lamport clock (\<open>hw2/internal/clock/clock.go\<close>) and what it is for: in any execution in which
  every local event and send is stamped by \<open>Tick\<close> and every receive by \<open>Update\<close>, timestamps respect
  the happens-before order. What a clock promises is the locale \<open>logical_clock\<close>, interpreted on the
  code's operations.
\<close>

section \<open>Operations\<close>

record LamportClock =
  clock_t :: int64

definition clock_new :: LamportClock where
  "clock_new = \<lparr>clock_t = 0\<rparr>"

definition Tick :: "LamportClock \<Rightarrow> LamportClock \<times> int64" where
  "Tick c = (let c' = c\<lparr>clock_t := clock_t c + 1\<rparr> in (c', clock_t c'))"

definition Now :: "LamportClock \<Rightarrow> int64" where
  "Now c = clock_t c"

definition Update :: "LamportClock \<Rightarrow> int64 \<Rightarrow> LamportClock \<times> int64" where
  "Update c received =
     (let c1 = (if received > clock_t c then c\<lparr>clock_t := received\<rparr> else c);
          c2 = c1\<lparr>clock_t := clock_t c1 + 1\<rparr>
      in (c2, clock_t c2))"

lemma Tick_simp: "Tick c = (c\<lparr>clock_t := clock_t c + 1\<rparr>, clock_t c + 1)"
  by (simp add: Tick_def)

lemma Update_simp: "Update c r = (c\<lparr>clock_t := max (clock_t c) r + 1\<rparr>, max (clock_t c) r + 1)"
  by (simp add: Update_def Let_def max_def)

section \<open>The interface\<close>

locale logical_clock =
  fixes now :: "'c \<Rightarrow> int"
    and tick :: "'c \<Rightarrow> 'c \<times> int"
    and receive :: "'c \<Rightarrow> int \<Rightarrow> 'c \<times> int"
  assumes tick_stamp: "snd (tick c) = now (fst (tick c))"
    and tick_more: "now c < now (fst (tick c))"
    and receive_stamp: "snd (receive c r) = now (fst (receive c r))"
    and receive_more: "now c < now (fst (receive c r))"
    and receive_after: "r < now (fst (receive c r))"
begin

text \<open>The stamps of a process that ticks and receives in any order increase strictly.\<close>

fun stamps :: "'c \<Rightarrow> int option list \<Rightarrow> int list" where
  "stamps c [] = []"
| "stamps c (None # es) = snd (tick c) # stamps (fst (tick c)) es"
| "stamps c (Some r # es) = snd (receive c r) # stamps (fst (receive c r)) es"

lemma tick_step: "tick c = (c', x) \<Longrightarrow> x = now c' \<and> now c < x"
  using tick_stamp [of c] tick_more [of c] by simp

lemma receive_step: "receive c r = (c', x) \<Longrightarrow> x = now c' \<and> now c < x \<and> r < x"
  using receive_stamp [of c r] receive_more [of c r] receive_after [of r c] by simp

lemma stamps_above: "x \<in> set (stamps c es) \<Longrightarrow> now c < x"
proof (induction es arbitrary: c)
  case (Cons e es)
  show ?case
  proof (cases e)
    case None
    then show ?thesis using Cons.prems Cons.IH [of "fst (tick c)"] tick_stamp [of c] tick_more [of c] by auto
  next
    case (Some r)
    then show ?thesis
      using Cons.prems Cons.IH [of "fst (receive c r)"] receive_stamp [of c r] receive_more [of c r] by auto
  qed
qed simp

lemma stamps_increase: "sorted_wrt (<) (stamps c es)"
proof (induction es arbitrary: c)
  case (Cons e es)
  then show ?case using stamps_above tick_stamp receive_stamp by (cases e) auto
qed simp

end

interpretation lamport: logical_clock Now Tick Update
  by unfold_locales (auto simp: Now_def Tick_simp Update_simp)

section \<open>Executions of several processes\<close>

text \<open>
  An event happens at a process; a receive names the position of the send it answers. \<open>exec\<close> runs the
  clocks of all processes over a list of events and returns the stamps.
\<close>

datatype event_kind = Internal_event | Send | Receive nat

type_synonym trace = "(int32 \<times> event_kind) list"

definition step_clock :: "int64 list \<Rightarrow> LamportClock \<Rightarrow> event_kind \<Rightarrow> LamportClock \<times> int64" where
  "step_clock ts c k = (case k of Receive m \<Rightarrow> Update c (ts ! m) | _ \<Rightarrow> Tick c)"

fun exec :: "(int32 \<Rightarrow> LamportClock) \<Rightarrow> int64 list \<Rightarrow> trace \<Rightarrow> int64 list" where
  "exec cs ts [] = ts"
| "exec cs ts ((p, k) # es) =
     (let (c, x) = step_clock ts (cs p) k in exec (cs(p := c)) (ts @ [x]) es)"

definition timestamps :: "trace \<Rightarrow> int64 list" where
  "timestamps es = exec (\<lambda>_. clock_new) [] es"

text \<open>A trace is well formed if receives answer earlier sends.\<close>

definition causal :: "trace \<Rightarrow> bool" where
  "causal es \<longleftrightarrow> (\<forall>j < length es. \<forall>m. snd (es ! j) = Receive m \<longrightarrow> m < j \<and> snd (es ! m) = Send)"

inductive happens_before :: "trace \<Rightarrow> nat \<Rightarrow> nat \<Rightarrow> bool" for es where
  same_process: "i < j \<Longrightarrow> j < length es \<Longrightarrow> fst (es ! i) = fst (es ! j) \<Longrightarrow> happens_before es i j"
| message: "j < length es \<Longrightarrow> snd (es ! j) = Receive i \<Longrightarrow> happens_before es i j"
| transitive: "happens_before es i j \<Longrightarrow> happens_before es j k \<Longrightarrow> happens_before es i k"

text \<open>The clock of a process is the stamp of its last event.\<close>

definition clocks_match :: "(int32 \<Rightarrow> LamportClock) \<Rightarrow> int64 list \<Rightarrow> trace \<Rightarrow> bool" where
  "clocks_match cs ts es \<longleftrightarrow>
     length ts = length es \<and> (\<forall>i < length es. ts ! i \<le> Now (cs (fst (es ! i))))"

lemma exec_stamps:
  assumes "clocks_match cs ts pre"
  shows "length (exec cs ts es) = length pre + length es \<and>
    (\<forall>i < length pre. exec cs ts es ! i = ts ! i) \<and>
    (\<forall>j < length (pre @ es). length pre \<le> j \<longrightarrow>
       (\<forall>i < j. fst ((pre @ es) ! i) = fst ((pre @ es) ! j) \<longrightarrow> exec cs ts es ! i < exec cs ts es ! j) \<and>
       (\<forall>m < j. snd ((pre @ es) ! j) = Receive m \<longrightarrow> exec cs ts es ! m < exec cs ts es ! j))"
  using assms
proof (induction es arbitrary: cs ts pre)
  case Nil
  then show ?case by (simp add: clocks_match_def)
next
  case (Cons e es)
  obtain p k where e: "e = (p, k)" by (cases e)
  obtain c x where cx: "step_clock ts (cs p) k = (c, x)" by (cases "step_clock ts (cs p) k")
  have x: "x = Now c" "Now (cs p) < x"
    using cx lamport.tick_step lamport.receive_step
    by (fastforce simp: step_clock_def split: event_kind.splits)+
  have xr: "ts ! m < x" if "k = Receive m" for m
    using cx that lamport.receive_step by (fastforce simp: step_clock_def)
  have len: "length ts = length pre" using Cons.prems by (simp add: clocks_match_def)
  have cm: "clocks_match (cs(p := c)) (ts @ [x]) (pre @ [e])"
    using Cons.prems x e by (fastforce simp: clocks_match_def nth_append less_Suc_eq)
  define r where "r = exec (cs(p := c)) (ts @ [x]) es"
  have ex: "exec cs ts (e # es) = r" by (simp add: e cx r_def)
  note IH = Cons.IH [OF cm, folded r_def]
  have old: "r ! i = (ts @ [x]) ! i" if "i \<le> length pre" for i using IH that by simp
  have "(\<forall>i < j. fst ((pre @ e # es) ! i) = fst ((pre @ e # es) ! j) \<longrightarrow> r ! i < r ! j) \<and>
      (\<forall>m < j. snd ((pre @ e # es) ! j) = Receive m \<longrightarrow> r ! m < r ! j)"
    if j: "j < length (pre @ e # es)" "length pre \<le> j" for j
  proof (cases "j = length pre")
    case True
    have "r ! j = x" using old [of j] True len by (simp add: nth_append)
    moreover have "r ! i < x" if "i < j" "fst (pre ! i) = p" for i
    proof -
      have "ts ! i \<le> Now (cs p)" using Cons.prems that True by (auto simp: clocks_match_def)
      then show ?thesis using old [of i] that True len x(2) by (simp add: nth_append)
    qed
    moreover have "r ! m < x" if "m < j" "k = Receive m" for m
      using old [of m] that True len xr by (simp add: nth_append)
    ultimately show ?thesis using True e by (simp add: nth_append)
  next
    case False
    then have "j < length ((pre @ [e]) @ es)" "length (pre @ [e]) \<le> j" using j by auto
    then show ?thesis using IH by simp
  qed
  then show ?case using IH old len unfolding ex by (auto simp: nth_append)
qed

text \<open>
  C24. The clock condition: if one event of an execution happens before another, through its own
  process or through messages, its timestamp is smaller.
\<close>

theorem clock_condition:
  assumes "causal es" and "happens_before es i j"
  shows "timestamps es ! i < timestamps es ! j"
  using assms(2)
proof (induction rule: happens_before.induct)
  case (same_process i j)
  have "clocks_match (\<lambda>_. clock_new) [] []" by (simp add: clocks_match_def)
  then show ?case using exec_stamps [of "\<lambda>_. clock_new" "[]" "[]" es] same_process by (simp add: timestamps_def)
next
  case (message j i)
  have "clocks_match (\<lambda>_. clock_new) [] []" by (simp add: clocks_match_def)
  moreover have "i < j" using assms(1) message by (simp add: causal_def)
  ultimately show ?case using exec_stamps [of "\<lambda>_. clock_new" "[]" "[]" es] message by (simp add: timestamps_def)
next
  case (transitive i j k)
  then show ?case by simp
qed

theorem clock_condition_witness:
  "timestamps [(0, Internal_event), (0, Send), (1, Send), (1, Receive 1)] = [1, 2, 1, 3] \<and>
   timestamps [(0, Internal_event), (0, Send), (1, Send), (1, Receive 1)] ! 0 <
   timestamps [(0, Internal_event), (0, Send), (1, Send), (1, Receive 1)] ! 3"
proof -
  let ?es = "[(0, Internal_event), (0, Send), (1, Send), (1, Receive 1)]"
  have v: "timestamps ?es = [1, 2, 1, 3]" by code_simp
  have "causal ?es" by (auto simp: causal_def less_Suc_eq numeral_2_eq_2 numeral_3_eq_3)
  moreover have "happens_before ?es 0 1" by (rule same_process) auto
  moreover have "happens_before ?es 1 3" by (rule message) auto
  ultimately show ?thesis using clock_condition [OF _ transitive] v by metis
qed

end
