(* ===== verification/PrimaryBackup.thy ===== *)
theory PrimaryBackup
  imports KvStore Rpc LamportClock ClusterConfig
begin

text \<open>
  One node of the primary-backup store (\<open>hw2/server/main.go\<close>). The record is the struct \<open>Node\<close>; time
  is in nanoseconds. The mutex, the clock and the store lock separately, so a function that takes several
  locks, or releases the mutex around RPCs, is split there: \<open>Put\<close> into \<open>pb_put_begin\<close> and \<open>pb_put_finish\<close>,
  \<open>Replicate\<close> and \<open>Heartbeat\<close> into two critical sections each, a round of \<open>monitorPeers\<close> into \<open>last_seen\<close> and
  \<open>onPeerDead\<close>, \<open>runElection\<close> into \<open>elect_stand\<close> and \<open>elect_conclude\<close>. \<open>pb_put_begin\<close> joins two critical
  sections, the look at the role and the tick of the clock: a primary stays primary and its peers stay
  the same, so the look may as well happen at the tick.
\<close>

section \<open>Data\<close>

datatype Role = RoleBackup | RolePrimary | RoleCandidate

definition role_number :: "Role \<Rightarrow> int32" where
  "role_number r = (case r of RoleBackup \<Rightarrow> 0 | RolePrimary \<Rightarrow> 1 | RoleCandidate \<Rightarrow> 2)"

definition pb_HeartbeatInterval :: int where
  "pb_HeartbeatInterval = 500 * 1000000"

definition pb_HeartbeatTimeout :: int where
  "pb_HeartbeatTimeout = 1000 * 1000000"

definition pb_ReplicateTimeout :: int where
  "pb_ReplicateTimeout = 1000 * 1000000"

record Node =
  nd_id :: int32
  nd_role :: Role
  nd_cfg :: ClusterConfig
  nd_clk :: LamportClock
  nd_store :: TsStore
  nd_peers :: "int32 set"
  nd_lastSeen :: "int32 \<rightharpoonup> int"
  nd_primary :: int32
  nd_electionTs :: int64

record PbPutResponse =
  pbp_ok :: bool
  pbp_redirect :: string
  pbp_ts :: int64

record PbGetResponse =
  pbg_found :: bool
  pbg_value :: string
  pbg_ts :: int64

record PbPrimaryResponse =
  pbr_addr :: string
  pbr_id :: int32

record ReplicateRequest =
  rr_key :: string
  rr_value :: string
  rr_ts :: int64
  rr_origin :: int32

record ReplicateResponse =
  rs_ok :: bool
  rs_ts :: int64

record HeartbeatRequest =
  hb_sender :: int32
  hb_ts :: int64
  hb_role :: int32

record HeartbeatResponse =
  hr_sender :: int32
  hr_ts :: int64
  hr_role :: int32

record AnnounceLeaderRequest =
  al_primary :: int32
  al_ts :: int64

text \<open>\<open>peerConns\<close> is nil until \<open>main\<close> fills it.\<close>

definition newNode :: "int32 \<Rightarrow> ClusterConfig \<Rightarrow> Node" where
  "newNode i cfg =
     \<lparr>nd_id = i, nd_role = (if i = 0 then RolePrimary else RoleBackup), nd_cfg = cfg,
      nd_clk = clock_new, nd_store = ts_new, nd_peers = {},
      nd_lastSeen = (\<lambda>_. None), nd_primary = 0, nd_electionTs = 0\<rparr>"

text \<open>
  The loop of \<open>main\<close> that dials the peers; \<open>dial\<close> tells whether \<open>grpc.NewClient\<close> accepts the
  address. \<open>Inl\<close> is the peer at which \<open>log.Fatalf\<close> ends the program.
\<close>

fun dial_loop :: "(string \<Rightarrow> bool) \<Rightarrow> NodeConfig list \<Rightarrow> Node \<Rightarrow> NodeConfig + Node" where
  "dial_loop dial [] n = Inr n"
| "dial_loop dial (p # ps) n =
     (if dial (PeerAddr p) then dial_loop dial ps (n\<lparr>nd_peers := insert (ID p) (nd_peers n)\<rparr>) else Inl p)"

lemma dial_loop_Inr:
  "dial_loop dial ps n = Inr n' \<Longrightarrow> n' = n\<lparr>nd_peers := nd_peers n \<union> ID ` set ps\<rparr>"
proof (induction ps arbitrary: n)
  case (Cons p ps)
  then have "dial_loop dial ps (n\<lparr>nd_peers := insert (ID p) (nd_peers n)\<rparr>) = Inr n'" by (simp split: if_splits)
  from Cons.IH [OF this] show ?case by simp
qed simp

section \<open>Client-facing handlers\<close>

text \<open>
  The start of \<open>Put\<close>: an immediate answer for a node that is not primary, otherwise the timestamp of
  the write, with the requests to fan out.
\<close>

definition redirect_reply :: "Node \<Rightarrow> PbPutResponse" where
  "redirect_reply n =
     (case Self (nd_cfg n) (nd_primary n) of
        Inl e \<Rightarrow> \<lparr>pbp_ok = False, pbp_redirect = [], pbp_ts = 0\<rparr>
      | Inr d \<Rightarrow> \<lparr>pbp_ok = False, pbp_redirect = ClientAddr d, pbp_ts = 0\<rparr>)"

definition pb_put_begin :: "Node \<Rightarrow> string \<Rightarrow> string \<Rightarrow> PbPutResponse + (Node \<times> ReplicateRequest)" where
  "pb_put_begin n key val =
     (if nd_role n \<noteq> RolePrimary then Inl (redirect_reply n)
      else
        let (clk, ts) = Tick (nd_clk n)
        in Inr (n\<lparr>nd_clk := clk\<rparr>,
                \<lparr>rr_key = key, rr_value = val, rr_ts = ts, rr_origin = nd_id n\<rparr>))"

text \<open>The end of \<open>Put\<close>, when every replication goroutine is done; \<open>failed\<close> is \<open>firstErr != nil\<close>.\<close>

definition pb_put_finish :: "Node \<Rightarrow> ReplicateRequest \<Rightarrow> bool \<Rightarrow> Node \<times> PbPutResponse rpc" where
  "pb_put_finish n req failed =
     (if failed then (n, Inl (Status Unavailable ''replication failed''))
      else (n\<lparr>nd_store := ts_put (nd_store n) (rr_key req) (rr_value req) (rr_ts req)\<rparr>,
            Inr \<lparr>pbp_ok = True, pbp_redirect = [], pbp_ts = rr_ts req\<rparr>))"

definition pb_get :: "Node \<Rightarrow> string \<Rightarrow> PbGetResponse" where
  "pb_get n key =
     (case ts_get (nd_store n) key of
        (entry, ok) \<Rightarrow>
          if \<not> ok then \<lparr>pbg_found = False, pbg_value = [], pbg_ts = 0\<rparr>
          else \<lparr>pbg_found = True, pbg_value = TsValue entry, pbg_ts = Ts entry\<rparr>)"

definition pb_get_primary :: "Node \<Rightarrow> PbPrimaryResponse rpc" where
  "pb_get_primary n =
     (case Self (nd_cfg n) (nd_primary n) of
        Inl e \<Rightarrow> Inl (Status Internal ''config'')
      | Inr d \<Rightarrow> Inr \<lparr>pbr_addr = ClientAddr d, pbr_id = nd_primary n\<rparr>)"

section \<open>Peer-facing handlers\<close>

text \<open>\<open>Replicate\<close>: first the clock, then the store.\<close>

definition replicate_clock :: "Node \<Rightarrow> ReplicateRequest \<Rightarrow> Node \<times> int64" where
  "replicate_clock n req =
     (let (clk, updatedTs) = Update (nd_clk n) (rr_ts req) in (n\<lparr>nd_clk := clk\<rparr>, updatedTs))"

definition replicate_store :: "Node \<Rightarrow> ReplicateRequest \<Rightarrow> Node" where
  "replicate_store n req = n\<lparr>nd_store := ts_put (nd_store n) (rr_key req) (rr_value req) (rr_ts req)\<rparr>"

definition Replicate :: "Node \<Rightarrow> ReplicateRequest \<Rightarrow> Node \<times> ReplicateResponse" where
  "Replicate n req =
     (let (n, updatedTs) = replicate_clock n req
      in (replicate_store n req, \<lparr>rs_ok = True, rs_ts = updatedTs\<rparr>))"

text \<open>\<open>Heartbeat\<close>: first the time and the role under the mutex, then the clock.\<close>

definition heartbeat_seen :: "Node \<Rightarrow> int \<Rightarrow> HeartbeatRequest \<Rightarrow> Node \<times> Role" where
  "heartbeat_seen n now req = (n\<lparr>nd_lastSeen := (nd_lastSeen n)(hb_sender req \<mapsto> now)\<rparr>, nd_role n)"

definition heartbeat_clock :: "Node \<Rightarrow> HeartbeatRequest \<Rightarrow> Node \<times> int64" where
  "heartbeat_clock n req =
     (let (clk, updatedTs) = Update (nd_clk n) (hb_ts req) in (n\<lparr>nd_clk := clk\<rparr>, updatedTs))"

definition Heartbeat :: "Node \<Rightarrow> int \<Rightarrow> HeartbeatRequest \<Rightarrow> Node \<times> HeartbeatResponse" where
  "Heartbeat n now req =
     (let (n, role) = heartbeat_seen n now req; (n, updatedTs) = heartbeat_clock n req
      in (n, \<lparr>hr_sender = nd_id n, hr_ts = updatedTs, hr_role = role_number role\<rparr>))"

definition AnnounceLeader :: "Node \<Rightarrow> AnnounceLeaderRequest \<Rightarrow> Node \<times> bool" where
  "AnnounceLeader n req =
     (let localTs = (if nd_role n = RoleCandidate then nd_electionTs n else Now (nd_clk n));
          accept = (al_ts req > localTs \<or> (al_ts req = localTs \<and> al_primary req > nd_id n))
      in (if accept then n\<lparr>nd_primary := al_primary req\<rparr> else n, accept))"

section \<open>Background loops\<close>

text \<open>One tick of \<open>startHeartbeatLoop\<close>: the peers it starts a goroutine for, copied under the mutex.\<close>

definition heartbeat_targets :: "Node \<Rightarrow> int32 set" where
  [simp]: "heartbeat_targets n = nd_peers n"

text \<open>What one heartbeat goroutine does before its RPC.\<close>

definition heartbeat_send :: "Node \<Rightarrow> Node \<times> HeartbeatRequest" where
  "heartbeat_send n =
     (let (clk, ts) = Tick (nd_clk n)
      in (n\<lparr>nd_clk := clk\<rparr>,
          \<lparr>hb_sender = nd_id n, hb_ts = ts, hb_role = role_number (nd_role n)\<rparr>))"

text \<open>
  What a round of \<open>monitorPeers\<close> reads under the mutex for a peer, and whether it then, at time \<open>now\<close>,
  reports the peer dead.
\<close>

definition last_seen :: "Node \<Rightarrow> int32 \<Rightarrow> int option" where
  "last_seen n p = (if p \<in> nd_peers n then nd_lastSeen n p else None)"

definition reports_dead :: "int \<Rightarrow> int \<Rightarrow> bool" where
  "reports_dead now ts \<longleftrightarrow> now - ts > pb_HeartbeatTimeout"

text \<open>\<open>onPeerDead\<close>: whether it launches \<open>runElection\<close>.\<close>

definition onPeerDead :: "Node \<Rightarrow> int32 \<Rightarrow> bool" where
  "onPeerDead n p \<longleftrightarrow> p = nd_primary n \<and> nd_role n = RoleBackup"

section \<open>Elections\<close>

text \<open>
  The first critical section of \<open>runElection\<close>: the announcement and the peers that may be asked (the
  loop asks the first one the map iteration yields); \<open>None\<close> if an election is running or the node
  is primary.
\<close>

definition elect_stand :: "Node \<Rightarrow> (Node \<times> AnnounceLeaderRequest \<times> int32 set) option" where
  "elect_stand n =
     (if nd_role n \<noteq> RoleBackup then None
      else
        let (clk, ts) = Tick (nd_clk n)
        in Some (n\<lparr>nd_role := RoleCandidate, nd_clk := clk, nd_electionTs := ts\<rparr>,
                 \<lparr>al_primary = nd_id n, al_ts = ts\<rparr>, nd_peers n - {nd_primary n}))"

datatype answer = Accepted | Rejected int32 | NoAnswer

text \<open>The last critical section, after the one RPC. \<open>Rejected p\<close> carries the peer that was asked.\<close>

definition elect_conclude :: "Node \<Rightarrow> answer \<Rightarrow> Node" where
  "elect_conclude n a =
     (case a of
        Accepted \<Rightarrow> n\<lparr>nd_role := RolePrimary, nd_primary := nd_id n\<rparr>
      | Rejected p \<Rightarrow>
          (if p \<ge> 0 then n\<lparr>nd_role := RoleBackup, nd_primary := p\<rparr> else n\<lparr>nd_role := RoleBackup\<rparr>)
      | NoAnswer \<Rightarrow> n\<lparr>nd_role := RoleBackup\<rparr>)"

section \<open>Ballots\<close>

text \<open>
  A candidacy is ordered by its Lamport time, then by the node's id. The order is an instance of the
  library's linear orders.
\<close>

datatype ballot = Ballot (ballot_ts: int) (ballot_node: int)

instantiation ballot :: linorder
begin

definition less_eq_ballot :: "ballot \<Rightarrow> ballot \<Rightarrow> bool" where
  "less_eq_ballot a b \<longleftrightarrow>
     ballot_ts a < ballot_ts b \<or> (ballot_ts a = ballot_ts b \<and> ballot_node a \<le> ballot_node b)"

definition less_ballot :: "ballot \<Rightarrow> ballot \<Rightarrow> bool" where
  "less_ballot a b \<longleftrightarrow>
     ballot_ts a < ballot_ts b \<or> (ballot_ts a = ballot_ts b \<and> ballot_node a < ballot_node b)"

instance
  by standard (auto simp: less_eq_ballot_def less_ballot_def ballot.expand)

end

definition request_ballot :: "AnnounceLeaderRequest \<Rightarrow> ballot" where
  "request_ballot req = Ballot (al_ts req) (al_primary req)"

definition local_ballot :: "Node \<Rightarrow> ballot" where
  "local_ballot n =
     Ballot (if nd_role n = RoleCandidate then nd_electionTs n else Now (nd_clk n)) (nd_id n)"

lemma AnnounceLeader_ballot: "snd (AnnounceLeader n req) \<longleftrightarrow> local_ballot n < request_ballot req"
  by (auto simp: AnnounceLeader_def Let_def local_ballot_def request_ballot_def less_ballot_def)

lemma AnnounceLeader_frame [simp, frame_simps]:
  "nd_role (fst (AnnounceLeader n req)) = nd_role n" "nd_id (fst (AnnounceLeader n req)) = nd_id n"
  "nd_store (fst (AnnounceLeader n req)) = nd_store n" "nd_clk (fst (AnnounceLeader n req)) = nd_clk n"
  "nd_peers (fst (AnnounceLeader n req)) = nd_peers n" "nd_cfg (fst (AnnounceLeader n req)) = nd_cfg n"
  "nd_electionTs (fst (AnnounceLeader n req)) = nd_electionTs n"
  "nd_lastSeen (fst (AnnounceLeader n req)) = nd_lastSeen n"
  by (simp_all add: AnnounceLeader_def Let_def)

lemma replicate_clock_frame [simp, frame_simps]:
  "nd_role (fst (replicate_clock n req)) = nd_role n" "nd_id (fst (replicate_clock n req)) = nd_id n"
  "nd_peers (fst (replicate_clock n req)) = nd_peers n" "nd_cfg (fst (replicate_clock n req)) = nd_cfg n"
  "nd_primary (fst (replicate_clock n req)) = nd_primary n"
  "nd_electionTs (fst (replicate_clock n req)) = nd_electionTs n"
  "nd_lastSeen (fst (replicate_clock n req)) = nd_lastSeen n"
  "nd_store (fst (replicate_clock n req)) = nd_store n"
  by (simp_all add: replicate_clock_def Update_simp)

lemma replicate_store_frame [simp, frame_simps]:
  "nd_role (replicate_store n req) = nd_role n" "nd_id (replicate_store n req) = nd_id n"
  "nd_peers (replicate_store n req) = nd_peers n" "nd_cfg (replicate_store n req) = nd_cfg n"
  "nd_primary (replicate_store n req) = nd_primary n" "nd_clk (replicate_store n req) = nd_clk n"
  "nd_electionTs (replicate_store n req) = nd_electionTs n"
  "nd_lastSeen (replicate_store n req) = nd_lastSeen n"
  "nd_store (replicate_store n req) = ts_put (nd_store n) (rr_key req) (rr_value req) (rr_ts req)"
  by (simp_all add: replicate_store_def)

lemma heartbeat_seen_frame [simp, frame_simps]:
  "nd_role (fst (heartbeat_seen n now req)) = nd_role n" "nd_id (fst (heartbeat_seen n now req)) = nd_id n"
  "nd_peers (fst (heartbeat_seen n now req)) = nd_peers n" "nd_cfg (fst (heartbeat_seen n now req)) = nd_cfg n"
  "nd_primary (fst (heartbeat_seen n now req)) = nd_primary n" "nd_clk (fst (heartbeat_seen n now req)) = nd_clk n"
  "nd_electionTs (fst (heartbeat_seen n now req)) = nd_electionTs n"
  "nd_store (fst (heartbeat_seen n now req)) = nd_store n"
  "nd_lastSeen (fst (heartbeat_seen n now req)) = (nd_lastSeen n)(hb_sender req \<mapsto> now)"
  by (simp_all add: heartbeat_seen_def)

lemma heartbeat_clock_frame [simp, frame_simps]:
  "nd_role (fst (heartbeat_clock n req)) = nd_role n" "nd_id (fst (heartbeat_clock n req)) = nd_id n"
  "nd_peers (fst (heartbeat_clock n req)) = nd_peers n" "nd_cfg (fst (heartbeat_clock n req)) = nd_cfg n"
  "nd_primary (fst (heartbeat_clock n req)) = nd_primary n"
  "nd_electionTs (fst (heartbeat_clock n req)) = nd_electionTs n"
  "nd_store (fst (heartbeat_clock n req)) = nd_store n"
  "nd_lastSeen (fst (heartbeat_clock n req)) = nd_lastSeen n"
  by (simp_all add: heartbeat_clock_def Update_simp)

end
