(* ===== verification/GoText.thy ===== *)
theory GoText
  imports Prelude "HOL-Library.Char_ord"
begin

text \<open>
  What the programs use of Go's \<open>strings\<close>, \<open>strconv\<close> and \<open>unicode\<close> packages: splitting at white
  space, trimming, joining, lower case, and decimal numbers. Splitting is defined for any kind of
  character, because \<open>hw1\<close> splits ASCII command lines and \<open>hw4\<close> splits runes.
\<close>

section \<open>Splitting and joining\<close>

text \<open>\<open>strings.FieldsFunc\<close>: the maximal runs of characters that are not separators.\<close>

fun fields_loop :: "('a \<Rightarrow> bool) \<Rightarrow> 'a list \<Rightarrow> 'a list \<Rightarrow> 'a list list" where
  "fields_loop sp cur [] = (if cur = [] then [] else [cur])"
| "fields_loop sp cur (x # xs) =
     (if sp x then (if cur = [] then [] else [cur]) @ fields_loop sp [] xs
      else fields_loop sp (cur @ [x]) xs)"

definition FieldsFunc :: "('a \<Rightarrow> bool) \<Rightarrow> 'a list \<Rightarrow> 'a list list" where
  "FieldsFunc sp xs = fields_loop sp [] xs"

text \<open>\<open>strings.Join\<close>.\<close>

fun Join :: "'a list list \<Rightarrow> 'a list \<Rightarrow> 'a list" where
  "Join [] sep = []"
| "Join [w] sep = w"
| "Join (w # ws) sep = w @ sep @ Join ws sep"

definition is_word :: "('a \<Rightarrow> bool) \<Rightarrow> 'a list \<Rightarrow> bool" where
  "is_word sp w \<longleftrightarrow> w \<noteq> [] \<and> (\<forall>x \<in> set w. \<not> sp x)"

lemma fields_loop_words:
  "filter sp cur = [] \<Longrightarrow> w \<in> set (fields_loop sp cur xs) \<Longrightarrow> w \<noteq> [] \<and> filter sp w = []"
proof (induction xs arbitrary: cur)
  case (Cons x xs)
  note IH = Cons.IH [of "[]"] Cons.IH [of "cur @ [x]"]
  show ?case using IH Cons.prems by (auto split: if_splits)
qed (auto split: if_splits)

lemma FieldsFunc_words: "w \<in> set (FieldsFunc sp xs) \<Longrightarrow> is_word sp w"
  using fields_loop_words [of sp "[]" w xs] by (auto simp: FieldsFunc_def is_word_def filter_empty_conv)

lemma fields_loop_concat: "concat (fields_loop sp cur xs) = cur @ filter (\<lambda>x. \<not> sp x) xs"
  by (induction sp cur xs rule: fields_loop.induct) auto

text \<open>No character but separators is lost.\<close>

lemma FieldsFunc_concat: "concat (FieldsFunc sp xs) = filter (\<lambda>x. \<not> sp x) xs"
  by (simp add: FieldsFunc_def fields_loop_concat)

lemma fields_loop_word: "(\<forall>x \<in> set w. \<not> sp x) \<Longrightarrow> fields_loop sp cur (w @ xs) = fields_loop sp (cur @ w) xs"
  by (induction w arbitrary: cur) auto

text \<open>Splitting what was joined gives the words back.\<close>

lemma FieldsFunc_Join:
  assumes "\<forall>w \<in> set ws. is_word sp w" and "sp s"
  shows "FieldsFunc sp (Join ws [s]) = ws"
  using assms(1)
proof (induction ws "[s]" rule: Join.induct)
  case (2 w)
  then show ?case using fields_loop_word [of w sp "[]" "[]"] by (simp add: FieldsFunc_def is_word_def)
next
  case (3 w v vs)
  then have w: "w \<noteq> []" "\<forall>x \<in> set w. \<not> sp x" by (auto simp: is_word_def)
  have "FieldsFunc sp (Join (w # v # vs) [s]) = fields_loop sp w (s # Join (v # vs) [s])"
    using fields_loop_word [OF w(2), of "[]"] by (simp add: FieldsFunc_def)
  also have "\<dots> = w # FieldsFunc sp (Join (v # vs) [s])" using w assms(2) by (simp add: FieldsFunc_def)
  finally show ?case using 3 by simp
qed (simp add: FieldsFunc_def)

section \<open>ASCII strings\<close>

definition ascii_space :: "char \<Rightarrow> bool" where
  "ascii_space c \<longleftrightarrow> c = CHR '' '' \<or> ((9 :: nat) \<le> of_char c \<and> of_char c \<le> (13 :: nat))"

definition Fields :: "string \<Rightarrow> string list" where
  "Fields s = FieldsFunc ascii_space s"

definition TrimSpace :: "string \<Rightarrow> string" where
  "TrimSpace s = rev (dropWhile ascii_space (rev (dropWhile ascii_space s)))"

definition lower_char :: "char \<Rightarrow> char" where
  "lower_char c = (if CHR ''A'' \<le> c \<and> c \<le> CHR ''Z'' then char_of (of_char c + (32 :: nat)) else c)"

definition ToLower :: "string \<Rightarrow> string" where
  "ToLower s = map lower_char s"

section \<open>Decimal numbers\<close>

definition is_digit :: "char \<Rightarrow> bool" where
  "is_digit c \<longleftrightarrow> (48 :: nat) \<le> of_char c \<and> of_char c \<le> (57 :: nat)"

definition digit_value :: "char \<Rightarrow> int" where
  "digit_value c = int (of_char c :: nat) - 48"

definition digit_char :: "nat \<Rightarrow> char" where
  "digit_char d = char_of (48 + d)"

text \<open>
  \<open>strconv.Atoi\<close>: an optional sign and at least one digit, and a value that fits in 64 bits;
  \<open>None\<close> is the error.
\<close>

fun digits_loop :: "int \<Rightarrow> string \<Rightarrow> int option" where
  "digits_loop acc [] = Some acc"
| "digits_loop acc (c # cs) = (if is_digit c then digits_loop (10 * acc + digit_value c) cs else None)"

definition Atoi :: "string \<Rightarrow> int option" where
  "Atoi s =
     (let (neg, ds) = (case s of c # cs \<Rightarrow> if c = CHR ''-'' then (True, cs)
                          else if c = CHR ''+'' then (False, cs) else (False, s) | [] \<Rightarrow> (False, s))
      in if ds = [] then None
         else case digits_loop 0 ds of
           None \<Rightarrow> None
         | Some n \<Rightarrow>
             let v = (if neg then - n else n)
             in if - (2 ^ 63) \<le> v \<and> v < 2 ^ 63 then Some v else None)"

text \<open>\<open>strconv.Itoa\<close>, which is also what \<open>%d\<close> prints.\<close>

fun nat_digits :: "nat \<Rightarrow> string" where
  "nat_digits n = (if n < 10 then [digit_char n] else nat_digits (n div 10) @ [digit_char (n mod 10)])"

declare nat_digits.simps [simp del]

definition Itoa :: "int \<Rightarrow> string" where
  "Itoa i = (if i < 0 then CHR ''-'' # nat_digits (nat (- i)) else nat_digits (nat i))"

lemma digit_char_digit: "d < 10 \<Longrightarrow> is_digit (digit_char d) \<and> digit_value (digit_char d) = int d"
  by (simp add: digit_char_def is_digit_def digit_value_def)

lemma nat_digits_digits: "c \<in> set (nat_digits n) \<Longrightarrow> is_digit c"
proof (induction n rule: nat_digits.induct)
  case (1 n)
  then show ?case by (subst (asm) nat_digits.simps) (auto simp: digit_char_digit split: if_splits)
qed

lemma nat_digits_nonempty: "nat_digits n \<noteq> []"
  by (subst nat_digits.simps) simp

lemma nat_digits_hd: "0 < n \<Longrightarrow> hd (nat_digits n) \<noteq> CHR ''0''"
proof (induction n rule: nat_digits.induct)
  case (1 n)
  show ?case
  proof (cases "n < 10")
    case True
    then have "digit_value (digit_char n) = int n" using digit_char_digit by blast
    then have "digit_char n \<noteq> CHR ''0''" using 1(2) by (auto simp: digit_value_def)
    then show ?thesis using True by (subst nat_digits.simps) simp
  next
    case False
    then show ?thesis
      using 1 nat_digits_nonempty [of "n div 10"] by (subst nat_digits.simps) (simp add: hd_append)
  qed
qed

lemma nat_digits_no_sign: "nat_digits n \<noteq> CHR ''-'' # ds" "nat_digits n \<noteq> CHR ''+'' # ds"
  using nat_digits_digits [of _ n] by (fastforce simp: is_digit_def)+

lemma digits_loop_append:
  "digits_loop acc (xs @ ys) = (case digits_loop acc xs of None \<Rightarrow> None | Some a \<Rightarrow> digits_loop a ys)"
  by (induction xs arbitrary: acc) auto

lemma digits_loop_nat: "digits_loop 0 (nat_digits n) = Some (int n)"
proof (induction n rule: nat_digits.induct)
  case (1 n)
  show ?case
  proof (cases "n < 10")
    case True
    then show ?thesis by (subst nat_digits.simps) (simp add: digit_char_digit)
  next
    case False
    then have "digits_loop 0 (nat_digits n) = Some (10 * int (n div 10) + int (n mod 10))"
      using 1 by (subst nat_digits.simps) (simp add: digits_loop_append digit_char_digit)
    then show ?thesis by (simp add: zdiv_int zmod_int)
  qed
qed

text \<open>Reading what was printed.\<close>

lemma Atoi_Itoa:
  assumes "- (2 ^ 63) \<le> i" and "i < 2 ^ 63"
  shows "Atoi (Itoa i) = Some i"
proof -
  have sign: "\<not> is_digit (CHR ''-'')" "\<not> is_digit (CHR ''+'')" by (simp_all add: is_digit_def)
  show ?thesis
  proof (cases "i < 0")
    case True
    then show ?thesis using assms
      by (simp add: Atoi_def Itoa_def nat_digits_nonempty digits_loop_nat Let_def)
  next
    case False
    obtain c cs where c: "nat_digits (nat i) = c # cs" using nat_digits_nonempty by (cases "nat_digits (nat i)") auto
    then have "is_digit c" using nat_digits_digits [of c "nat i"] by simp
    then have ne: "c \<noteq> CHR ''-''" "c \<noteq> CHR ''+''" using sign by auto
    then show ?thesis using False assms digits_loop_nat [of "nat i"]
      by (simp add: Atoi_def Itoa_def c Let_def)
  qed
qed

lemma Itoa_inj: "Itoa i = Itoa j \<Longrightarrow> i = j"
proof -
  have d: "digits_loop 0 (nat_digits m) = digits_loop 0 (nat_digits n) \<Longrightarrow> m = n" for m n
    by (simp add: digits_loop_nat)
  have s: "nat_digits m \<noteq> CHR ''-'' # ds" for m ds
    using nat_digits_digits [of "CHR ''-''" m] by (auto simp: is_digit_def)
  show "Itoa i = Itoa j \<Longrightarrow> i = j"
    using d [of "nat i" "nat j"] d [of "nat (- i)" "nat (- j)"] s s [symmetric]
    by (auto simp: Itoa_def split: if_splits)
qed

end
