(* ===== verification/KvClient.thy ===== *)
theory KvClient
  imports KvServer PrimaryBackup GoText
begin

text \<open>
  The command-line clients of the two stores (\<open>hw2/client/main.go\<close>, \<open>hw3/client/main.go\<close>). The
  servers behind the connections are a state \<open>'w\<close> with one function per RPC, which takes the address and
  answers with a response or a status error; an address that cannot be dialled is one that \<open>reachable\<close>
  refuses. What a command prints on stdout and its exit status are its result; what goes to stderr is
  left out.
\<close>

section \<open>The network\<close>

record ('w, 'put, 'get, 'prim) net =
  reachable :: "'w \<Rightarrow> string \<Rightarrow> bool"
  call_put :: "'w \<Rightarrow> string \<Rightarrow> PutRequest \<Rightarrow> 'w \<times> 'put rpc"
  call_get :: "'w \<Rightarrow> string \<Rightarrow> string \<Rightarrow> 'w \<times> 'get rpc"
  call_primary :: "'w \<Rightarrow> string \<Rightarrow> 'w \<times> 'prim rpc"

text \<open>Lines on stdout and the exit status.\<close>

type_synonym cli = "string list \<times> int"

definition usage :: cli where
  "usage = ([], 1)"

section \<open>The Raft client\<close>

type_synonym 'w raft_net = "('w, PutResponse, GetResponse, GetPrimaryResponse) net"

text \<open>\<open>doPut\<close>: \<open>None\<close> is any error.\<close>

definition doPut :: "'w raft_net \<Rightarrow> 'w \<Rightarrow> string \<Rightarrow> string \<Rightarrow> string \<Rightarrow> 'w \<times> PutResponse option" where
  "doPut N w key val addr =
     (if \<not> reachable N w addr then (w, None)
      else case call_put N w addr \<lparr>put_key = key, put_value = val\<rparr> of
        (w', Inl e) \<Rightarrow> (w', None)
      | (w', Inr resp) \<Rightarrow> (w', Some resp))"

definition cmdPut :: "'w raft_net \<Rightarrow> 'w \<Rightarrow> string \<Rightarrow> string \<Rightarrow> string \<Rightarrow> 'w \<times> cli" where
  "cmdPut N w key val addr =
     (case doPut N w key val addr of
        (w, None) \<Rightarrow> (w, [], 1)
      | (w, Some resp) \<Rightarrow>
          if \<not> pr_ok resp then
            if pr_redirect resp = '''' then (w, [], 1)
            else (case doPut N w key val (pr_redirect resp) of
              (w, None) \<Rightarrow> (w, [], 1)
            | (w, Some resp) \<Rightarrow> if \<not> pr_ok resp then (w, [], 1) else (w, [''OK''], 0))
          else (w, [''OK''], 0))"

definition cmdGet :: "'w raft_net \<Rightarrow> 'w \<Rightarrow> string \<Rightarrow> string \<Rightarrow> 'w \<times> cli" where
  "cmdGet N w key addr =
     (if \<not> reachable N w addr then (w, [], 1)
      else case call_get N w addr key of
        (w, Inl e) \<Rightarrow> (w, [], 1)
      | (w, Inr resp) \<Rightarrow> if \<not> gr_found resp then (w, [''(not found)''], 0) else (w, [gr_value resp], 0))"

definition cmdPrimary :: "'w raft_net \<Rightarrow> 'w \<Rightarrow> string \<Rightarrow> 'w \<times> cli" where
  "cmdPrimary N w addr =
     (if \<not> reachable N w addr then (w, [], 1)
      else case call_primary N w addr of
        (w, Inl e) \<Rightarrow> (w, [], 1)
      | (w, Inr resp) \<Rightarrow> (w, [''primary: node '' @ Itoa (gp_id resp) @ '' at '' @ gp_addr resp], 0))"

text \<open>\<open>os.Args\<close> has the program first.\<close>

definition kvctl :: "'w raft_net \<Rightarrow> 'w \<Rightarrow> string list \<Rightarrow> 'w \<times> cli" where
  "kvctl N w args =
     (if length args < 2 then (w, usage)
      else if args ! 1 = ''put'' then
        (if length args \<noteq> 5 then (w, usage) else cmdPut N w (args ! 2) (args ! 3) (args ! 4))
      else if args ! 1 = ''get'' then
        (if length args \<noteq> 4 then (w, usage) else cmdGet N w (args ! 2) (args ! 3))
      else if args ! 1 = ''primary'' then
        (if length args \<noteq> 3 then (w, usage) else cmdPrimary N w (args ! 2))
      else (w, usage))"

section \<open>The primary-backup client\<close>

type_synonym 'w pb_net = "('w, PbPutResponse, PbGetResponse, PbPrimaryResponse) net"

definition go_bool :: "bool \<Rightarrow> string" where
  "go_bool b = (if b then ''true'' else ''false'')"

definition pb_put_line :: "PbPutResponse \<Rightarrow> string" where
  "pb_put_line resp = ''ok='' @ go_bool (pbp_ok resp) @ '' lamport_ts='' @ Itoa (pbp_ts resp)"

definition pb_cmdPut :: "'w pb_net \<Rightarrow> 'w \<Rightarrow> string \<Rightarrow> string \<Rightarrow> string \<Rightarrow> 'w \<times> cli" where
  "pb_cmdPut N w key val addr =
     (let req = \<lparr>put_key = key, put_value = val\<rparr>
      in if \<not> reachable N w addr then (w, [], 1)
         else case call_put N w addr req of
           (w, Inl e) \<Rightarrow> (w, [], 1)
         | (w, Inr resp) \<Rightarrow>
             if \<not> pbp_ok resp \<and> pbp_redirect resp \<noteq> '''' then
               if \<not> reachable N w (pbp_redirect resp) then (w, [], 1)
               else (case call_put N w (pbp_redirect resp) req of
                 (w, Inl e) \<Rightarrow> (w, [], 1)
               | (w, Inr resp) \<Rightarrow> if \<not> pbp_ok resp then (w, [], 1) else (w, [pb_put_line resp], 0))
             else (w, [pb_put_line resp], 0))"

definition pb_cmdGet :: "'w pb_net \<Rightarrow> 'w \<Rightarrow> string \<Rightarrow> string \<Rightarrow> 'w \<times> cli" where
  "pb_cmdGet N w key addr =
     (if \<not> reachable N w addr then (w, [], 1)
      else case call_get N w addr key of
        (w, Inl e) \<Rightarrow> (w, [], 1)
      | (w, Inr resp) \<Rightarrow>
          if pbg_found resp then
            (w, [''found=true value='' @ pbg_value resp @ '' lamport_ts='' @ Itoa (pbg_ts resp)], 0)
          else (w, [''found=false''], 0))"

definition pb_cmdPrimary :: "'w pb_net \<Rightarrow> 'w \<Rightarrow> string \<Rightarrow> 'w \<times> cli" where
  "pb_cmdPrimary N w addr =
     (if \<not> reachable N w addr then (w, [], 1)
      else case call_primary N w addr of
        (w, Inl e) \<Rightarrow> (w, [], 1)
      | (w, Inr resp) \<Rightarrow> (w, [''primary_id='' @ Itoa (pbr_id resp) @ '' addr='' @ pbr_addr resp], 0))"

definition pb_kvctl :: "'w pb_net \<Rightarrow> 'w \<Rightarrow> string list \<Rightarrow> 'w \<times> cli" where
  "pb_kvctl N w args =
     (if length args < 2 then (w, usage)
      else if args ! 1 = ''put'' then
        (if length args \<noteq> 5 then (w, usage) else pb_cmdPut N w (args ! 2) (args ! 3) (args ! 4))
      else if args ! 1 = ''get'' then
        (if length args \<noteq> 4 then (w, usage) else pb_cmdGet N w (args ! 2) (args ! 3))
      else if args ! 1 = ''primary'' then
        (if length args \<noteq> 3 then (w, usage) else pb_cmdPrimary N w (args ! 2))
      else (w, usage))"

section \<open>Facts\<close>

text \<open>
  Exit status 0 of the Raft client's put means that the addressed server, or the one it redirected to,
  answered ok; the second server is asked only after a refusal of the first.
\<close>

lemma cmdPut_ok:
  assumes "cmdPut N w key val addr = (w', out, 0)"
  shows "\<exists>w1 r1. doPut N w key val addr = (w1, Some r1) \<and>
    (pr_ok r1 \<and> w' = w1 \<or>
     \<not> pr_ok r1 \<and> pr_redirect r1 \<noteq> '''' \<and>
     (\<exists>r2. doPut N w1 key val (pr_redirect r1) = (w', Some r2) \<and> pr_ok r2)) \<and> out = [''OK'']"
  using assms by (auto simp: cmdPut_def split: prod.splits option.splits if_splits)

text \<open>
  The primary-backup client does not check the answer when there is no address to go to: a put that
  nobody accepted ends with status 0.
\<close>

lemma pb_cmdPut_refused_succeeds:
  assumes "reachable N w addr" and "call_put N w addr \<lparr>put_key = key, put_value = val\<rparr> = (w', Inr resp)"
    and "\<not> pbp_ok resp" and "pbp_redirect resp = ''''"
  shows "pb_cmdPut N w key val addr = (w', [''ok=false lamport_ts='' @ Itoa (pbp_ts resp)], 0)"
  using assms by (simp add: pb_cmdPut_def pb_put_line_def go_bool_def)

text \<open>The node the redirection of a backup leads to is the one it takes for the primary.\<close>

lemma redirect_leads_to_primary:
  assumes "nd_role n \<noteq> RolePrimary" and "Self (nd_cfg n) (nd_primary n) = Inr d" and "ClientAddr d \<noteq> ''''"
    and "reachable N w addr" and "call_put N w addr \<lparr>put_key = key, put_value = val\<rparr> = (w1, Inr resp)"
    and "pb_put_begin n key val = Inl resp" and "reachable N w1 (ClientAddr d)"
    and "call_put N w1 (ClientAddr d) \<lparr>put_key = key, put_value = val\<rparr> = (w2, Inr resp2)" and "pbp_ok resp2"
  shows "pb_cmdPut N w key val addr = (w2, [''ok=true lamport_ts='' @ Itoa (pbp_ts resp2)], 0)"
proof -
  have "resp = \<lparr>pbp_ok = False, pbp_redirect = ClientAddr d, pbp_ts = 0\<rparr>"
    using assms(1,2,6) by (auto simp: pb_put_begin_def redirect_reply_def)
  then show ?thesis using assms by (simp add: pb_cmdPut_def pb_put_line_def go_bool_def)
qed

end
