(* ===== verification/Wire.thy ===== *)
theory Wire
  imports ClusterConfig Rpc
begin

text \<open>
  A connection between a command-line client and a running cluster, for any cluster that is a function
  \<open>run\<close> from a state and a list of events to the next state. What the rest of the cluster does before and
  during a call is a plan, an arbitrary list of events, and so is whether the reply arrives; so a statement
  for all plans is one for all interleavings, delays and failures.
\<close>

section \<open>Plans and calls\<close>

record 'ev errand =
  er_before :: "'ev list"
  er_during :: "'ev list"
  er_replies :: bool

record ('sys, 'ev) wire =
  wr_sys :: 'sys
  wr_next :: nat
  wr_plan :: "'ev errand list"

definition addr_node :: "ClusterConfig \<Rightarrow> string \<Rightarrow> int32 option" where
  "addr_node cfg addr = map_option ID (find (\<lambda>n. ClientAddr n = addr) (Nodes cfg))"

definition no_answer :: "'a rpc" where
  "no_answer = Inl (Status Unavailable ''no answer'')"

text \<open>
  A call takes the next errand of the plan; \<open>work\<close> are the handler's own events, and \<open>answer\<close> reads the
  result off the system before and after the errand. A plan the system cannot follow answers nothing.
\<close>

definition travel ::
  "('sys \<Rightarrow> 'ev list \<Rightarrow> 'sys option) \<Rightarrow> ('sys, 'ev) wire \<Rightarrow> (nat \<Rightarrow> 'ev list) \<Rightarrow>
     (nat \<Rightarrow> 'sys \<Rightarrow> 'sys \<Rightarrow> 'a rpc) \<Rightarrow> ('sys, 'ev) wire \<times> 'a rpc" where
  "travel run w work answer =
     (case wr_plan w of
        [] \<Rightarrow> (w, no_answer)
      | e # es \<Rightarrow>
          (case run (wr_sys w) (er_before e) of
             None \<Rightarrow> (w\<lparr>wr_plan := es\<rparr>, no_answer)
           | Some sys1 \<Rightarrow>
               (case run sys1 (work (wr_next w) @ er_during e) of
                  None \<Rightarrow> (w\<lparr>wr_plan := es\<rparr>, no_answer)
                | Some sys2 \<Rightarrow>
                    (\<lparr>wr_sys = sys2, wr_next = Suc (wr_next w), wr_plan = es\<rparr>,
                     if er_replies e then answer (wr_next w) sys1 sys2 else no_answer))))"

text \<open>A call at an address of the configuration; any other address answers nothing.\<close>

definition call_node ::
  "('sys \<Rightarrow> 'ev list \<Rightarrow> 'sys option) \<Rightarrow> ClusterConfig \<Rightarrow> ('sys, 'ev) wire \<Rightarrow> string \<Rightarrow>
     (int32 \<Rightarrow> nat \<Rightarrow> 'ev list) \<Rightarrow> (int32 \<Rightarrow> nat \<Rightarrow> 'sys \<Rightarrow> 'sys \<Rightarrow> 'a rpc) \<Rightarrow> ('sys, 'ev) wire \<times> 'a rpc" where
  "call_node run cfg w addr work answer =
     (case addr_node cfg addr of
        None \<Rightarrow> (w, no_answer)
      | Some i \<Rightarrow> travel run w (work i) (answer i))"

lemma addr_node_id: "addr_node cfg addr = Some i \<Longrightarrow> i \<in> node_ids cfg"
  by (auto simp: addr_node_def node_ids_def find_Some_iff)

lemma no_answer_not_Inr [simp]: "no_answer \<noteq> Inr r"
  by (simp add: no_answer_def)

section \<open>What a call does to the cluster\<close>

text \<open>The contract of a cluster: running it leads to a later state.\<close>

locale courier =
  fixes run :: "'sys \<Rightarrow> 'ev list \<Rightarrow> 'sys option" and later :: "'sys \<Rightarrow> 'sys \<Rightarrow> bool"
  assumes run_later: "run s evs = Some s' \<Longrightarrow> later s s'"
    and later_refl: "later s s"
    and later_trans: "later a b \<Longrightarrow> later b c \<Longrightarrow> later a c"
begin

text \<open>A call that got an answer has run its errand.\<close>

lemma travel_answered:
  assumes "travel run w work answer = (w', Inr r)"
  obtains sys1 and e :: "'ev errand" where "later (wr_sys w) sys1"
    and "run sys1 (work (wr_next w) @ er_during e) = Some (wr_sys w')"
    and "answer (wr_next w) sys1 (wr_sys w') = Inr r"
proof (cases "wr_plan w")
  case Nil
  then show ?thesis using assms by (simp add: travel_def)
next
  case (Cons e es)
  then obtain sys1 where sys1: "run (wr_sys w) (er_before e) = Some sys1"
    using assms by (auto simp: travel_def split: option.splits)
  then obtain sys2 where sys2: "run sys1 (work (wr_next w) @ er_during e) = Some sys2"
    using assms Cons by (auto simp: travel_def split: option.splits)
  have "wr_sys w' = sys2" "answer (wr_next w) sys1 sys2 = Inr r"
    using assms Cons sys1 sys2 by (auto simp: travel_def split: if_splits)
  then show ?thesis using that run_later [OF sys1] sys2 by blast
qed

lemma travel_later:
  assumes "travel run w work answer = (w', r)"
  shows "later (wr_sys w) (wr_sys w')"
  using assms
  by (auto simp: travel_def later_refl split: list.splits option.splits if_splits dest!: run_later
      intro: later_trans)

lemma call_answered:
  assumes "call_node run cfg w addr work answer = (w', Inr r)"
  obtains i sys1 and e :: "'ev errand" where "addr_node cfg addr = Some i" and "later (wr_sys w) sys1"
    and "run sys1 (work i (wr_next w) @ er_during e) = Some (wr_sys w')"
    and "answer i (wr_next w) sys1 (wr_sys w') = Inr r"
proof -
  obtain i where i: "addr_node cfg addr = Some i" "travel run w (work i) (answer i) = (w', Inr r)"
    using assms by (auto simp: call_node_def split: option.splits)
  show ?thesis by (rule travel_answered [OF i(2)]) (rule that [OF i(1)])
qed

lemma call_later: "call_node run cfg w addr work answer = (w', r) \<Longrightarrow> later (wr_sys w) (wr_sys w')"
  by (auto simp: call_node_def later_refl split: option.splits dest: travel_later)

end

end
