(* ===== verification/KvSession.thy ===== *)
theory KvSession
  imports KvTheorems KvClient Wire
begin

text \<open>
  The command-line client in front of the replicated store: the network of \<open>KvClient\<close> is instantiated
  with the system of \<open>KvSystem\<close>, over the connections of \<open>Wire\<close>.
\<close>

section \<open>The wire\<close>

type_synonym kv_wire = "(system, kv_event) wire"

definition put_answer :: "int32 \<Rightarrow> nat \<Rightarrow> system \<Rightarrow> PutResponse rpc" where
  "put_answer i n sys =
     (case calls (servers sys i) n of
        None \<Rightarrow> no_answer
      | Some call \<Rightarrow> (case pc_phase call of Returned r \<Rightarrow> r | _ \<Rightarrow> no_answer))"

definition wire_put :: "ClusterConfig \<Rightarrow> kv_wire \<Rightarrow> string \<Rightarrow> PutRequest \<Rightarrow> kv_wire \<times> PutResponse rpc" where
  "wire_put cfg w addr req =
     call_node (kv_run cfg) cfg w addr (\<lambda>i n. [Begin i n req]) (\<lambda>i n before now. put_answer i n now)"

definition wire_get :: "ClusterConfig \<Rightarrow> kv_wire \<Rightarrow> string \<Rightarrow> string \<Rightarrow> kv_wire \<times> GetResponse rpc" where
  "wire_get cfg w addr key =
     call_node (kv_run cfg) cfg w addr (\<lambda>i n. []) (\<lambda>i n before now. Inr (Get (servers before i) key))"

definition wire_primary :: "ClusterConfig \<Rightarrow> kv_wire \<Rightarrow> string \<Rightarrow> kv_wire \<times> GetPrimaryResponse rpc" where
  "wire_primary cfg w addr =
     call_node (kv_run cfg) cfg w addr (\<lambda>i n. [])
       (\<lambda>i n before now. case GetPrimary (servers now i) (nodes (raft before) i) of
          None \<Rightarrow> no_answer | Some r \<Rightarrow> r)"

definition raft_wire :: "ClusterConfig \<Rightarrow> kv_wire raft_net" where
  "raft_wire cfg =
     \<lparr>reachable = (\<lambda>w addr. True), call_put = wire_put cfg, call_get = wire_get cfg,
      call_primary = wire_primary cfg\<rparr>"

lemma raft_wire_sel [simp]:
  "net.reachable (raft_wire cfg) w addr" "call_put (raft_wire cfg) = wire_put cfg"
  "call_get (raft_wire cfg) = wire_get cfg" "call_primary (raft_wire cfg) = wire_primary cfg"
  by (simp_all add: raft_wire_def)

section \<open>Calls on the wire\<close>




lemma kv_run_append:
  "kv_run cfg sys (xs @ ys) = (case kv_run cfg sys xs of None \<Rightarrow> None | Some sys' \<Rightarrow> kv_run cfg sys' ys)"
  by (induction xs arbitrary: sys) (auto split: option.splits)






section \<open>Reading what was written\<close>















end
