(* ===== verification/PbCluster.thy ===== *)
theory PbCluster
  imports PrimaryBackup "HOL-Library.Sublist"
begin

text \<open>
  The cluster of \<open>hw2\<close>: all nodes, the RPCs in flight, the \<open>Put\<close> calls and elections in progress, and
  the clock on the wall. An event is one critical section; any interleaving is a run. Messages may be
  delayed for ever; each replication request is handled at most once, and a goroutine may give up
  (time out) before or after its request is handled. A handler with two critical sections is two
  events; \<open>arrived\<close> and \<open>heard\<close> are the requests between them, and \<open>looks\<close> what the rounds of
  \<open>monitorPeers\<close> have read and not yet compared with the time. \<open>written\<close> is a history variable: the
  writes a node has applied to its store, in order.
\<close>

section \<open>State\<close>

record put_op =
  po_req :: ReplicateRequest
  po_wait :: "int32 set"
  po_failed :: bool
  po_result :: "PbPutResponse rpc option"

text \<open>An election in progress: its announcement, whom it may ask, whom it has asked.\<close>

record election =
  el_req :: AnnounceLeaderRequest
  el_may :: "int32 set"
  el_asked :: "int32 option"

record pb_system =
  pnodes :: "int32 \<Rightarrow> Node"
  wall :: int
  puts :: "int32 \<times> nat \<rightharpoonup> put_op"
  repl :: "(int32 \<times> nat \<times> int32) set"
  arrived :: "(int32 \<times> nat \<times> int32) set"
  repl_done :: "(int32 \<times> nat \<times> int32) set"
  beats :: "(int32 \<times> HeartbeatRequest) set"
  heard :: "(int32 \<times> HeartbeatRequest) set"
  looks :: "(int32 \<times> int32 \<times> int) set"
  launched :: "int32 \<Rightarrow> nat"
  races :: "int32 \<rightharpoonup> election"
  announces :: "(int32 \<times> AnnounceLeaderRequest) set"
  answers :: "(int32 \<times> AnnounceLeaderRequest \<times> bool) set"
  written :: "int32 \<Rightarrow> ReplicateRequest list"

datatype pb_event =
    PutBegin int32 nat string string
  | ReplicateAt int32 nat int32
  | ReplicateStore int32 nat int32
  | ReplyOk int32 nat int32
  | GiveUp int32 nat int32
  | PutFinish int32 nat
  | SendBeat int32 int32
  | BeatAt int32 HeartbeatRequest
  | BeatClock int32 HeartbeatRequest
  | Wait int
  | Look int32 int32
  | Suspect int32 int32 int
  | Stand int32
  | Ask int32 int32
  | AnnounceAt int32 AnnounceLeaderRequest
  | Conclude int32 answer

text \<open>A node as \<open>main\<close> leaves it: dialled to every other node of the configuration.\<close>

definition started_node :: "int32 \<Rightarrow> ClusterConfig \<Rightarrow> Node" where
  "started_node i cfg = (newNode i cfg)\<lparr>nd_peers := set (map ID (Peers cfg i))\<rparr>"

definition pb_initial :: "ClusterConfig \<Rightarrow> pb_system" where
  "pb_initial cfg =
     \<lparr>pnodes = (\<lambda>i. started_node i cfg), wall = 0, puts = (\<lambda>_. None), repl = {}, arrived = {}, repl_done = {},
      beats = {}, heard = {}, looks = {}, launched = (\<lambda>_. 0), races = (\<lambda>_. None), announces = {}, answers = {}, written = (\<lambda>_. [])\<rparr>"

definition set_pnode :: "pb_system \<Rightarrow> int32 \<Rightarrow> Node \<Rightarrow> pb_system" where
  "set_pnode s i n = s\<lparr>pnodes := (pnodes s)(i := n)\<rparr>"

definition set_put :: "pb_system \<Rightarrow> int32 \<Rightarrow> nat \<Rightarrow> put_op \<Rightarrow> pb_system" where
  "set_put s i c p = s\<lparr>puts := (puts s)((i, c) \<mapsto> p)\<rparr>"

section \<open>Steps\<close>

text \<open>\<open>launched\<close> counts the \<open>runElection\<close> goroutines that have not yet taken the mutex.\<close>

text \<open>\<open>None\<close>: the event cannot happen in this state.\<close>

fun pb_fire :: "ClusterConfig \<Rightarrow> pb_system \<Rightarrow> pb_event \<Rightarrow> pb_system option" where
  "pb_fire cfg s (PutBegin i c key val) =
     (if i \<in> node_ids cfg \<and> puts s (i, c) = None then
        (case pb_put_begin (pnodes s i) key val of
           Inl r \<Rightarrow> Some (set_put s i c
             \<lparr>po_req = \<lparr>rr_key = key, rr_value = val, rr_ts = 0, rr_origin = i\<rparr>, po_wait = {},
              po_failed = False, po_result = Some (Inr r)\<rparr>)
         | Inr (n, req) \<Rightarrow>
             Some ((set_put (set_pnode s i n) i c
               \<lparr>po_req = req, po_wait = nd_peers n, po_failed = False, po_result = None\<rparr>)
               \<lparr>repl := repl s \<union> (\<lambda>p. (i, c, p)) ` nd_peers n\<rparr>))
      else None)"
| "pb_fire cfg s (ReplicateAt i c p) =
     (case puts s (i, c) of
        Some op \<Rightarrow>
          (if (i, c, p) \<in> repl s then
             Some ((set_pnode s p (fst (replicate_clock (pnodes s p) (po_req op))))
               \<lparr>repl := repl s - {(i, c, p)}, arrived := insert (i, c, p) (arrived s)\<rparr>)
           else None)
      | None \<Rightarrow> None)"
| "pb_fire cfg s (ReplicateStore i c p) =
     (case puts s (i, c) of
        Some op \<Rightarrow>
          (if (i, c, p) \<in> arrived s then
             Some ((set_pnode s p (replicate_store (pnodes s p) (po_req op)))
               \<lparr>arrived := arrived s - {(i, c, p)}, repl_done := insert (i, c, p) (repl_done s),
                written := (written s)(p := written s p @ [po_req op])\<rparr>)
           else None)
      | None \<Rightarrow> None)"
| "pb_fire cfg s (ReplyOk i c p) =
     (case puts s (i, c) of
        Some op \<Rightarrow>
          (if p \<in> po_wait op \<and> (i, c, p) \<in> repl_done s
           then Some (set_put s i c (op\<lparr>po_wait := po_wait op - {p}\<rparr>)) else None)
      | None \<Rightarrow> None)"
| "pb_fire cfg s (GiveUp i c p) =
     (case puts s (i, c) of
        Some op \<Rightarrow>
          (if p \<in> po_wait op
           then Some (set_put s i c (op\<lparr>po_wait := po_wait op - {p}, po_failed := True\<rparr>)) else None)
      | None \<Rightarrow> None)"
| "pb_fire cfg s (PutFinish i c) =
     (case puts s (i, c) of
        Some op \<Rightarrow>
          (if po_wait op = {} \<and> po_result op = None then
             (case pb_put_finish (pnodes s i) (po_req op) (po_failed op) of
                (n, r) \<Rightarrow>
                  Some ((set_put (set_pnode s i n) i c (op\<lparr>po_result := Some r\<rparr>))
                    \<lparr>written := (if po_failed op then written s
                        else (written s)(i := written s i @ [po_req op]))\<rparr>))
           else None)
      | None \<Rightarrow> None)"
| "pb_fire cfg s (SendBeat i p) =
     (if i \<in> node_ids cfg \<and> p \<in> heartbeat_targets (pnodes s i) then
        (case heartbeat_send (pnodes s i) of
           (n, req) \<Rightarrow> Some ((set_pnode s i n)\<lparr>beats := insert (p, req) (beats s)\<rparr>))
      else None)"
| "pb_fire cfg s (BeatAt p req) =
     (if (p, req) \<in> beats s then
        Some ((set_pnode s p (fst (heartbeat_seen (pnodes s p) (wall s) req)))
          \<lparr>beats := beats s - {(p, req)}, heard := insert (p, req) (heard s)\<rparr>)
      else None)"
| "pb_fire cfg s (BeatClock p req) =
     (if (p, req) \<in> heard s then
        Some ((set_pnode s p (fst (heartbeat_clock (pnodes s p) req)))\<lparr>heard := heard s - {(p, req)}\<rparr>)
      else None)"
| "pb_fire cfg s (Wait d) = (if 0 \<le> d then Some (s\<lparr>wall := wall s + d\<rparr>) else None)"
| "pb_fire cfg s (Look i p) =
     (case last_seen (pnodes s i) p of
        None \<Rightarrow> None
      | Some ts \<Rightarrow> if i \<in> node_ids cfg then Some (s\<lparr>looks := insert (i, p, ts) (looks s)\<rparr>) else None)"
| "pb_fire cfg s (Suspect i p ts) =
     (if i \<in> node_ids cfg \<and> (i, p, ts) \<in> looks s \<and> reports_dead (wall s) ts then
        Some ((if onPeerDead (pnodes s i) p then s\<lparr>launched := (launched s)(i := launched s i + 1)\<rparr> else s)
          \<lparr>looks := looks s - {(i, p, ts)}\<rparr>)
      else None)"
| "pb_fire cfg s (Stand i) =
     (if 0 < launched s i then
        (case elect_stand (pnodes s i) of
           None \<Rightarrow> Some (s\<lparr>launched := (launched s)(i := launched s i - 1)\<rparr>)
         | Some (n, req, may) \<Rightarrow>
             Some ((set_pnode s i n)
               \<lparr>launched := (launched s)(i := launched s i - 1),
                races := (races s)(i \<mapsto> \<lparr>el_req = req, el_may = may, el_asked = None\<rparr>)\<rparr>))
      else None)"
| "pb_fire cfg s (Ask i p) =
     (case races s i of
        Some e \<Rightarrow>
          (if p \<in> el_may e \<and> el_asked e = None then
             Some (s\<lparr>races := (races s)(i \<mapsto> e\<lparr>el_asked := Some p\<rparr>),
                     announces := insert (p, el_req e) (announces s)\<rparr>)
           else None)
      | None \<Rightarrow> None)"
| "pb_fire cfg s (AnnounceAt p req) =
     (if (p, req) \<in> announces s then
        (case AnnounceLeader (pnodes s p) req of
           (n, acc) \<Rightarrow>
             Some ((set_pnode s p n)
               \<lparr>announces := announces s - {(p, req)}, answers := insert (p, req, acc) (answers s)\<rparr>))
      else None)"
| "pb_fire cfg s (Conclude i a) =
     (case races s i of
        Some e \<Rightarrow>
          (if (case a of
                 Accepted \<Rightarrow>
                   (case el_asked e of None \<Rightarrow> False | Some p \<Rightarrow> (p, el_req e, True) \<in> answers s)
               | Rejected p \<Rightarrow> el_asked e = Some p \<and> (p, el_req e, False) \<in> answers s
               | NoAnswer \<Rightarrow> el_asked e \<noteq> None \<or> el_may e = {})
           then
             Some ((set_pnode s i (elect_conclude (pnodes s i) a))
               \<lparr>races := (races s)(i := None),
                announces := announces s \<union>
                  (if a = Accepted then (\<lambda>p. (p, el_req e)) ` nd_peers (pnodes s i) else {})\<rparr>)
           else None)
      | None \<Rightarrow> None)"

text \<open>The two events of a handler, one after the other, are the handler.\<close>

lemma replicate_steps:
  assumes "puts s (i, c) = Some op" and "(i, c, p) \<in> repl s"
  shows "\<exists>s1 s2. pb_fire cfg s (ReplicateAt i c p) = Some s1 \<and> pb_fire cfg s1 (ReplicateStore i c p) = Some s2 \<and>
    pnodes s2 p = fst (Replicate (pnodes s p) (po_req op))"
  using assms by (simp add: set_pnode_def Replicate_def case_prod_beta)

lemma beat_steps:
  assumes "(p, req) \<in> beats s"
  shows "\<exists>s1 s2. pb_fire cfg s (BeatAt p req) = Some s1 \<and> pb_fire cfg s1 (BeatClock p req) = Some s2 \<and>
    pnodes s2 p = fst (Heartbeat (pnodes s p) (wall s) req)"
  using assms by (simp add: set_pnode_def Heartbeat_def case_prod_beta)

inductive pb_reachable :: "ClusterConfig \<Rightarrow> pb_system \<Rightarrow> bool" for cfg where
  pb_boot: "pb_reachable cfg (pb_initial cfg)"
| pb_next: "pb_reachable cfg s \<Longrightarrow> pb_fire cfg s ev = Some s' \<Longrightarrow> pb_reachable cfg s'"

fun pb_run :: "ClusterConfig \<Rightarrow> pb_system \<Rightarrow> pb_event list \<Rightarrow> pb_system option" where
  "pb_run cfg s [] = Some s"
| "pb_run cfg s (ev # evs) =
     (case pb_fire cfg s ev of None \<Rightarrow> None | Some s' \<Rightarrow> pb_run cfg s' evs)"

lemma pb_run_reachable: "pb_reachable cfg s \<Longrightarrow> pb_run cfg s evs = Some s' \<Longrightarrow> pb_reachable cfg s'"
  by (induction evs arbitrary: s) (auto split: option.splits, blast intro: pb_next)

section \<open>The invariant of replication\<close>

definition replayed_writes :: "ReplicateRequest list \<Rightarrow> TsStore" where
  "replayed_writes ws = tskv.replay ts_new (map (\<lambda>r. (rr_key r, rr_value r, rr_ts r)) ws)"

lemma replayed_writes_snoc:
  "replayed_writes (ws @ [r]) = ts_put (replayed_writes ws) (rr_key r) (rr_value r) (rr_ts r)"
  by (simp add: replayed_writes_def)

lemma replayed_writes_Nil: "replayed_writes [] = ts_new"
  by (simp add: replayed_writes_def)

definition pnode_ok :: "ClusterConfig \<Rightarrow> pb_system \<Rightarrow> int32 \<Rightarrow> bool" where
  "pnode_ok cfg s i \<longleftrightarrow>
     nd_id (pnodes s i) = i \<and> nd_cfg (pnodes s i) = cfg \<and>
     nd_peers (pnodes s i) = set (map ID (Peers cfg i)) \<and>
     nd_store (pnodes s i) = replayed_writes (written s i) \<and>
     (\<forall>r \<in> set (written s i). rr_ts r \<le> Now (nd_clk (pnodes s i)))"

definition put_ok :: "pb_system \<Rightarrow> int32 \<Rightarrow> nat \<Rightarrow> put_op \<Rightarrow> bool" where
  "put_ok s i c op \<longleftrightarrow>
     (po_result op = None \<longrightarrow>
        rr_ts (po_req op) \<le> Now (nd_clk (pnodes s i)) \<and>
        (po_failed op \<or>
         (\<forall>p \<in> nd_peers (pnodes s i) - po_wait op. po_req op \<in> set (written s p)))) \<and>
     (\<forall>r. po_result op = Some (Inr r) \<longrightarrow> pbp_ok r \<longrightarrow>
        po_req op \<in> set (written s i) \<and> (\<forall>p \<in> nd_peers (pnodes s i). po_req op \<in> set (written s p)))"

definition pb_inv :: "ClusterConfig \<Rightarrow> pb_system \<Rightarrow> bool" where
  "pb_inv cfg s \<longleftrightarrow>
     (\<forall>i. pnode_ok cfg s i) \<and>
     (\<forall>i c op. puts s (i, c) = Some op \<longrightarrow> put_ok s i c op) \<and>
     (\<forall>(i, c, p) \<in> repl_done s. \<forall>op. puts s (i, c) = Some op \<longrightarrow> po_req op \<in> set (written s p)) \<and>
     (\<forall>(i, c, p) \<in> repl s \<union> arrived s \<union> repl_done s. puts s (i, c) \<noteq> None) \<and>
     (\<forall>(i, c, p) \<in> arrived s. \<forall>op. puts s (i, c) = Some op \<longrightarrow> rr_ts (po_req op) \<le> Now (nd_clk (pnodes s p)))"

text \<open>What every step does to the fields the invariant speaks of.\<close>

definition pb_keeps :: "pb_system \<Rightarrow> pb_system \<Rightarrow> bool" where
  "pb_keeps s s' \<longleftrightarrow>
     (\<forall>i. nd_id (pnodes s' i) = nd_id (pnodes s i) \<and> nd_cfg (pnodes s' i) = nd_cfg (pnodes s i) \<and>
          nd_peers (pnodes s' i) = nd_peers (pnodes s i) \<and>
          Now (nd_clk (pnodes s i)) \<le> Now (nd_clk (pnodes s' i)) \<and>
          prefix (written s i) (written s' i))"

lemma pb_keeps_local:
  "pnodes s' = (pnodes s)(i := n) \<Longrightarrow> nd_id n = nd_id (pnodes s i) \<Longrightarrow> nd_cfg n = nd_cfg (pnodes s i) \<Longrightarrow>
   nd_peers n = nd_peers (pnodes s i) \<Longrightarrow> Now (nd_clk (pnodes s i)) \<le> Now (nd_clk n) \<Longrightarrow>
   written s' = written s \<or> (\<exists>w. written s' = (written s)(i := written s i @ w)) \<Longrightarrow> pb_keeps s s'"
  by (auto simp: pb_keeps_def prefix_def)

lemma pb_fire_keeps: "pb_fire cfg s ev = Some s' \<Longrightarrow> pb_keeps s s'"
proof (cases ev)
  case (PutBegin i c key val)
  assume "pb_fire cfg s ev = Some s'"
  then show ?thesis
    using PutBegin by (auto simp: pb_keeps_def pb_put_begin_def Tick_simp Now_def set_put_def set_pnode_def
        split: if_splits sum.splits)
next
  case (ReplicateAt i c p)
  assume "pb_fire cfg s ev = Some s'"
  then show ?thesis
    using ReplicateAt by (auto simp: pb_keeps_def replicate_clock_def Update_simp Now_def set_pnode_def
        split: if_splits option.splits)
next
  case (ReplicateStore i c p)
  assume "pb_fire cfg s ev = Some s'"
  then show ?thesis
    using ReplicateStore by (auto simp: pb_keeps_def set_pnode_def split: if_splits option.splits)
next
  case (PutFinish i c)
  assume "pb_fire cfg s ev = Some s'"
  then show ?thesis
    using PutFinish by (auto simp: pb_keeps_def pb_put_finish_def set_put_def set_pnode_def
        split: if_splits option.splits)
next
  case (SendBeat i p)
  assume "pb_fire cfg s ev = Some s'"
  then show ?thesis
    using SendBeat by (auto simp: pb_keeps_def heartbeat_send_def Tick_simp Now_def set_pnode_def
        split: if_splits)
next
  case (BeatAt p req)
  assume "pb_fire cfg s ev = Some s'"
  then show ?thesis
    using BeatAt by (auto simp: pb_keeps_def set_pnode_def split: if_splits)
next
  case (BeatClock p req)
  assume "pb_fire cfg s ev = Some s'"
  then show ?thesis
    using BeatClock by (auto simp: pb_keeps_def heartbeat_clock_def Update_simp Now_def set_pnode_def split: if_splits)
next
  case (Stand i)
  assume "pb_fire cfg s ev = Some s'"
  then show ?thesis
    using Stand by (auto simp: pb_keeps_def elect_stand_def Tick_simp Now_def set_pnode_def
        split: if_splits option.splits)
next
  case (AnnounceAt p req)
  assume "pb_fire cfg s ev = Some s'"
  then show ?thesis
    using AnnounceAt by (auto simp: pb_keeps_def AnnounceLeader_def set_pnode_def Let_def split: if_splits)
next
  case (Conclude i a)
  assume "pb_fire cfg s ev = Some s'"
  then show ?thesis
    using Conclude by (auto simp: pb_keeps_def elect_conclude_def set_pnode_def
        split: if_splits option.splits answer.splits)
qed (auto simp: pb_keeps_def set_put_def split: if_splits option.splits)

lemma keeps_written: "pb_keeps s s' \<Longrightarrow> r \<in> set (written s p) \<Longrightarrow> r \<in> set (written s' p)"
  unfolding pb_keeps_def using set_mono_prefix by blast

lemma put_ok_keeps:
  assumes k: "pb_keeps s s'" and ok: "put_ok s i c op"
  shows "put_ok s' i c op"
proof -
  have "nd_peers (pnodes s' i) = nd_peers (pnodes s i)"
    "Now (nd_clk (pnodes s i)) \<le> Now (nd_clk (pnodes s' i))" using k by (auto simp: pb_keeps_def)
  then show ?thesis using ok keeps_written [OF k] unfolding put_ok_def by fastforce
qed

text \<open>A node that changes neither its store nor its writes stays fine when its clock moves on.\<close>

lemma pnode_ok_same:
  assumes "pnode_ok cfg s i" and "pb_keeps s s'" and "nd_store (pnodes s' i) = nd_store (pnodes s i)"
    and "written s' i = written s i"
  shows "pnode_ok cfg s' i"
proof -
  have k: "nd_id (pnodes s' i) = nd_id (pnodes s i)" "nd_cfg (pnodes s' i) = nd_cfg (pnodes s i)"
    "nd_peers (pnodes s' i) = nd_peers (pnodes s i)"
    "Now (nd_clk (pnodes s i)) \<le> Now (nd_clk (pnodes s' i))"
    using assms(2) by (auto simp: pb_keeps_def)
  show ?thesis unfolding pnode_ok_def k(1-3)
    using assms(1,3,4) k(4) by (fastforce simp: pnode_ok_def)
qed

lemma pnode_ok_write:
  assumes "pnode_ok cfg s i" and "pb_keeps s s'"
    and "nd_store (pnodes s' i) = ts_put (nd_store (pnodes s i)) (rr_key r) (rr_value r) (rr_ts r)"
    and "written s' i = written s i @ [r]" and "rr_ts r \<le> Now (nd_clk (pnodes s' i))"
  shows "pnode_ok cfg s' i"
proof -
  have k: "nd_id (pnodes s' i) = nd_id (pnodes s i)" "nd_cfg (pnodes s' i) = nd_cfg (pnodes s i)"
    "nd_peers (pnodes s' i) = nd_peers (pnodes s i)"
    "Now (nd_clk (pnodes s i)) \<le> Now (nd_clk (pnodes s' i))"
    using assms(2) by (auto simp: pb_keeps_def)
  show ?thesis unfolding pnode_ok_def k(1-3) assms(4)
    using assms(1,3,5) k(4) by (fastforce simp: pnode_ok_def replayed_writes_snoc)
qed

lemma pb_invD:
  assumes "pb_inv cfg s"
  shows "pnode_ok cfg s i" and "puts s (i, c) = Some op \<Longrightarrow> put_ok s i c op"
    and "(i, c, p) \<in> repl_done s \<Longrightarrow> puts s (i, c) = Some op \<Longrightarrow> po_req op \<in> set (written s p)"
    and "(i, c, p) \<in> repl s \<or> (i, c, p) \<in> arrived s \<or> (i, c, p) \<in> repl_done s \<Longrightarrow> puts s (i, c) \<noteq> None"
    and "(i, c, p) \<in> arrived s \<Longrightarrow> puts s (i, c) = Some op \<Longrightarrow> rr_ts (po_req op) \<le> Now (nd_clk (pnodes s p))"
  using assms unfolding pb_inv_def by blast+

lemma pb_invI:
  assumes "\<And>i. pnode_ok cfg s i" and "\<And>i c op. puts s (i, c) = Some op \<Longrightarrow> put_ok s i c op"
    and "\<And>i c p op. (i, c, p) \<in> repl_done s \<Longrightarrow> puts s (i, c) = Some op \<Longrightarrow> po_req op \<in> set (written s p)"
    and "\<And>i c p. (i, c, p) \<in> repl s \<or> (i, c, p) \<in> arrived s \<or> (i, c, p) \<in> repl_done s \<Longrightarrow> puts s (i, c) \<noteq> None"
    and "\<And>i c p op. (i, c, p) \<in> arrived s \<Longrightarrow> puts s (i, c) = Some op \<Longrightarrow>
      rr_ts (po_req op) \<le> Now (nd_clk (pnodes s p))"
  shows "pb_inv cfg s"
  using assms unfolding pb_inv_def by blast

lemma keeps_now: "pb_keeps s s' \<Longrightarrow> t \<le> Now (nd_clk (pnodes s p)) \<Longrightarrow> t \<le> Now (nd_clk (pnodes s' p))"
  unfolding pb_keeps_def by (meson order_trans)

text \<open>Steps that touch no call and write nothing.\<close>

lemma pb_inv_quiet:
  assumes inv: "pb_inv cfg s" and k: "pb_keeps s s'"
    and "puts s' = puts s" "repl s' = repl s" "arrived s' = arrived s" "repl_done s' = repl_done s"
    and "written s' = written s" and "\<And>i. nd_store (pnodes s' i) = nd_store (pnodes s i)"
  shows "pb_inv cfg s'"
proof (rule pb_invI, unfold assms(3-6))
  show "pnode_ok cfg s' i" for i using pnode_ok_same [OF pb_invD(1) [OF inv] k] assms(7,8) by simp
  show "put_ok s' i c op" if "puts s (i, c) = Some op" for i c op
    using put_ok_keeps [OF k pb_invD(2) [OF inv]] that by simp
  show "po_req op \<in> set (written s' p)" if "(i, c, p) \<in> repl_done s" "puts s (i, c) = Some op" for i c p op
    using pb_invD(3) [OF inv that] assms(7) by simp
  show "rr_ts (po_req op) \<le> Now (nd_clk (pnodes s' p))"
    if "(i, c, p) \<in> arrived s" "puts s (i, c) = Some op" for i c p op
    by (rule keeps_now [OF k pb_invD(5) [OF inv that]])
qed (use pb_invD(4) [OF inv] in blast)

text \<open>A step that updates one call.\<close>

lemma pb_inv_call:
  assumes inv: "pb_inv cfg s" and k: "pb_keeps s s'"
    and puts': "puts s' = (puts s)((i, c) \<mapsto> op)" and new: "put_ok s' i c op"
    and same: "\<And>old. puts s (i, c) = Some old \<Longrightarrow> po_req op = po_req old"
    and r: "repl s' \<subseteq> repl s \<union> {(i, c, p) |p. True}" and ar: "arrived s' = arrived s" and rd: "repl_done s' = repl_done s"
    and nodes': "\<And>j. pnode_ok cfg s' j"
  shows "pb_inv cfg s'"
proof (rule pb_invI)
  show "put_ok s' j d x" if "puts s' (j, d) = Some x" for j d x
  proof (cases "(j, d) = (i, c)")
    case True
    then show ?thesis using that new puts' by simp
  next
    case False
    then have "puts s (j, d) = Some x" using that puts' by auto
    then show ?thesis by (rule put_ok_keeps [OF k pb_invD(2) [OF inv]])
  qed
  have old: "\<exists>y. puts s (j, d) = Some y \<and> po_req x = po_req y"
    if "puts s (j, d) \<noteq> None" "puts s' (j, d) = Some x" for j d x
    using that same puts' by (cases "(j, d) = (i, c)") auto
  show "po_req x \<in> set (written s' p)"
    if h: "(j, d, p) \<in> repl_done s'" and x: "puts s' (j, d) = Some x" for j d p x
  proof -
    have d: "(j, d, p) \<in> repl_done s" using h rd by simp
    then obtain y where "puts s (j, d) = Some y" "po_req x = po_req y"
      using old [OF pb_invD(4) [OF inv] x] by blast
    then show ?thesis using keeps_written [OF k pb_invD(3) [OF inv d]] by simp
  qed
  show "rr_ts (po_req x) \<le> Now (nd_clk (pnodes s' p))"
    if h: "(j, d, p) \<in> arrived s'" and x: "puts s' (j, d) = Some x" for j d p x
  proof -
    have d: "(j, d, p) \<in> arrived s" using h ar by simp
    then obtain y where "puts s (j, d) = Some y" "po_req x = po_req y"
      using old [OF pb_invD(4) [OF inv] x] by blast
    then show ?thesis using keeps_now [OF k pb_invD(5) [OF inv d]] by simp
  qed
  show "puts s' (j, d) \<noteq> None"
    if "(j, d, p) \<in> repl s' \<or> (j, d, p) \<in> arrived s' \<or> (j, d, p) \<in> repl_done s'" for j d p
  proof (cases "(j, d) = (i, c)")
    case False
    then have "(j, d, p) \<in> repl s \<or> (j, d, p) \<in> arrived s \<or> (j, d, p) \<in> repl_done s" using that r ar rd by auto
    then show ?thesis using pb_invD(4) [OF inv, of j d p] puts' False by auto
  qed (simp add: puts')
qed (rule nodes')

lemma pb_inv_initial: "pb_inv cfg (pb_initial cfg)"
  by (simp add: pb_inv_def pb_initial_def pnode_ok_def started_node_def newNode_def replayed_writes_Nil)

lemma pb_inv_begin:
  assumes inv: "pb_inv cfg s" and f: "pb_fire cfg s (PutBegin i c key val) = Some s'"
  shows "pb_inv cfg s'"
proof -
  note k = pb_fire_keeps [OF f]
  have fresh: "puts s (i, c) = None" using f by (auto split: if_splits)
  show ?thesis
  proof (cases "nd_role (pnodes s i) = RolePrimary")
    case False
    let ?op = "\<lparr>po_req = \<lparr>rr_key = key, rr_value = val, rr_ts = 0, rr_origin = i\<rparr>, po_wait = {},
      po_failed = False, po_result = Some (Inr (redirect_reply (pnodes s i)))\<rparr>"
    have s': "s' = set_put s i c ?op" using f False by (auto simp: pb_put_begin_def split: if_splits)
    show ?thesis
    proof (rule pb_inv_call [OF inv k])
      show "puts s' = (puts s)((i, c) \<mapsto> ?op)" by (simp add: s' set_put_def)
      show "put_ok s' i c ?op"
        by (auto simp: put_ok_def redirect_reply_def split: sum.splits)
      show "pnode_ok cfg s' j" for j
        using pb_invD(1) [OF inv, of j] by (simp add: s' set_put_def pnode_ok_def)
    qed (use fresh in \<open>auto simp: s' set_put_def\<close>)
  next
    case True
    let ?clk = "fst (Tick (nd_clk (pnodes s i)))" and ?ts = "snd (Tick (nd_clk (pnodes s i)))"
    let ?n = "(pnodes s i)\<lparr>nd_clk := ?clk\<rparr>"
    let ?req = "\<lparr>rr_key = key, rr_value = val, rr_ts = ?ts, rr_origin = nd_id (pnodes s i)\<rparr>"
    let ?op = "\<lparr>po_req = ?req, po_wait = nd_peers ?n, po_failed = False, po_result = None\<rparr>"
    have s': "s' = (set_put (set_pnode s i ?n) i c ?op)
        \<lparr>repl := repl s \<union> (\<lambda>p. (i, c, p)) ` nd_peers ?n\<rparr>"
      using f True by (auto simp: pb_put_begin_def split: if_splits prod.splits)
    show ?thesis
    proof (rule pb_inv_call [OF inv k])
      show "puts s' = (puts s)((i, c) \<mapsto> ?op)" by (simp add: s' set_put_def set_pnode_def)
      show "put_ok s' i c ?op"
        by (simp add: put_ok_def s' set_put_def set_pnode_def Tick_simp Now_def)
      show "pnode_ok cfg s' j" for j
        by (rule pnode_ok_same [OF pb_invD(1) [OF inv] k]) (simp_all add: s' set_put_def set_pnode_def)
    qed (use fresh in \<open>auto simp: s' set_put_def set_pnode_def\<close>)
  qed
qed

lemma pb_inv_reply:
  assumes inv: "pb_inv cfg s" and f: "pb_fire cfg s ev = Some s'"
    and ev: "ev = ReplyOk i c p \<or> ev = GiveUp i c p"
  shows "pb_inv cfg s'"
proof -
  note k = pb_fire_keeps [OF f]
  obtain op where op: "puts s (i, c) = Some op" "p \<in> po_wait op"
    using f ev by (auto split: option.splits if_splits)
  have rd: "(i, c, p) \<in> repl_done s" if "ev = ReplyOk i c p"
    using f that op(1) by (auto split: if_splits)
  let ?op = "if ev = ReplyOk i c p then op\<lparr>po_wait := po_wait op - {p}\<rparr>
    else op\<lparr>po_wait := po_wait op - {p}, po_failed := True\<rparr>"
  have s': "s' = set_put s i c ?op" using f ev op(1) by (auto split: if_splits)
  have ok: "put_ok s i c op" using pb_invD(2) [OF inv op(1)] .
  show ?thesis
  proof (rule pb_inv_call [OF inv k])
    show "puts s' = (puts s)((i, c) \<mapsto> ?op)" by (simp add: s' set_put_def)
    have "po_req op \<in> set (written s p)" if "ev = ReplyOk i c p"
      using pb_invD(3) [OF inv rd [OF that] op(1)] .
    then show "put_ok s' i c ?op"
      using ok by (auto simp: put_ok_def s' set_put_def)
    show "pnode_ok cfg s' j" for j
      using pb_invD(1) [OF inv, of j] by (simp add: s' set_put_def pnode_ok_def)
    show "po_req ?op = po_req old" if "puts s (i, c) = Some old" for old using that op(1) by simp
  qed (auto simp: s' set_put_def)
qed

lemma pb_inv_finish:
  assumes inv: "pb_inv cfg s" and f: "pb_fire cfg s (PutFinish i c) = Some s'"
  shows "pb_inv cfg s'"
proof -
  note k = pb_fire_keeps [OF f]
  obtain op where op: "puts s (i, c) = Some op" "po_wait op = {}" "po_result op = None"
    using f by (auto split: option.splits if_splits)
  have ok: "put_ok s i c op" using pb_invD(2) [OF inv op(1)] .
  show ?thesis
  proof (cases "po_failed op")
    case True
    let ?op = "op\<lparr>po_result := Some (Inl (Status Unavailable ''replication failed''))\<rparr>"
    have s': "s' = set_put (set_pnode s i (pnodes s i)) i c ?op"
      using f op True by (simp add: pb_put_finish_def set_put_def set_pnode_def)
    show ?thesis
    proof (rule pb_inv_call [OF inv k])
      show "puts s' = (puts s)((i, c) \<mapsto> ?op)" by (simp add: s' set_put_def set_pnode_def)
      show "put_ok s' i c ?op" by (simp add: put_ok_def)
      show "pnode_ok cfg s' j" for j
        by (rule pnode_ok_same [OF pb_invD(1) [OF inv] k]) (simp_all add: s' set_put_def set_pnode_def)
      show "po_req ?op = po_req old" if "puts s (i, c) = Some old" for old using that op(1) by simp
    qed (auto simp: s' set_put_def set_pnode_def)
  next
    case False
    let ?r = "po_req op"
    let ?op = "op\<lparr>po_result := Some (Inr \<lparr>pbp_ok = True, pbp_redirect = [], pbp_ts = rr_ts ?r\<rparr>)\<rparr>"
    let ?n = "(pnodes s i)\<lparr>nd_store := ts_put (nd_store (pnodes s i)) (rr_key ?r) (rr_value ?r) (rr_ts ?r)\<rparr>"
    have s': "s' = (set_put (set_pnode s i ?n) i c ?op)\<lparr>written := (written s)(i := written s i @ [?r])\<rparr>"
      using f op False by (simp add: pb_put_finish_def set_put_def set_pnode_def)
    show ?thesis
    proof (rule pb_inv_call [OF inv k])
      show "puts s' = (puts s)((i, c) \<mapsto> ?op)" by (simp add: s' set_put_def set_pnode_def)
      show "put_ok s' i c ?op"
        using ok op(2,3) False by (auto simp: put_ok_def s' set_put_def set_pnode_def)
      show "pnode_ok cfg s' j" for j
      proof (cases "j = i")
        case True
        show ?thesis
          by (rule pnode_ok_write [OF pb_invD(1) [OF inv] k, of j ?r])
            (use ok op(3) True in \<open>simp_all add: s' set_put_def set_pnode_def put_ok_def\<close>)
      next
        case False
        show ?thesis
          by (rule pnode_ok_same [OF pb_invD(1) [OF inv] k])
            (use False in \<open>simp_all add: s' set_put_def set_pnode_def\<close>)
      qed
      show "po_req ?op = po_req old" if "puts s (i, c) = Some old" for old using that op(1) by simp
    qed (auto simp: s' set_put_def set_pnode_def)
  qed
qed

lemma pb_inv_replicate:
  assumes inv: "pb_inv cfg s" and f: "pb_fire cfg s (ReplicateAt i c p) = Some s'"
  shows "pb_inv cfg s'"
proof -
  note k = pb_fire_keeps [OF f]
  obtain op where op: "puts s (i, c) = Some op" "(i, c, p) \<in> repl s"
    using f by (auto split: option.splits if_splits)
  let ?n = "fst (replicate_clock (pnodes s p) (po_req op))"
  have s': "s' = (set_pnode s p ?n)\<lparr>repl := repl s - {(i, c, p)}, arrived := insert (i, c, p) (arrived s)\<rparr>"
    using f op by simp
  have same: "puts s' = puts s" "repl_done s' = repl_done s" "written s' = written s"
    by (simp_all add: s' set_pnode_def)
  have st: "rr_ts (po_req op) \<le> Now (nd_clk ?n)" by (simp add: replicate_clock_def Update_simp Now_def)
  show ?thesis
  proof (rule pb_invI, unfold same)
    show "pnode_ok cfg s' j" for j
      by (rule pnode_ok_same [OF pb_invD(1) [OF inv] k]) (simp_all add: s' set_pnode_def)
    show "put_ok s' j d x" if "puts s (j, d) = Some x" for j d x
      using that by (intro put_ok_keeps [OF k] pb_invD(2) [OF inv])
    show "puts s (j, d) \<noteq> None" if "(j, d, q) \<in> repl s' \<or> (j, d, q) \<in> arrived s' \<or> (j, d, q) \<in> repl_done s" for j d q
      using that pb_invD(4) [OF inv, of j d q] op(1) by (auto simp: s' set_pnode_def)
    show "rr_ts (po_req x) \<le> Now (nd_clk (pnodes s' q))"
      if h: "(j, d, q) \<in> arrived s'" "puts s (j, d) = Some x" for j d q x
    proof (cases "(j, d, q) = (i, c, p)")
      case True
      then show ?thesis using st op(1) h(2) by (simp add: s' set_pnode_def)
    next
      case False
      then have "(j, d, q) \<in> arrived s" using h(1) by (auto simp: s' set_pnode_def)
      then show ?thesis by (rule keeps_now [OF k pb_invD(5) [OF inv _ h(2)]])
    qed
  qed (rule pb_invD(3) [OF inv])
qed

lemma pb_inv_store:
  assumes inv: "pb_inv cfg s" and f: "pb_fire cfg s (ReplicateStore i c p) = Some s'"
  shows "pb_inv cfg s'"
proof -
  note k = pb_fire_keeps [OF f]
  obtain op where op: "puts s (i, c) = Some op" "(i, c, p) \<in> arrived s"
    using f by (auto split: option.splits if_splits)
  let ?r = "po_req op"
  have s': "s' = (set_pnode s p (replicate_store (pnodes s p) ?r))
      \<lparr>arrived := arrived s - {(i, c, p)}, repl_done := insert (i, c, p) (repl_done s),
       written := (written s)(p := written s p @ [?r])\<rparr>"
    using f op by simp
  have same: "puts s' = puts s" "repl s' = repl s" by (simp_all add: s' set_pnode_def)
  have st: "rr_ts ?r \<le> Now (nd_clk (pnodes s' p))"
    using pb_invD(5) [OF inv op(2,1)] by (simp add: s' set_pnode_def)
  show ?thesis
  proof (rule pb_invI, unfold same)
    show "pnode_ok cfg s' j" for j
    proof (cases "j = p")
      case True
      show ?thesis
        by (rule pnode_ok_write [OF pb_invD(1) [OF inv] k, of j ?r])
          (use True st in \<open>simp_all add: s' set_pnode_def\<close>)
    next
      case False
      show ?thesis
        by (rule pnode_ok_same [OF pb_invD(1) [OF inv] k]) (use False in \<open>simp_all add: s' set_pnode_def\<close>)
    qed
    show "put_ok s' j d x" if "puts s (j, d) = Some x" for j d x
      using that by (intro put_ok_keeps [OF k] pb_invD(2) [OF inv])
    show "po_req x \<in> set (written s' q)"
      if "(j, d, q) \<in> repl_done s'" "puts s (j, d) = Some x" for j d q x
    proof (cases "(j, d, q) = (i, c, p)")
      case True
      then show ?thesis using that(2) op(1) by (simp add: s' set_pnode_def)
    next
      case False
      then have "(j, d, q) \<in> repl_done s" using that(1) by (auto simp: s' set_pnode_def)
      then show ?thesis using keeps_written [OF k pb_invD(3) [OF inv]] that(2) by simp
    qed
    show "puts s (j, d) \<noteq> None"
      if "(j, d, q) \<in> repl s \<or> (j, d, q) \<in> arrived s' \<or> (j, d, q) \<in> repl_done s'" for j d q
      using that pb_invD(4) [OF inv, of j d q] op(1) by (auto simp: s' set_pnode_def)
    show "rr_ts (po_req x) \<le> Now (nd_clk (pnodes s' q))"
      if "(j, d, q) \<in> arrived s'" "puts s (j, d) = Some x" for j d q x
      using that by (intro keeps_now [OF k pb_invD(5) [OF inv]]) (auto simp: s' set_pnode_def)
  qed
qed

lemma pb_inv_fire:
  assumes inv: "pb_inv cfg s" and f: "pb_fire cfg s ev = Some s'"
  shows "pb_inv cfg s'"
proof -
  note q = pb_inv_quiet [OF inv pb_fire_keeps [OF f]]
  show ?thesis
  proof (cases ev)
    case (PutBegin i c key val)
    then show ?thesis using pb_inv_begin [OF inv] f by blast
  next
    case (ReplicateAt i c p)
    then show ?thesis using pb_inv_replicate [OF inv] f by blast
  next
    case (ReplicateStore i c p)
    then show ?thesis using pb_inv_store [OF inv] f by blast
  next
    case (ReplyOk i c p)
    then show ?thesis using pb_inv_reply [OF inv f] by blast
  next
    case (GiveUp i c p)
    then show ?thesis using pb_inv_reply [OF inv f] by blast
  next
    case (PutFinish i c)
    then show ?thesis using pb_inv_finish [OF inv] f by blast
  next
    case (SendBeat i p)
    then show ?thesis
      using f by (intro q) (auto simp: heartbeat_send_def set_pnode_def split: if_splits prod.splits)
  next
    case (BeatAt p req)
    then show ?thesis using f by (intro q) (auto simp: set_pnode_def split: if_splits)
  next
    case (BeatClock p req)
    then show ?thesis using f by (intro q) (auto simp: set_pnode_def split: if_splits)
  next
    case (Wait d)
    then show ?thesis using f by (intro q) (auto split: if_splits)
  next
    case (Look i p)
    then show ?thesis using f by (intro q) (auto split: if_splits option.splits)
  next
    case (Suspect i p ts)
    then show ?thesis using f by (intro q) (auto split: if_splits)
  next
    case (Stand i)
    then show ?thesis
      using f by (intro q) (auto simp: elect_stand_def set_pnode_def split: if_splits option.splits prod.splits)
  next
    case (Ask i p)
    then show ?thesis using f by (intro q) (auto split: if_splits option.splits)
  next
    case (AnnounceAt p req)
    then show ?thesis
      using f by (intro q) (auto simp: AnnounceLeader_def set_pnode_def Let_def split: if_splits)
  next
    case (Conclude i a)
    then show ?thesis
      using f by (intro q) (auto simp: elect_conclude_def set_pnode_def
          split: if_splits option.splits answer.splits)
  qed
qed

lemma pb_reachable_inv: "pb_reachable cfg s \<Longrightarrow> pb_inv cfg s"
  by (induction rule: pb_reachable.induct) (auto intro: pb_inv_initial pb_inv_fire)

section \<open>Across time\<close>

definition pb_later :: "ClusterConfig \<Rightarrow> pb_system \<Rightarrow> pb_system \<Rightarrow> bool" where
  "pb_later cfg s s' \<longleftrightarrow> rtranclp (\<lambda>a b. \<exists>ev. pb_fire cfg a ev = Some b) s s'"

lemma pb_later_refl: "pb_later cfg s s"
  by (simp add: pb_later_def)

lemma pb_later_trans: "pb_later cfg a b \<Longrightarrow> pb_later cfg b c \<Longrightarrow> pb_later cfg a c"
  unfolding pb_later_def by (rule rtranclp_trans)

lemma pb_run_later: "pb_run cfg s evs = Some s' \<Longrightarrow> pb_later cfg s s'"
  unfolding pb_later_def
  by (induction evs arbitrary: s)
    (auto split: option.splits intro: converse_rtranclp_into_rtranclp)

end
