(* ===== verification/PbTheorems.thy ===== *)
theory PbTheorems
  imports PbCluster
begin

text \<open>
  The properties of the primary-backup store: what an acknowledged write means, what a read returns,
  when the replicas agree and when they do not, and what an election decides.
\<close>

section \<open>Writes\<close>

lemma later_keeps: "pb_later cfg s s' \<Longrightarrow> pb_keeps s s'"
  unfolding pb_later_def
proof (induction rule: rtranclp_induct)
  case base
  then show ?case by (simp add: pb_keeps_def)
next
  case (step y z)
  then have "pb_keeps y z" using pb_fire_keeps by blast
  then show ?case using step.IH prefix_order.trans order_trans
    unfolding pb_keeps_def by (metis (no_types, lifting))
qed

lemma pb_later_reachable: "pb_later cfg s s' \<Longrightarrow> pb_reachable cfg s \<Longrightarrow> pb_reachable cfg s'"
  unfolding pb_later_def by (induction rule: rtranclp_induct) (auto intro: pb_next)

lemma peer_ids: "set (map ID (Peers cfg i)) = node_ids cfg - {i}"
  by (auto simp: Peers_filter node_ids_def)

lemma node_fields:
  assumes "pb_inv cfg s"
  shows "nd_store (pnodes s i) = replayed_writes (written s i)" and "nd_peers (pnodes s i) = node_ids cfg - {i}"
    and "nd_id (pnodes s i) = i" and "nd_cfg (pnodes s i) = cfg"
    and "r \<in> set (written s i) \<Longrightarrow> rr_ts r \<le> Now (nd_clk (pnodes s i))"
  using pb_invD(1) [OF assms, of i] by (auto simp: pnode_ok_def peer_ids simp del: set_map)

text \<open>What a read returns, in terms of the requests the node has applied.\<close>

definition last_write :: "ReplicateRequest list \<Rightarrow> string \<Rightarrow> ReplicateRequest option" where
  "last_write ws key = find (\<lambda>r. rr_key r = key) (rev ws)"

lemma find_map_of:
  "map_of (map (\<lambda>r. (rr_key r, rr_value r, rr_ts r)) ws) k =
     map_option (\<lambda>r. (rr_value r, rr_ts r)) (find (\<lambda>r. rr_key r = k) ws)"
  by (induction ws) auto

lemma ts_get_replayed:
  "ts_get (replayed_writes ws) k =
     (case last_write ws k of None \<Rightarrow> (\<lparr>TsValue = [], Ts = 0\<rparr>, False)
      | Some r \<Rightarrow> (\<lparr>TsValue = rr_value r, Ts = rr_ts r\<rparr>, True))"
  unfolding replayed_writes_def last_write_def
  by (auto simp: tskv.get_replay_empty rev_map find_map_of split: option.splits)

lemma pb_get_last_write:
  assumes "pb_inv cfg s"
  shows "pb_get (pnodes s i) key =
    (case last_write (written s i) key of None \<Rightarrow> \<lparr>pbg_found = False, pbg_value = [], pbg_ts = 0\<rparr>
     | Some r \<Rightarrow> \<lparr>pbg_found = True, pbg_value = rr_value r, pbg_ts = rr_ts r\<rparr>)"
  by (simp add: pb_get_def node_fields(1) [OF assms] ts_get_replayed split: option.splits)

lemma last_write_dropWhile:
  assumes "r \<in> set ws"
  shows "\<exists>w \<in> set (dropWhile (\<lambda>x. x \<noteq> r) ws). rr_key w = rr_key r \<and> last_write ws (rr_key r) = Some w"
  using assms
proof (induction ws rule: rev_induct)
  case (snoc x ws)
  show ?case
  proof (cases "rr_key x = rr_key r")
    case True
    have "x \<in> set (dropWhile (\<lambda>y. y \<noteq> r) (ws @ [x]))"
      using snoc.prems by (auto simp: dropWhile_append)
    then show ?thesis using True by (auto simp: last_write_def)
  next
    case False
    then have "r \<in> set ws" using snoc.prems by auto
    then show ?thesis using snoc.IH False by (fastforce simp: last_write_def dropWhile_append)
  qed
qed simp

text \<open>An acknowledged write is among the writes of the primary and of every peer, then and for ever.\<close>

lemma acknowledged_write:
  assumes "pb_reachable cfg s" and "puts s (i, c) = Some op" and "po_result op = Some (Inr r)" and "pbp_ok r"
    and "pb_later cfg s s'" and "j \<in> insert i (node_ids cfg)"
  shows "po_req op \<in> set (written s' j)"
proof -
  have inv: "pb_inv cfg s" using assms(1) by (rule pb_reachable_inv)
  have "put_ok s i c op" by (rule pb_invD(2) [OF inv assms(2)])
  then have "po_req op \<in> set (written s j)"
    using assms(3,4,6) node_fields(2) [OF inv, of i] by (cases "j = i") (auto simp: put_ok_def)
  then show ?thesis by (rule keeps_written [OF later_keeps [OF assms(5)]])
qed

text \<open>A \<open>Get\<close> at a node that has a write returns it or one that the node applied after it.\<close>

lemma get_after_write:
  assumes "pb_reachable cfg s" and "req \<in> set (written s j)"
  shows "\<exists>w \<in> set (dropWhile (\<lambda>x. x \<noteq> req) (written s j)).
    rr_key w = rr_key req \<and>
    pb_get (pnodes s j) (rr_key req) = \<lparr>pbg_found = True, pbg_value = rr_value w, pbg_ts = rr_ts w\<rparr>"
  using last_write_dropWhile [OF assms(2)] pb_get_last_write [OF pb_reachable_inv [OF assms(1)], of j "rr_key req"]
  by fastforce

text \<open>The acknowledgement carries the timestamp of the write.\<close>

lemma acknowledged_ts:
  "pb_reachable cfg s \<Longrightarrow> puts s (i, c) = Some op \<Longrightarrow> po_result op = Some (Inr r) \<Longrightarrow> pbp_ok r \<Longrightarrow>
     pbp_ts r = rr_ts (po_req op)"
proof (induction arbitrary: op r rule: pb_reachable.induct)
  case (pb_next s ev s')
  show ?case
    using pb_next.hyps(2) pb_next.prems pb_next.IH
    by (cases ev)
      (auto simp: set_put_def set_pnode_def pb_put_begin_def pb_put_finish_def redirect_reply_def
        split: if_splits option.splits sum.splits prod.splits)
qed (simp add: pb_initial_def)

text \<open>
  What the acknowledgement of a \<open>Put\<close> means: its write is in the store of the primary and of
  every peer, and stays there. On each of these nodes, now and later, a \<open>Get\<close> of the key returns
  this write or one that the node applied after it.
\<close>

theorem acknowledged_put_replicated:
  assumes "pb_reachable cfg s" and "puts s (i, c) = Some op" and "po_result op = Some (Inr r)" and "pbp_ok r"
    and "pb_later cfg s s'" and "j \<in> insert i (node_ids cfg)"
  shows "\<exists>w \<in> set (dropWhile (\<lambda>x. x \<noteq> po_req op) (written s' j)).
    rr_key w = rr_key (po_req op) \<and>
    pb_get (pnodes s' j) (rr_key (po_req op)) =
      \<lparr>pbg_found = True, pbg_value = rr_value w, pbg_ts = rr_ts w\<rparr>"
  using assms by (intro get_after_write acknowledged_write) (auto intro: pb_later_reachable)

text \<open>
  A \<open>Get\<close> returns the write of the key that the node applied last, in the order it applied them
  (not the one with the largest timestamp), and the timestamp it returns is never ahead of the
  node's clock.
\<close>

lemma pb_get_returns_last_write:
  assumes "pb_reachable cfg s"
  shows "pb_get (pnodes s i) key =
      (case find (\<lambda>r. rr_key r = key) (rev (written s i)) of
         None \<Rightarrow> \<lparr>pbg_found = False, pbg_value = [], pbg_ts = 0\<rparr>
       | Some r \<Rightarrow> \<lparr>pbg_found = True, pbg_value = rr_value r, pbg_ts = rr_ts r\<rparr>) \<and>
    (pbg_found (pb_get (pnodes s i) key) \<longrightarrow> pbg_ts (pb_get (pnodes s i) key) \<le> Now (nd_clk (pnodes s i)))"
proof -
  have inv: "pb_inv cfg s" by (rule pb_reachable_inv [OF assms])
  have "rr_ts r \<le> Now (nd_clk (pnodes s i))" if "find (\<lambda>r. rr_key r = key) (rev (written s i)) = Some r" for r
    using that node_fields(5) [OF inv] by (auto simp: find_Some_iff) (metis nth_mem set_rev length_rev)
  then show ?thesis
    using pb_get_last_write [OF inv, of i key] by (auto simp: last_write_def split: option.splits)
qed

section \<open>When the replicas agree\<close>

text \<open>
  No \<open>Put\<close> starts while another one is in progress, and no replication RPC fails. \<open>quiet\<close>: every
  call has returned.
\<close>

definition quiet :: "pb_system \<Rightarrow> bool" where
  "quiet s \<longleftrightarrow> (\<forall>i c op. puts s (i, c) = Some op \<longrightarrow> po_result op \<noteq> None)"

inductive serial :: "ClusterConfig \<Rightarrow> pb_system \<Rightarrow> bool" for cfg where
  serial_boot: "serial cfg (pb_initial cfg)"
| serial_next: "serial cfg s \<Longrightarrow> pb_fire cfg s ev = Some s' \<Longrightarrow>
    (\<And>i c key val. ev = PutBegin i c key val \<Longrightarrow> quiet s) \<Longrightarrow> (\<And>i c p. ev \<noteq> GiveUp i c p) \<Longrightarrow> serial cfg s'"

lemma serial_reachable: "serial cfg s \<Longrightarrow> pb_reachable cfg s"
  by (induction rule: serial.induct) (auto intro: pb_boot pb_next)

text \<open>Between two calls all nodes have the same writes; during one, those it has reached have one more.\<close>

definition settled :: "ClusterConfig \<Rightarrow> pb_system \<Rightarrow> ReplicateRequest list \<Rightarrow> bool" where
  "settled cfg s W \<longleftrightarrow> quiet s \<and> repl s = {} \<and> arrived s = {} \<and> (\<forall>p \<in> node_ids cfg. written s p = W)"

definition writing :: "ClusterConfig \<Rightarrow> pb_system \<Rightarrow> ReplicateRequest list \<Rightarrow> int32 \<Rightarrow> nat \<Rightarrow> put_op \<Rightarrow> bool" where
  "writing cfg s W i c op \<longleftrightarrow>
     i \<in> node_ids cfg \<and> puts s (i, c) = Some op \<and> po_result op = None \<and> \<not> po_failed op \<and>
     (\<forall>j d x. puts s (j, d) = Some x \<longrightarrow> (j, d) \<noteq> (i, c) \<longrightarrow> po_result x \<noteq> None) \<and>
     repl s \<union> arrived s \<subseteq> {(i, c, p) |p. p \<in> po_wait op} \<and> po_wait op \<subseteq> node_ids cfg - {i} \<and>
     repl s \<inter> arrived s = {} \<and> (repl s \<union> arrived s) \<inter> repl_done s = {} \<and>
     (\<forall>p \<in> node_ids cfg. written s p =
        (if p = i \<or> (i, c, p) \<in> repl s \<union> arrived s then W else W @ [po_req op]))"

definition in_order :: "ClusterConfig \<Rightarrow> pb_system \<Rightarrow> bool" where
  "in_order cfg s \<longleftrightarrow> (\<exists>W. settled cfg s W \<or> (\<exists>i c op. writing cfg s W i c op))"

lemma in_order_same:
  "in_order cfg s \<Longrightarrow> puts s' = puts s \<Longrightarrow> repl s' = repl s \<Longrightarrow> arrived s' = arrived s \<Longrightarrow>
   repl_done s' = repl_done s \<Longrightarrow> written s' = written s \<Longrightarrow> in_order cfg s'"
  by (simp add: in_order_def settled_def writing_def quiet_def)

lemma quiet_settled: "in_order cfg s \<Longrightarrow> quiet s \<Longrightarrow> \<exists>W. settled cfg s W"
  unfolding in_order_def writing_def quiet_def by blast

lemma in_order_begin:
  assumes inv: "pb_inv cfg s" and f: "pb_fire cfg s (PutBegin i c key val) = Some s'"
    and W: "settled cfg s W"
  shows "in_order cfg s'"
proof -
  have i: "i \<in> node_ids cfg" and fresh: "puts s (i, c) = None" using f by (auto split: if_splits)
  show ?thesis
  proof (cases "pb_put_begin (pnodes s i) key val")
    case (Inl r)
    then have "settled cfg s' W"
      using f i fresh W by (auto simp: settled_def quiet_def set_put_def split: if_splits)
    then show ?thesis unfolding in_order_def by blast
  next
    case (Inr nr)
    obtain n req where nr: "nr = (n, req)" by (cases nr)
    let ?op = "\<lparr>po_req = req, po_wait = nd_peers n, po_failed = False, po_result = None\<rparr>"
    have s': "s' = (set_put (set_pnode s i n) i c ?op)\<lparr>repl := repl s \<union> (\<lambda>p. (i, c, p)) ` nd_peers n\<rparr>"
      using f i fresh Inr nr by simp
    have peers: "nd_peers n = node_ids cfg - {i}"
    proof -
      have "nd_peers n = nd_peers (pnodes s i)"
        using Inr nr by (auto simp: pb_put_begin_def Tick_simp split: if_splits)
      then show ?thesis using node_fields(2) [OF inv, of i] by simp
    qed
    have "(i, c, p) \<notin> repl_done s" for p using pb_invD(4) [OF inv, of i c p] fresh by auto
    moreover have q: "quiet s" "repl s = {}" "arrived s = {}" "\<And>p. p \<in> node_ids cfg \<Longrightarrow> written s p = W"
      using W by (auto simp: settled_def)
    moreover have "po_result x \<noteq> None" if "puts s' (j, d) = Some x" "(j, d) \<noteq> (i, c)" for j d x
    proof -
      have "puts s (j, d) = Some x" using that by (auto simp: s' set_put_def set_pnode_def)
      then show ?thesis using q(1) unfolding quiet_def by blast
    qed
    ultimately have "writing cfg s' W i c ?op"
      using i peers unfolding writing_def by (auto simp: s' set_put_def set_pnode_def image_iff)
    then show ?thesis unfolding in_order_def by blast
  qed
qed

lemma in_order_replicate:
  assumes f: "pb_fire cfg s (ReplicateAt i c p) = Some s'" and w: "in_order cfg s"
  shows "in_order cfg s'"
proof -
  obtain op where op: "puts s (i, c) = Some op" "(i, c, p) \<in> repl s"
    using f by (auto split: option.splits if_splits)
  have s': "s' = (set_pnode s p (fst (replicate_clock (pnodes s p) (po_req op))))
      \<lparr>repl := repl s - {(i, c, p)}, arrived := insert (i, c, p) (arrived s)\<rparr>"
    using f op by simp
  obtain W j d x where wr: "writing cfg s W j d x"
    using w op(2) by (auto simp: in_order_def settled_def)
  have eq: "j = i" "d = c" using wr op(2) by (auto simp: writing_def)
  have x: "x = op" using wr op(1) eq by (simp add: writing_def)
  have "writing cfg s' W i c op"
    using wr op unfolding x eq by (auto simp: writing_def s' set_pnode_def)
  then show ?thesis unfolding in_order_def by blast
qed

lemma in_order_store:
  assumes f: "pb_fire cfg s (ReplicateStore i c p) = Some s'" and w: "in_order cfg s"
  shows "in_order cfg s'"
proof -
  obtain op where op: "puts s (i, c) = Some op" "(i, c, p) \<in> arrived s"
    using f by (auto split: option.splits if_splits)
  have s': "s' = (set_pnode s p (replicate_store (pnodes s p) (po_req op)))
      \<lparr>arrived := arrived s - {(i, c, p)}, repl_done := insert (i, c, p) (repl_done s),
       written := (written s)(p := written s p @ [po_req op])\<rparr>"
    using f op by simp
  obtain W j d x where wr: "writing cfg s W j d x"
    using w op(2) by (auto simp: in_order_def settled_def)
  have eq: "j = i" "d = c" using wr op(2) by (auto simp: writing_def)
  have x: "x = op" using wr op(1) eq by (simp add: writing_def)
  have "writing cfg s' W i c op"
    using wr op unfolding x eq by (auto simp: writing_def s' set_pnode_def)
  then show ?thesis unfolding in_order_def by blast
qed

lemma in_order_reply:
  assumes f: "pb_fire cfg s (ReplyOk i c p) = Some s'" and w: "in_order cfg s"
  shows "in_order cfg s'"
proof -
  obtain op where op: "puts s (i, c) = Some op" "p \<in> po_wait op" "(i, c, p) \<in> repl_done s"
    using f by (auto split: option.splits if_splits)
  let ?op = "op\<lparr>po_wait := po_wait op - {p}\<rparr>"
  have s': "s' = set_put s i c ?op" using f op by simp
  obtain W where W: "settled cfg s W \<or> (\<exists>j d x. writing cfg s W j d x)" using w by (auto simp: in_order_def)
  then consider "settled cfg s W" | j d x where "writing cfg s W j d x" by blast
  then show ?thesis
  proof cases
    case 1
    then have "settled cfg s' W" using op by (auto simp: settled_def quiet_def s' set_put_def)
    then show ?thesis unfolding in_order_def by blast
  next
    case (2 j d x)
    show ?thesis
    proof (cases "(j, d) = (i, c)")
      case True
      then have wr: "writing cfg s W i c op" using 2 op(1) by (auto simp: writing_def)
      then have "repl s \<union> arrived s \<subseteq> {(i, c, p) |p. p \<in> po_wait op}" "(repl s \<union> arrived s) \<inter> repl_done s = {}"
        unfolding writing_def by blast+
      then have sub: "repl s \<union> arrived s \<subseteq> {(i, c, q) |q. q \<in> po_wait op - {p}}" using op(3) by blast
      have f: "puts s' = (puts s)((i, c) \<mapsto> ?op)" "repl s' = repl s" "arrived s' = arrived s"
        "repl_done s' = repl_done s" "written s' = written s" by (simp_all add: s' set_put_def)
      note c = wr [unfolded writing_def]
      have others: "\<forall>j d x. ((puts s)((i, c) \<mapsto> ?op)) (j, d) = Some x \<longrightarrow> (j, d) \<noteq> (i, c) \<longrightarrow> po_result x \<noteq> None"
        using c by simp
      have wait: "po_wait op - {p} \<subseteq> node_ids cfg - {i}" using c by blast
      have "writing cfg s' W i c ?op"
        unfolding writing_def f using c others wait sub by (intro conjI) simp_all
      then show ?thesis unfolding in_order_def by blast
    next
      case False
      then have "writing cfg s' W j d x"
        using 2 op by (auto simp: writing_def s' set_put_def)
      then show ?thesis unfolding in_order_def by blast
    qed
  qed
qed

lemma in_order_finish:
  assumes f: "pb_fire cfg s (PutFinish i c) = Some s'" and w: "in_order cfg s"
  shows "in_order cfg s'"
proof -
  obtain op where op: "puts s (i, c) = Some op" "po_wait op = {}" "po_result op = None"
    using f by (auto split: option.splits if_splits)
  have "\<not> quiet s" using op by (auto simp: quiet_def)
  then obtain W j d x where wr: "writing cfg s W j d x" using w by (auto simp: in_order_def settled_def)
  have eq: "j = i" "d = c" using wr op(1,3) unfolding writing_def by blast+
  have x: "x = op" using wr op(1) eq by (simp add: writing_def)
  have ok: "\<not> po_failed op" "repl s = {}" "arrived s = {}" using wr op(2) unfolding x eq by (auto simp: writing_def)
  have wt: "written s p = (if p = i then W else W @ [po_req op])" if "p \<in> node_ids cfg" for p
    using wr that ok(2,3) unfolding x eq writing_def by simp
  have others: "po_result y \<noteq> None" if "puts s (k, l) = Some y" "(k, l) \<noteq> (i, c)" for k l y
    using wr that unfolding x eq writing_def by blast
  let ?n = "fst (pb_put_finish (pnodes s i) (po_req op) (po_failed op))"
    and ?r = "snd (pb_put_finish (pnodes s i) (po_req op) (po_failed op))"
  have s': "s' = (set_put (set_pnode s i ?n) i c (op\<lparr>po_result := Some ?r\<rparr>))
      \<lparr>written := (written s)(i := written s i @ [po_req op])\<rparr>"
    using f op ok(1) by (simp add: case_prod_beta)
  have "quiet s'" using others by (auto simp: quiet_def s' set_put_def set_pnode_def split: if_splits)
  then have "settled cfg s' (W @ [po_req op])"
    using wt ok(2,3) by (simp add: settled_def s' set_put_def set_pnode_def)
  then show ?thesis unfolding in_order_def by blast
qed

lemma serial_in_order: "serial cfg s \<Longrightarrow> in_order cfg s"
proof (induction rule: serial.induct)
  case serial_boot
  have "settled cfg (pb_initial cfg) []" by (simp add: settled_def quiet_def pb_initial_def)
  then show ?case unfolding in_order_def by blast
next
  case (serial_next s ev s')
  note inv = pb_reachable_inv [OF serial_reachable [OF serial_next.hyps(1)]]
  note f = serial_next.hyps(2)
  note q = in_order_same [OF serial_next.IH]
  show ?case
  proof (cases ev)
    case (PutBegin i c key val)
    then have "quiet s" using serial_next.hyps(3) by blast
    then obtain W where "settled cfg s W" using quiet_settled [OF serial_next.IH] by blast
    then show ?thesis using in_order_begin [OF inv] f PutBegin by blast
  next
    case (ReplicateAt i c p)
    then show ?thesis using in_order_replicate serial_next.IH f by blast
  next
    case (ReplicateStore i c p)
    then show ?thesis using in_order_store serial_next.IH f by blast
  next
    case (ReplyOk i c p)
    then show ?thesis using in_order_reply serial_next.IH f by blast
  next
    case (GiveUp i c p)
    then show ?thesis using serial_next.hyps(4) by blast
  next
    case (PutFinish i c)
    then show ?thesis using in_order_finish serial_next.IH f by blast
  qed (rule q; use f in \<open>auto simp: set_pnode_def heartbeat_send_def elect_stand_def AnnounceLeader_def Let_def
        split: if_splits option.splits prod.splits\<close>)+
qed

text \<open>
  C21. If calls do not overlap and no replication RPC fails, all replicas hold the same store whenever
  no call is in progress.
\<close>

theorem serial_replicas_agree:
  assumes "serial cfg s" and "quiet s" and "i \<in> node_ids cfg" and "j \<in> node_ids cfg"
  shows "nd_store (pnodes s i) = nd_store (pnodes s j)"
proof -
  note inv = pb_reachable_inv [OF serial_reachable [OF assms(1)]]
  obtain W where "settled cfg s W" using quiet_settled [OF serial_in_order [OF assms(1)] assms(2)] by blast
  then show ?thesis using assms(3,4) by (simp add: node_fields(1) [OF inv] settled_def)
qed

end
