(* ===== verification/PbElections.thy ===== *)
theory PbElections
  imports PbTheorems
begin

text \<open>
  The elections of the primary-backup store: a primary stays primary for ever, so an election won beside
  a living primary leaves two; and two candidates that ask each other while both stand are decided by
  their ballots.
\<close>

section \<open>Shape of an election\<close>

text \<open>What the fields of an election mean, in any reachable state.\<close>

definition election_ok :: "pb_system \<Rightarrow> int32 \<Rightarrow> bool" where
  "election_ok s i \<longleftrightarrow>
     nd_electionTs (pnodes s i) \<le> Now (nd_clk (pnodes s i)) \<and>
     (case races s i of None \<Rightarrow> True
      | Some e \<Rightarrow>
          nd_role (pnodes s i) = RoleCandidate \<and>
          el_req e = \<lparr>al_primary = i, al_ts = nd_electionTs (pnodes s i)\<rparr> \<and>
          el_may e \<subseteq> nd_peers (pnodes s i) \<and> set_option (el_asked e) \<subseteq> el_may e)"

lemma election_okD:
  assumes "election_ok s i"
  shows "nd_electionTs (pnodes s i) \<le> Now (nd_clk (pnodes s i))"
    and "races s i = Some e \<Longrightarrow> nd_role (pnodes s i) = RoleCandidate"
    and "races s i = Some e \<Longrightarrow> el_req e = \<lparr>al_primary = i, al_ts = nd_electionTs (pnodes s i)\<rparr>"
    and "races s i = Some e \<Longrightarrow> el_may e \<subseteq> nd_peers (pnodes s i)"
    and "races s i = Some e \<Longrightarrow> el_asked e = Some p \<Longrightarrow> p \<in> el_may e"
  using assms by (auto simp: election_ok_def)

lemma election_ok_same:
  assumes "election_ok s i" and "races s' i = races s i" and "nd_role (pnodes s' i) = nd_role (pnodes s i)"
    and "nd_electionTs (pnodes s' i) = nd_electionTs (pnodes s i)" and "nd_peers (pnodes s' i) = nd_peers (pnodes s i)"
    and "Now (nd_clk (pnodes s i)) \<le> Now (nd_clk (pnodes s' i))"
  shows "election_ok s' i"
  using assms(1,6) unfolding election_ok_def assms(2-5) by auto

text \<open>Steps that leave roles and elections alone and let clocks advance.\<close>

definition election_frame :: "pb_system \<Rightarrow> pb_system \<Rightarrow> bool" where
  "election_frame s s' \<longleftrightarrow>
     races s' = races s \<and> announces s' = announces s \<and> answers s' = answers s \<and>
     (\<forall>i. nd_role (pnodes s' i) = nd_role (pnodes s i) \<and> nd_primary (pnodes s' i) = nd_primary (pnodes s i) \<and>
          nd_electionTs (pnodes s' i) = nd_electionTs (pnodes s i) \<and> nd_peers (pnodes s' i) = nd_peers (pnodes s i) \<and>
          Now (nd_clk (pnodes s i)) \<le> Now (nd_clk (pnodes s' i)))"

definition election_event :: "pb_event \<Rightarrow> bool" where
  "election_event ev \<longleftrightarrow>
     (case ev of Stand i \<Rightarrow> True | Ask i p \<Rightarrow> True | AnnounceAt p r \<Rightarrow> True | Conclude i a \<Rightarrow> True | _ \<Rightarrow> False)"

lemma keeps_clock: "pb_keeps s s' \<Longrightarrow> Now (nd_clk (pnodes s i)) \<le> Now (nd_clk (pnodes s' i))"
  and keeps_peers: "pb_keeps s s' \<Longrightarrow> nd_peers (pnodes s' i) = nd_peers (pnodes s i)"
  by (simp_all add: pb_keeps_def)

lemma election_frame_fire:
  assumes f: "pb_fire cfg s ev = Some s'" and ev: "\<not> election_event ev"
  shows "election_frame s s'"
proof -
  note k = pb_fire_keeps [OF f]
  show ?thesis
  proof (cases ev)
    case (PutBegin i c key val)
    then show ?thesis using f keeps_clock [OF k] keeps_peers [OF k]
      by (auto simp: election_frame_def set_put_def set_pnode_def pb_put_begin_def Tick_simp split: if_splits)
  next
    case (ReplicateAt i c p)
    then show ?thesis using f keeps_clock [OF k]
      by (auto simp: election_frame_def set_pnode_def split: if_splits option.splits)
  next
    case (PutFinish i c)
    then show ?thesis using f keeps_clock [OF k]
      by (auto simp: election_frame_def set_put_def set_pnode_def pb_put_finish_def split: if_splits option.splits)
  next
    case (SendBeat i p)
    then show ?thesis using f keeps_clock [OF k]
      by (auto simp: election_frame_def set_pnode_def heartbeat_send_def Tick_simp split: if_splits)
  next
    case (ReplicateStore i c p)
    then show ?thesis using f by (auto simp: election_frame_def set_pnode_def split: if_splits option.splits)
  next
    case (BeatAt p r)
    then show ?thesis using f keeps_clock [OF k]
      by (auto simp: election_frame_def set_pnode_def split: if_splits)
  next
    case (BeatClock p r)
    then show ?thesis using f keeps_clock [OF k]
      by (auto simp: election_frame_def set_pnode_def split: if_splits)
  qed (use f ev in \<open>auto simp: election_frame_def election_event_def set_put_def split: if_splits option.splits\<close>)
qed

section \<open>The election steps, as equations\<close>

lemma stand_fire:
  assumes "pb_fire cfg s (Stand i) = Some s'"
  shows "0 < launched s i" and
    "nd_role (pnodes s i) \<noteq> RoleBackup \<Longrightarrow> s' = s\<lparr>launched := (launched s)(i := launched s i - 1)\<rparr>" and
    "nd_role (pnodes s i) = RoleBackup \<Longrightarrow>
       (let ts = Now (nd_clk (pnodes s i)) + 1;
            n = (pnodes s i)\<lparr>nd_role := RoleCandidate, nd_clk := fst (Tick (nd_clk (pnodes s i))), nd_electionTs := ts\<rparr>
        in s' = (set_pnode s i n)\<lparr>launched := (launched s)(i := launched s i - 1),
             races := (races s)(i \<mapsto> \<lparr>el_req = \<lparr>al_primary = nd_id (pnodes s i), al_ts = ts\<rparr>,
               el_may = nd_peers (pnodes s i) - {nd_primary (pnodes s i)}, el_asked = None\<rparr>)\<rparr>)"
  using assms by (auto simp: elect_stand_def Let_def Tick_simp Now_def split: if_splits)

lemma ask_fire:
  assumes "pb_fire cfg s (Ask i p) = Some s'"
  shows "\<exists>e. races s i = Some e \<and> p \<in> el_may e \<and> el_asked e = None \<and>
    s' = s\<lparr>races := (races s)(i \<mapsto> e\<lparr>el_asked := Some p\<rparr>), announces := insert (p, el_req e) (announces s)\<rparr>"
  using assms by (auto split: if_splits option.splits)

lemma announce_fire:
  assumes "pb_fire cfg s (AnnounceAt p r) = Some s'"
  shows "(p, r) \<in> announces s \<and>
    s' = (set_pnode s p (fst (AnnounceLeader (pnodes s p) r)))
      \<lparr>announces := announces s - {(p, r)},
       answers := insert (p, r, snd (AnnounceLeader (pnodes s p) r)) (answers s)\<rparr>"
  using assms by (auto split: if_splits prod.splits)

lemma conclude_fire:
  assumes "pb_fire cfg s (Conclude i a) = Some s'"
  shows "\<exists>e. races s i = Some e \<and>
    (case a of Accepted \<Rightarrow> \<exists>p. el_asked e = Some p \<and> (p, el_req e, True) \<in> answers s
     | Rejected p \<Rightarrow> el_asked e = Some p \<and> (p, el_req e, False) \<in> answers s
     | NoAnswer \<Rightarrow> el_asked e \<noteq> None \<or> el_may e = {}) \<and>
    s' = (set_pnode s i (elect_conclude (pnodes s i) a))
      \<lparr>races := (races s)(i := None),
       announces := announces s \<union> (if a = Accepted then (\<lambda>p. (p, el_req e)) ` nd_peers (pnodes s i) else {})\<rparr>"
  using assms by (auto split: if_splits option.splits answer.splits)

lemma AnnounceLeader_primary:
  "nd_primary (fst (AnnounceLeader n r)) = (if local_ballot n < request_ballot r then al_primary r else nd_primary n)"
  using AnnounceLeader_ballot [of n r] by (simp add: AnnounceLeader_def Let_def split: if_splits)

lemma elect_conclude_frame [simp, frame_simps]:
  "nd_id (elect_conclude n a) = nd_id n" "nd_clk (elect_conclude n a) = nd_clk n"
  "nd_peers (elect_conclude n a) = nd_peers n" "nd_electionTs (elect_conclude n a) = nd_electionTs n"
  by (auto simp: elect_conclude_def split: answer.splits)

lemma elect_conclude_role: "nd_role (elect_conclude n a) = (if a = Accepted then RolePrimary else RoleBackup)"
  by (auto simp: elect_conclude_def split: answer.splits)

lemma elect_conclude_primary:
  "nd_primary (elect_conclude n a) =
     (case a of Accepted \<Rightarrow> nd_id n | Rejected p \<Rightarrow> (if 0 \<le> p then p else nd_primary n) | NoAnswer \<Rightarrow> nd_primary n)"
  by (auto simp: elect_conclude_def split: answer.splits)

lemma election_ok_initial: "election_ok (pb_initial cfg) i"
  by (simp add: election_ok_def pb_initial_def started_node_def newNode_def Now_def clock_new_def)

lemma election_ok_fire:
  assumes inv: "pb_inv cfg s" and ok: "\<And>j. election_ok s j" and f: "pb_fire cfg s ev = Some s'"
  shows "election_ok s' i"
proof (cases "election_event ev")
  case False
  have "election_frame s s'" by (rule election_frame_fire [OF f False])
  then show ?thesis by (intro election_ok_same [OF ok]) (simp_all add: election_frame_def)
next
  case True
  note same = election_ok_same [OF ok]
  show ?thesis
  proof (cases ev)
    case (Stand j)
    note st = stand_fire [OF f [unfolded Stand]]
    show ?thesis
    proof (cases "nd_role (pnodes s j) = RoleBackup")
      case False
      show ?thesis by (rule same) (simp_all add: st(2) [OF False])
    next
      case True
      note s' = st(3) [OF True, unfolded Let_def]
      show ?thesis
      proof (cases "j = i")
        case True
        then show ?thesis using node_fields(3) [OF inv, of j]
          by (auto simp: s' election_ok_def set_pnode_def Tick_simp Now_def)
      next
        case False
        then show ?thesis by (intro same) (simp_all add: s' set_pnode_def)
      qed
    qed
  next
    case (Ask j p)
    then obtain e where e: "races s j = Some e" "p \<in> el_may e" "s' = s\<lparr>races := (races s)(j \<mapsto> e\<lparr>el_asked := Some p\<rparr>),
        announces := insert (p, el_req e) (announces s)\<rparr>"
      using ask_fire f by blast
    show ?thesis
    proof (cases "j = i")
      case True
      then show ?thesis using ok [of i] e by (simp add: election_ok_def)
    next
      case False
      then show ?thesis by (intro same) (simp_all add: e(3))
    qed
  next
    case (AnnounceAt p r)
    show ?thesis
      by (rule same) (use announce_fire [OF f [unfolded AnnounceAt]] in \<open>auto simp: set_pnode_def\<close>)
  next
    case (Conclude j a)
    show ?thesis
    proof (cases "j = i")
      case True
      then show ?thesis
        using conclude_fire [OF f [unfolded Conclude]] election_okD(1) [OF ok, of i]
        by (auto simp: election_ok_def set_pnode_def)
    next
      case False
      show ?thesis
        by (rule same) (use conclude_fire [OF f [unfolded Conclude]] False in \<open>auto simp: set_pnode_def\<close>)
    qed
  qed (use True in \<open>auto simp: election_event_def\<close>)
qed

lemma reachable_election_ok: "pb_reachable cfg s \<Longrightarrow> election_ok s i"
proof (induction arbitrary: i rule: pb_reachable.induct)
  case pb_boot
  then show ?case by (rule election_ok_initial)
next
  case (pb_next s ev s')
  then show ?case using election_ok_fire [OF pb_reachable_inv [OF pb_next.hyps(1)]] by blast
qed

section \<open>Primaries\<close>

lemma fire_primary_stays:
  assumes r: "pb_reachable cfg s" and f: "pb_fire cfg s ev = Some s'" and i: "nd_role (pnodes s i) = RolePrimary"
  shows "nd_role (pnodes s' i) = RolePrimary"
proof (cases "election_event ev")
  case False
  then show ?thesis using election_frame_fire [OF f False] i by (simp add: election_frame_def)
next
  case True
  show ?thesis
  proof (cases ev)
    case (Stand j)
    note st = stand_fire [OF f [unfolded Stand]]
    show ?thesis
    proof (cases "nd_role (pnodes s j) = RoleBackup")
      case True
      then have "j \<noteq> i" using i by auto
      then show ?thesis using i by (simp add: st(3) [OF True, unfolded Let_def] set_pnode_def)
    next
      case False
      then show ?thesis using i by (simp add: st(2))
    qed
  next
    case (Ask j p)
    then show ?thesis using ask_fire f i by fastforce
  next
    case (AnnounceAt p req)
    then show ?thesis using announce_fire [OF f [unfolded AnnounceAt]] i by (auto simp: set_pnode_def)
  next
    case (Conclude j a)
    then obtain e where e: "races s j = Some e" and s': "s' = (set_pnode s j (elect_conclude (pnodes s j) a))
      \<lparr>races := (races s)(j := None),
       announces := announces s \<union> (if a = Accepted then (\<lambda>p. (p, el_req e)) ` nd_peers (pnodes s j) else {})\<rparr>"
      using conclude_fire [OF f [unfolded Conclude]] by blast
    have "j \<noteq> i" using election_okD(2) [OF reachable_election_ok [OF r] e] i by auto
    then show ?thesis using i by (simp add: s' set_pnode_def)
  qed (use True in \<open>auto simp: election_event_def\<close>)
qed

lemma later_primary_stays:
  "pb_later cfg s s' \<Longrightarrow> pb_reachable cfg s \<Longrightarrow> nd_role (pnodes s i) = RolePrimary \<Longrightarrow>
   nd_role (pnodes s' i) = RolePrimary"
  unfolding pb_later_def
proof (induction rule: rtranclp_induct)
  case (step y z)
  then have "pb_reachable cfg y" using pb_later_reachable [unfolded pb_later_def] by blast
  then show ?case using step fire_primary_stays by blast
qed

lemma put_begin_primary: "nd_role n = RolePrimary \<Longrightarrow> \<exists>n' req. pb_put_begin n key val = Inr (n', req)"
  by (simp add: pb_put_begin_def Tick_simp)

text \<open>
  Primaries accumulate. No code path takes the role of primary away: when a backup wins an
  election, every node that was primary before stays primary, so from then on at least two nodes
  accept writes.
\<close>

theorem primaries_accumulate:
  assumes "pb_reachable cfg s" and "pb_fire cfg s (Conclude i Accepted) = Some s1" and "pb_later cfg s1 s'"
    and "nd_role (pnodes s j) = RolePrimary"
  shows "i \<noteq> j \<and> nd_role (pnodes s' i) = RolePrimary \<and> nd_role (pnodes s' j) = RolePrimary \<and>
    (\<exists>n req. pb_put_begin (pnodes s' i) key val = Inr (n, req)) \<and>
    (\<exists>n req. pb_put_begin (pnodes s' j) key val = Inr (n, req))"
proof -
  obtain e where e: "races s i = Some e" using conclude_fire [OF assms(2)] by blast
  have ne: "i \<noteq> j" using election_okD(2) [OF reachable_election_ok [OF assms(1)] e] assms(4) by auto
  have r1: "pb_reachable cfg s1" using pb_next assms(1,2) by blast
  have "nd_role (pnodes s1 i) = RolePrimary"
    using conclude_fire [OF assms(2)] by (auto simp: set_pnode_def elect_conclude_role)
  moreover have "nd_role (pnodes s1 j) = RolePrimary" by (rule fire_primary_stays [OF assms(1,2,4)])
  ultimately show ?thesis using ne later_primary_stays [OF assms(3) r1] put_begin_primary by blast
qed

text \<open>
  Two candidates that ask each other while both are standing: each accepts the other's
  announcement exactly if that ballot is the larger one, the ballots differ, so exactly one of the
  two is accepted.
\<close>

theorem rival_candidates_decided:
  assumes "pb_reachable cfg s" and "races s i = Some e" and "races s j = Some f" and "i \<noteq> j"
  shows "(snd (AnnounceLeader (pnodes s j) (el_req e)) \<longleftrightarrow> request_ballot (el_req f) < request_ballot (el_req e)) \<and>
    (snd (AnnounceLeader (pnodes s i) (el_req f)) \<longleftrightarrow> request_ballot (el_req e) < request_ballot (el_req f)) \<and>
    snd (AnnounceLeader (pnodes s j) (el_req e)) \<noteq> snd (AnnounceLeader (pnodes s i) (el_req f))"
proof -
  have inv: "pb_inv cfg s" by (rule pb_reachable_inv [OF assms(1)])
  have *: "local_ballot (pnodes s k) = request_ballot (el_req x) \<and> ballot_node (request_ballot (el_req x)) = k"
    if "races s k = Some x" for k x
    using election_okD(2,3) [OF reachable_election_ok [OF assms(1)] that] node_fields(3) [OF inv, of k]
    by (simp add: local_ballot_def request_ballot_def)
  have "request_ballot (el_req e) \<noteq> request_ballot (el_req f)" using * [OF assms(2)] * [OF assms(3)] assms(4) by auto
  then show ?thesis
    using * [OF assms(2)] * [OF assms(3)] by (auto simp: AnnounceLeader_ballot)
qed

end
