(* ===== verification/PbSuccession.thy ===== *)
theory PbSuccession
  imports PbElections
begin

text \<open>
  Succession in a cluster of three whose initial primary, node 0, is silent: it may have crashed, or go
  on serving, but it answers no announcement. Then at most one backup takes over. A backup that accepts
  an announcement promises: it turns to the sender, its own smaller ballot is refused by the sender, and
  a later candidacy would ask only node 0.
\<close>

section \<open>Runs with a silent primary\<close>

inductive silent_reachable :: "ClusterConfig \<Rightarrow> pb_system \<Rightarrow> bool" for cfg where
  silent_boot: "silent_reachable cfg (pb_initial cfg)"
| silent_next: "silent_reachable cfg s \<Longrightarrow> pb_fire cfg s ev = Some s' \<Longrightarrow> (\<And>r. ev \<noteq> AnnounceAt 0 r) \<Longrightarrow>
    silent_reachable cfg s'"

lemma silent_is_reachable: "silent_reachable cfg s \<Longrightarrow> pb_reachable cfg s"
  by (induction rule: silent_reachable.induct) (auto intro: pb_boot pb_next)

section \<open>The invariant\<close>

definition sent_ok :: "pb_system \<Rightarrow> int32 \<Rightarrow> AnnounceLeaderRequest \<Rightarrow> bool" where
  "sent_ok s p r \<longleftrightarrow>
     p \<in> {0, 1, 2} \<and> al_primary r \<in> {1, 2} \<and> p \<noteq> al_primary r \<and>
     al_ts r \<le> nd_electionTs (pnodes s (al_primary r))"

definition promised :: "pb_system \<Rightarrow> int32 \<Rightarrow> AnnounceLeaderRequest \<Rightarrow> bool" where
  "promised s j r \<longleftrightarrow>
     nd_primary (pnodes s j) = al_primary r \<and> nd_role (pnodes s j) \<noteq> RolePrimary \<and>
     (case races s j of None \<Rightarrow> True
      | Some e \<Rightarrow> al_primary r \<notin> el_may e \<or> request_ballot (el_req e) < request_ballot r)"

definition promise_inv :: "pb_system \<Rightarrow> bool" where
  "promise_inv s \<longleftrightarrow>
     nd_role (pnodes s 0) = RolePrimary \<and>
     (\<forall>p r. (p, r) \<in> announces s \<longrightarrow> sent_ok s p r) \<and>
     (\<forall>p r a. (p, r, a) \<in> answers s \<longrightarrow> sent_ok s p r) \<and>
     (\<forall>p r a. (p, r, a) \<in> answers s \<longrightarrow> p \<noteq> 0) \<and>
     (\<forall>j r. (j, r, True) \<in> answers s \<longrightarrow> promised s j r) \<and>
     (\<forall>j r q. (j, r, True) \<in> answers s \<longrightarrow> (al_primary r, q, True) \<in> answers s \<longrightarrow> al_primary q \<noteq> j) \<and>
     (\<forall>j r q. (j, r) \<in> announces s \<longrightarrow> (al_primary r, q, True) \<in> answers s \<longrightarrow> al_primary q = j \<longrightarrow>
        request_ballot r < request_ballot q) \<and>
     (\<forall>j. j \<noteq> 0 \<longrightarrow> nd_role (pnodes s j) = RolePrimary \<longrightarrow> (\<exists>i q. (i, q, True) \<in> answers s \<and> al_primary q = j)) \<and>
     (\<forall>j. 0 < launched s j \<or> races s j \<noteq> None \<longrightarrow> j \<in> {0, 1, 2})"

lemma promise_invD:
  assumes "promise_inv s"
  shows "nd_role (pnodes s 0) = RolePrimary"
    and "(p, r) \<in> announces s \<Longrightarrow> sent_ok s p r"
    and "(p, r, a) \<in> answers s \<Longrightarrow> sent_ok s p r"
    and "(p, r, a) \<in> answers s \<Longrightarrow> p \<noteq> 0"
    and "(j, r, True) \<in> answers s \<Longrightarrow> promised s j r"
    and "(j, r, True) \<in> answers s \<Longrightarrow> (al_primary r, q, True) \<in> answers s \<Longrightarrow> al_primary q \<noteq> j"
    and "(j, r) \<in> announces s \<Longrightarrow> (al_primary r, q, True) \<in> answers s \<Longrightarrow> al_primary q = j \<Longrightarrow>
      request_ballot r < request_ballot q"
    and "j \<noteq> 0 \<Longrightarrow> nd_role (pnodes s j) = RolePrimary \<Longrightarrow> \<exists>i q. (i, q, True) \<in> answers s \<and> al_primary q = j"
    and "0 < launched s j \<or> races s j \<noteq> None \<Longrightarrow> j \<in> {0, 1, 2}"
proof -
  note c = assms [unfolded promise_inv_def]
  show "nd_role (pnodes s 0) = RolePrimary"
    by (rule c [THEN conjunct1, rule_format])
  show "(p, r) \<in> announces s \<Longrightarrow> sent_ok s p r"
    by (rule c [THEN conjunct2, THEN conjunct1, rule_format])
  show "(p, r, a) \<in> answers s \<Longrightarrow> sent_ok s p r"
    by (rule c [THEN conjunct2, THEN conjunct2, THEN conjunct1, rule_format])
  show "(p, r, a) \<in> answers s \<Longrightarrow> p \<noteq> 0"
    by (rule c [THEN conjunct2, THEN conjunct2, THEN conjunct2, THEN conjunct1, rule_format])
  show "(j, r, True) \<in> answers s \<Longrightarrow> promised s j r"
    by (rule c [THEN conjunct2, THEN conjunct2, THEN conjunct2, THEN conjunct2, THEN conjunct1, rule_format])
  show "(j, r, True) \<in> answers s \<Longrightarrow> (al_primary r, q, True) \<in> answers s \<Longrightarrow> al_primary q \<noteq> j"
    by (rule c [THEN conjunct2, THEN conjunct2, THEN conjunct2, THEN conjunct2, THEN conjunct2, THEN conjunct1, rule_format])
  show "(j, r) \<in> announces s \<Longrightarrow> (al_primary r, q, True) \<in> answers s \<Longrightarrow> al_primary q = j \<Longrightarrow>
      request_ballot r < request_ballot q"
    by (rule c [THEN conjunct2, THEN conjunct2, THEN conjunct2, THEN conjunct2, THEN conjunct2, THEN conjunct2, THEN conjunct1, rule_format])
  show "j \<noteq> 0 \<Longrightarrow> nd_role (pnodes s j) = RolePrimary \<Longrightarrow> \<exists>i q. (i, q, True) \<in> answers s \<and> al_primary q = j"
    by (rule c [THEN conjunct2, THEN conjunct2, THEN conjunct2, THEN conjunct2, THEN conjunct2, THEN conjunct2, THEN conjunct2, THEN conjunct1, rule_format])
  show "0 < launched s j \<or> races s j \<noteq> None \<Longrightarrow> j \<in> {0, 1, 2}"
    by (rule c [THEN conjunct2, THEN conjunct2, THEN conjunct2, THEN conjunct2, THEN conjunct2, THEN conjunct2, THEN conjunct2, THEN conjunct2, rule_format])
qed

lemma promise_invI:
  assumes "nd_role (pnodes s 0) = RolePrimary"
    and "\<And>p r. (p, r) \<in> announces s \<Longrightarrow> sent_ok s p r"
    and "\<And>p r a. (p, r, a) \<in> answers s \<Longrightarrow> sent_ok s p r"
    and "\<And>p r a. (p, r, a) \<in> answers s \<Longrightarrow> p \<noteq> 0"
    and "\<And>j r. (j, r, True) \<in> answers s \<Longrightarrow> promised s j r"
    and "\<And>j r q. (j, r, True) \<in> answers s \<Longrightarrow> (al_primary r, q, True) \<in> answers s \<Longrightarrow> al_primary q \<noteq> j"
    and "\<And>j r q. (j, r) \<in> announces s \<Longrightarrow> (al_primary r, q, True) \<in> answers s \<Longrightarrow> al_primary q = j \<Longrightarrow>
      request_ballot r < request_ballot q"
    and "\<And>j. j \<noteq> 0 \<Longrightarrow> nd_role (pnodes s j) = RolePrimary \<Longrightarrow> \<exists>i q. (i, q, True) \<in> answers s \<and> al_primary q = j"
    and "\<And>j. 0 < launched s j \<or> races s j \<noteq> None \<Longrightarrow> j \<in> {0, 1, 2}"
  shows "promise_inv s"
  unfolding promise_inv_def by (intro conjI allI impI) (rule assms; assumption)+

text \<open>A request never exceeds what its sender answers with.\<close>

lemma sender_refuses:
  assumes "sent_ok s p r" and "election_ok s (al_primary r)" and "nd_id (pnodes s (al_primary r)) = al_primary r"
  shows "request_ballot r \<le> local_ballot (pnodes s (al_primary r))"
  using assms election_okD(1) [OF assms(2)]
  by (auto simp: sent_ok_def request_ballot_def local_ballot_def less_eq_ballot_def)

text \<open>Steps that touch neither roles, primaries nor the messages of elections.\<close>

lemma promise_inv_frame:
  assumes inv: "promise_inv s" and fr: "election_frame s s'"
    and l: "\<And>j. 0 < launched s' j \<Longrightarrow> j \<in> {0, 1, 2}"
  shows "promise_inv s'"
proof -
  have eq: "races s' = races s" "announces s' = announces s" "answers s' = answers s"
    "\<And>i. nd_role (pnodes s' i) = nd_role (pnodes s i)" "\<And>i. nd_primary (pnodes s' i) = nd_primary (pnodes s i)"
    "\<And>i. nd_electionTs (pnodes s' i) = nd_electionTs (pnodes s i)"
    using fr by (simp_all add: election_frame_def)
  have s: "sent_ok s' p r = sent_ok s p r" "promised s' p r = promised s p r" for p r
    by (simp_all add: sent_ok_def promised_def eq)
  show ?thesis
    by (rule promise_invI; unfold eq s) (use promise_invD [OF inv] l in blast)+
qed

section \<open>Preservation\<close>

lemma other_backup: "sent_ok s p r \<Longrightarrow> p \<noteq> 0 \<Longrightarrow> sent_ok s' p' r' \<Longrightarrow> p' \<noteq> 0 \<Longrightarrow> al_primary r' = p \<Longrightarrow> al_primary r = p'"
  by (auto simp: sent_ok_def)

lemma racing_backup:
  assumes "promise_inv s" and "election_ok s i" and "races s i = Some e"
  shows "i \<in> {1, 2}" and "nd_role (pnodes s i) = RoleCandidate"
proof -
  show r: "nd_role (pnodes s i) = RoleCandidate" by (rule election_okD(2) [OF assms(2,3)])
  have "i \<in> {0, 1, 2}" using promise_invD(9) [OF assms(1), of i] assms(3) by blast
  then show "i \<in> {1, 2}" using r promise_invD(1) [OF assms(1)] by (cases "i = 0") auto
qed

lemma sent_ok_later:
  "sent_ok s p r \<Longrightarrow> nd_electionTs (pnodes s (al_primary r)) \<le> nd_electionTs (pnodes s' (al_primary r)) \<Longrightarrow>
   sent_ok s' p r"
  by (auto simp: sent_ok_def)

lemma promised_same:
  "promised s j r \<Longrightarrow> nd_primary (pnodes s' j) = nd_primary (pnodes s j) \<Longrightarrow>
   nd_role (pnodes s' j) = nd_role (pnodes s j) \<Longrightarrow> races s' j = races s j \<Longrightarrow> promised s' j r"
  by (simp add: promised_def)

lemma promise_stand:
  assumes inv: "promise_inv s" and ok: "election_ok s i" and role: "nd_role (pnodes s i) = RoleBackup"
    and f: "pb_fire cfg s (Stand i) = Some s'"
  shows "promise_inv s'"
proof -
  note D = promise_invD [OF inv]
  note s' = stand_fire(3) [OF f role, unfolded Let_def]
  have i: "i \<in> {0, 1, 2}" using D(9) stand_fire(1) [OF f] by blast
  have m: "announces s' = announces s" "answers s' = answers s" by (simp_all add: s' set_pnode_def)
  have ts: "nd_electionTs (pnodes s k) \<le> nd_electionTs (pnodes s' k)" for k
    using election_okD(1) [OF ok] by (simp add: s' set_pnode_def)
  have pr: "nd_primary (pnodes s' k) = nd_primary (pnodes s k)" for k by (simp add: s' set_pnode_def)
  have ro: "nd_role (pnodes s' k) = RolePrimary \<longleftrightarrow> nd_role (pnodes s k) = RolePrimary" for k
    using role by (simp add: s' set_pnode_def)
  have promise: "promised s' j r" if "promised s j r" for j r
  proof (cases "j = i")
    case True
    have "races s' i = Some \<lparr>el_req = \<lparr>al_primary = nd_id (pnodes s i), al_ts = Now (nd_clk (pnodes s i)) + 1\<rparr>,
        el_may = nd_peers (pnodes s i) - {nd_primary (pnodes s i)}, el_asked = None\<rparr>"
      by (simp add: s')
    then show ?thesis using that True pr [of i] ro [of i] by (simp add: promised_def)
  next
    case False
    then show ?thesis by (intro promised_same [OF that]) (simp_all add: s' set_pnode_def)
  qed
  show ?thesis
  proof (rule promise_invI, unfold m)
    show "nd_role (pnodes s' 0) = RolePrimary" using D(1) ro by blast
    show "sent_ok s' p r" if "(p, r) \<in> announces s" for p r by (rule sent_ok_later [OF D(2) [OF that] ts])
    show "sent_ok s' p r" if "(p, r, a) \<in> answers s" for p r a by (rule sent_ok_later [OF D(3) [OF that] ts])
    show "promised s' j r" if "(j, r, True) \<in> answers s" for j r by (rule promise [OF D(5) [OF that]])
    show "\<exists>k q. (k, q, True) \<in> answers s \<and> al_primary q = j"
      if "j \<noteq> 0" "nd_role (pnodes s' j) = RolePrimary" for j using D(8) that ro by blast
    show "j \<in> {0, 1, 2}" if "0 < launched s' j \<or> races s' j \<noteq> None" for j
      using D(9) [of j] that i by (cases "j = i") (auto simp: s' set_pnode_def)
  qed (use D(4,6,7) in blast)+
qed

lemma promise_ask:
  assumes inv: "promise_inv s" and ok: "election_ok s i" and peers: "nd_peers (pnodes s i) = {0, 1, 2} - {i}"
    and f: "pb_fire cfg s (Ask i p) = Some s'"
  shows "promise_inv s'"
proof -
  note D = promise_invD [OF inv]
  obtain e where e: "races s i = Some e" "p \<in> el_may e" and s': "s' = s\<lparr>races := (races s)(i \<mapsto> e\<lparr>el_asked := Some p\<rparr>),
      announces := insert (p, el_req e) (announces s)\<rparr>"
    using ask_fire [OF f] by blast
  have req: "el_req e = \<lparr>al_primary = i, al_ts = nd_electionTs (pnodes s i)\<rparr>" by (rule election_okD(3) [OF ok e(1)])
  have i: "i \<in> {1, 2}" by (rule racing_backup(1) [OF inv ok e(1)])
  have p: "p \<in> {0, 1, 2} - {i}" using election_okD(4) [OF ok e(1)] e(2) peers by auto
  have so: "sent_ok s' p r = sent_ok s p r" for p r by (simp add: sent_ok_def s')
  have m: "answers s' = answers s" by (simp add: s')
  have promise: "promised s' j r" if "promised s j r" for j r
    using that e(1) by (cases "j = i") (simp_all add: promised_def s')
  show ?thesis
  proof (rule promise_invI, unfold m so)
    show "nd_role (pnodes s' 0) = RolePrimary" using D(1) by (simp add: s')
    show "sent_ok s q r" if "(q, r) \<in> announces s'" for q r
      using that D(2) i p by (auto simp: s' sent_ok_def req)
    show "promised s' j r" if "(j, r, True) \<in> answers s" for j r by (rule promise [OF D(5) [OF that]])
    show "request_ballot r < request_ballot q"
      if "(j, r) \<in> announces s'" "(al_primary r, q, True) \<in> answers s" "al_primary q = j" for j r q
    proof (cases "(j, r) \<in> announces s")
      case True
      then show ?thesis using D(7) that by blast
    next
      case False
      then have "j = p" "r = el_req e" using that(1) by (auto simp: s')
      then show ?thesis using D(5) [OF that(2)] that(3) e req by (simp add: promised_def)
    qed
    show "\<exists>k q. (k, q, True) \<in> answers s \<and> al_primary q = j"
      if "j \<noteq> 0" "nd_role (pnodes s' j) = RolePrimary" for j using D(8) that by (simp add: s')
    show "j \<in> {0, 1, 2}" if "0 < launched s' j \<or> races s' j \<noteq> None" for j
      using D(9) [of j] that i by (cases "j = i") (auto simp: s')
  qed (use D(3,4,6) in blast)+
qed

text \<open>Handling an announcement that is refused changes no node; accepting one is the promise.\<close>

lemma promise_refuse:
  assumes inv: "promise_inv s" and p: "p \<noteq> 0" and refused: "\<not> local_ballot (pnodes s p) < request_ballot r"
    and f: "pb_fire cfg s (AnnounceAt p r) = Some s'"
  shows "promise_inv s'"
proof -
  note D = promise_invD [OF inv]
  have n: "fst (AnnounceLeader (pnodes s p) r) = pnodes s p" and a: "\<not> snd (AnnounceLeader (pnodes s p) r)"
    using refused AnnounceLeader_ballot [of "pnodes s p" r] by (auto simp: AnnounceLeader_def Let_def)
  have s': "s' = s\<lparr>announces := announces s - {(p, r)}, answers := insert (p, r, False) (answers s)\<rparr>"
    and r: "(p, r) \<in> announces s"
    using announce_fire [OF f] n a by (auto simp: set_pnode_def)
  have m: "sent_ok s' q x = sent_ok s q x" "promised s' q x = promised s q x"
    "(q, x, True) \<in> answers s' \<longleftrightarrow> (q, x, True) \<in> answers s" for q x
    by (auto simp: sent_ok_def promised_def s')
  show ?thesis
  proof (rule promise_invI, unfold m)
    show "sent_ok s q x" if "(q, x, b) \<in> answers s'" for q x b using that D(2) [OF r] D(3) by (auto simp: s')
    show "q \<noteq> 0" if "(q, x, b) \<in> answers s'" for q x b using that p D(4) by (auto simp: s')
  qed (use D(1,2,5-9) in \<open>auto simp: s'\<close>)
qed

lemma promise_accept:
  assumes inv: "promise_inv s" and ok: "\<And>j. election_ok s j" and ids: "\<And>j. nd_id (pnodes s j) = j"
    and p: "p \<noteq> 0" and acc: "local_ballot (pnodes s p) < request_ballot r"
    and f: "pb_fire cfg s (AnnounceAt p r) = Some s'"
  shows "promise_inv s'"
proof -
  note D = promise_invD [OF inv]
  let ?i = "al_primary r"
  have r: "(p, r) \<in> announces s" and s': "s' = (set_pnode s p (fst (AnnounceLeader (pnodes s p) r)))
      \<lparr>announces := announces s - {(p, r)}, answers := insert (p, r, True) (answers s)\<rparr>"
    using announce_fire [OF f] acc AnnounceLeader_ballot [of "pnodes s p" r] by auto
  have so: "sent_ok s' q x = sent_ok s q x" for q x by (simp add: sent_ok_def s' set_pnode_def)
  have ro: "nd_role (pnodes s' k) = nd_role (pnodes s k)" for k by (simp add: s' set_pnode_def)
  have mine: "request_ballot x \<le> local_ballot (pnodes s p)" if "al_primary x = p" "sent_ok s q x" for q x
    using sender_refuses [OF that(2)] ok ids that(1) by simp
  have noq: False if q: "(?i, q, True) \<in> answers s" "al_primary q = p" for q
    using D(7) [OF r q] mine [OF q(2) D(3) [OF q(1)]] acc by simp
  have not_primary: "nd_role (pnodes s p) \<noteq> RolePrimary"
  proof
    assume "nd_role (pnodes s p) = RolePrimary"
    then obtain k q where q: "(k, q, True) \<in> answers s" "al_primary q = p" using D(8) [OF p] by blast
    have "k = ?i" using other_backup [OF D(2) [OF r] p D(3) [OF q(1)] D(4) [OF q(1)] q(2)] by simp
    then show False using noq q by blast
  qed
  have new: "promised s' p r"
  proof -
    have "request_ballot (el_req e) < request_ballot r" if e: "races s p = Some e" for e
    proof -
      have "request_ballot (el_req e) = local_ballot (pnodes s p)"
        using election_okD(2,3) [OF ok e] ids by (simp add: local_ballot_def request_ballot_def)
      then show ?thesis using acc by simp
    qed
    then show ?thesis using not_primary acc
      by (auto simp: promised_def s' set_pnode_def AnnounceLeader_primary split: option.splits)
  qed
  have old: "promised s' j x" if "(j, x, True) \<in> answers s" for j x
  proof (cases "j = p")
    case True
    have "al_primary x = ?i" using D(2) [OF r] D(3) [OF that] True p by (auto simp: sent_ok_def)
    then show ?thesis using D(5) [OF that] True acc
      by (auto simp: promised_def s' set_pnode_def AnnounceLeader_primary)
  next
    case False
    then show ?thesis by (intro promised_same [OF D(5) [OF that]]) (simp_all add: s' set_pnode_def)
  qed
  have in': "(j, x, b) \<in> answers s' \<longleftrightarrow> (j, x, b) = (p, r, True) \<or> (j, x, b) \<in> answers s" for j x b
    by (simp add: s')
  show ?thesis
  proof (rule promise_invI, unfold so ro)
    show "nd_role (pnodes s 0) = RolePrimary" by (rule D(1))
    show "sent_ok s q x" if "(q, x) \<in> announces s'" for q x using that D(2) by (simp add: s')
    show "sent_ok s q x" if "(q, x, b) \<in> answers s'" for q x b using that D(2) [OF r] D(3) by (auto simp: in')
    show "q \<noteq> 0" if "(q, x, b) \<in> answers s'" for q x b using that p D(4) by (auto simp: in')
    show "promised s' j x" if "(j, x, True) \<in> answers s'" for j x using that new old by (auto simp: in')
    show "al_primary q \<noteq> j"
      if h: "(j, x, True) \<in> answers s'" "(al_primary x, q, True) \<in> answers s'" for j x q
    proof
      assume q: "al_primary q = j"
      consider "(j, x) = (p, r)" "(al_primary x, q) = (p, r)" | "(j, x) = (p, r)" "(?i, q, True) \<in> answers s"
        | "(j, x, True) \<in> answers s" "(al_primary x, q) = (p, r)"
        | "(j, x, True) \<in> answers s" "(al_primary x, q, True) \<in> answers s"
        using h unfolding in' by blast
      then show False
        by cases (use D(2) [OF r] noq q D(6) in \<open>auto simp: sent_ok_def\<close>)
    qed
    show "request_ballot x < request_ballot q"
      if "(j, x) \<in> announces s'" "(al_primary x, q, True) \<in> answers s'" "al_primary q = j" for j x q
    proof (cases "(al_primary x, q) = (p, r)")
      case True
      have "(j, x) \<in> announces s" using that(1) by (simp add: s')
      from mine [OF _ D(2) [OF this]] show ?thesis using True acc by auto
    next
      case False
      then show ?thesis using D(7) [of j x q] that by (auto simp: s')
    qed
    show "\<exists>k q. (k, q, True) \<in> answers s' \<and> al_primary q = j"
      if "j \<noteq> 0" "nd_role (pnodes s j) = RolePrimary" for j using D(8) [OF that] by (auto simp: in')
    show "j \<in> {0, 1, 2}" if "0 < launched s' j \<or> races s' j \<noteq> None" for j
      using D(9) [of j] that by (simp add: s' set_pnode_def)
  qed
qed

lemma promise_conclude:
  assumes inv: "promise_inv s" and ok: "election_ok s i" and peers: "nd_peers (pnodes s i) = {0, 1, 2} - {i}"
    and f: "pb_fire cfg s (Conclude i a) = Some s'"
  shows "promise_inv s'"
proof -
  note D = promise_invD [OF inv]
  obtain e where e: "races s i = Some e"
    and a: "case a of Accepted \<Rightarrow> \<exists>p. el_asked e = Some p \<and> (p, el_req e, True) \<in> answers s
      | Rejected p \<Rightarrow> el_asked e = Some p \<and> (p, el_req e, False) \<in> answers s
      | NoAnswer \<Rightarrow> el_asked e \<noteq> None \<or> el_may e = {}"
    and s': "s' = (set_pnode s i (elect_conclude (pnodes s i) a))\<lparr>races := (races s)(i := None),
      announces := announces s \<union> (if a = Accepted then (\<lambda>p. (p, el_req e)) ` nd_peers (pnodes s i) else {})\<rparr>"
    using conclude_fire [OF f] by blast
  have req: "el_req e = \<lparr>al_primary = i, al_ts = nd_electionTs (pnodes s i)\<rparr>" by (rule election_okD(3) [OF ok e])
  note i = racing_backup [OF inv ok e]
  have i0: "i \<noteq> 0" using i(1) by auto
  have so: "sent_ok s' q x = sent_ok s q x" for q x by (simp add: sent_ok_def s' set_pnode_def)
  have m: "answers s' = answers s" by (simp add: s' set_pnode_def)
  text \<open>A node that has accepted an announcement cannot itself have been accepted.\<close>
  have free: False if acc: "a = Accepted" and q: "(i, q, True) \<in> answers s" for q
  proof -
    obtain p where p: "(p, el_req e, True) \<in> answers s" using a acc by auto
    have "al_primary q = p"
      using other_backup [OF D(3) [OF q] i0 D(3) [OF p] D(4) [OF p]] req by simp
    then show False using D(6) [OF q, of "el_req e"] p req by simp
  qed
  have keep: "promised s' j q" if q: "(j, q, True) \<in> answers s" for j q
  proof (cases "j = i")
    case False
    then show ?thesis by (intro promised_same [OF D(5) [OF q]]) (simp_all add: s' set_pnode_def)
  next
    case True
    have na: "a \<noteq> Accepted" using free q True by blast
    have "nd_primary (elect_conclude (pnodes s i) a) = al_primary q"
    proof (cases a)
      case (Rejected p)
      have p: "(p, el_req e, False) \<in> answers s" using a Rejected by simp
      have "al_primary q = p"
        using other_backup [OF D(3) [OF q] _ D(3) [OF p] D(4) [OF p]] req True i0 by simp
      moreover have "0 \<le> p" using D(3) [OF p] by (auto simp: sent_ok_def)
      ultimately show ?thesis using Rejected by (simp add: elect_conclude_primary)
    next
      case NoAnswer
      then show ?thesis using D(5) [OF q] True by (simp add: elect_conclude_primary promised_def)
    qed (use na in simp)
    then show ?thesis using True na by (simp add: promised_def s' set_pnode_def elect_conclude_role)
  qed
  show ?thesis
  proof (rule promise_invI, unfold m so)
    show "nd_role (pnodes s' 0) = RolePrimary" using D(1) i0 by (simp add: s' set_pnode_def)
    show "sent_ok s q x" if "(q, x) \<in> announces s'" for q x
    proof (cases "(q, x) \<in> announces s")
      case False
      then have "x = el_req e" "q \<in> {0, 1, 2} - {i}" using that peers by (auto simp: s' split: if_splits)
      then show ?thesis using i(1) by (auto simp: sent_ok_def req)
    qed (rule D(2))
    show "promised s' j q" if "(j, q, True) \<in> answers s" for j q by (rule keep [OF that])
    show "request_ballot x < request_ballot q"
      if "(j, x) \<in> announces s'" "(al_primary x, q, True) \<in> answers s" "al_primary q = j" for j x q
    proof (cases "(j, x) \<in> announces s")
      case True
      then show ?thesis using D(7) that by blast
    next
      case False
      then have x: "a = Accepted" "x = el_req e" using that(1) by (auto simp: s' split: if_splits)
      then have "(i, q, True) \<in> answers s" using that(2) req by simp
      then show ?thesis using free [OF x(1)] by blast
    qed
    show "\<exists>k q. (k, q, True) \<in> answers s \<and> al_primary q = j"
      if "j \<noteq> 0" "nd_role (pnodes s' j) = RolePrimary" for j
    proof (cases "j = i")
      case True
      then have "a = Accepted" using that(2) by (simp add: s' set_pnode_def elect_conclude_role split: if_splits)
      then show ?thesis using a req True by fastforce
    next
      case False
      then show ?thesis using D(8) that by (simp add: s' set_pnode_def)
    qed
    show "j \<in> {0, 1, 2}" if "0 < launched s' j \<or> races s' j \<noteq> None" for j
      using D(9) [of j] that by (auto simp: s' set_pnode_def split: if_splits)
  qed (use D(3,4,6) in blast)+
qed

lemma launched_fire:
  assumes "pb_fire cfg s ev = Some s'" and "\<And>j. 0 < launched s j \<Longrightarrow> j \<in> node_ids cfg" and "0 < launched s' j"
  shows "j \<in> node_ids cfg"
proof (cases ev)
  case (PutBegin i c key val)
  then show ?thesis using assms
    by (auto simp: set_put_def set_pnode_def pb_put_begin_def Tick_simp split: if_splits)
next
  case (PutFinish i c)
  then show ?thesis using assms by (auto simp: set_put_def set_pnode_def split: if_splits option.splits prod.splits)
qed (use assms in \<open>auto simp: set_pnode_def set_put_def heartbeat_send_def elect_stand_def Tick_simp
      split: if_splits option.splits prod.splits\<close>)

lemma silent_promise_inv:
  assumes ids: "node_ids cfg = {0, 1, 2}"
  shows "silent_reachable cfg s \<Longrightarrow> promise_inv s"
proof (induction rule: silent_reachable.induct)
  case silent_boot
  show ?case by (rule promise_invI) (auto simp: pb_initial_def started_node_def newNode_def)
next
  case (silent_next s ev s')
  note f = silent_next.hyps(2) and inv = silent_next.IH
  note r = silent_is_reachable [OF silent_next.hyps(1)]
  note ok = reachable_election_ok [OF r]
  note pb = pb_reachable_inv [OF r]
  have peers: "nd_peers (pnodes s i) = {0, 1, 2} - {i}" for i using node_fields(2) [OF pb] ids by simp
  have l: "j \<in> {0, 1, 2}" if "0 < launched s' j" for j
    using launched_fire [OF f _ that] promise_invD(9) [OF inv] unfolding ids by blast
  show ?case
  proof (cases "election_event ev")
    case False
    show ?thesis by (rule promise_inv_frame [OF inv election_frame_fire [OF f False] l])
  next
    case True
    show ?thesis
    proof (cases ev)
      case (Stand i)
      show ?thesis
      proof (cases "nd_role (pnodes s i) = RoleBackup")
        case True
        show ?thesis by (rule promise_stand [OF inv ok True f [unfolded Stand]])
      next
        case False
        have "election_frame s s'"
          by (simp add: stand_fire(2) [OF f [unfolded Stand] False] election_frame_def)
        then show ?thesis by (rule promise_inv_frame [OF inv _ l])
      qed
    next
      case (Ask i p)
      show ?thesis by (rule promise_ask [OF inv ok peers f [unfolded Ask]])
    next
      case (AnnounceAt p req)
      have "p \<noteq> 0" using silent_next.hyps(3) AnnounceAt by blast
      then show ?thesis
        using promise_refuse [OF inv _ _ f [unfolded AnnounceAt]]
          promise_accept [OF inv ok node_fields(3) [OF pb] _ _ f [unfolded AnnounceAt]] by blast
    next
      case (Conclude i a)
      show ?thesis by (rule promise_conclude [OF inv ok peers f [unfolded Conclude]])
    qed (use True in \<open>auto simp: election_event_def\<close>)
  qed
qed

lemma one_successor:
  assumes "promise_inv s" and "i \<noteq> 0" and "j \<noteq> 0"
    and "nd_role (pnodes s i) = RolePrimary" and "nd_role (pnodes s j) = RolePrimary"
  shows "i = j"
proof (rule ccontr)
  assume "i \<noteq> j"
  note D = promise_invD [OF assms(1)]
  obtain k q where q: "(k, q, True) \<in> answers s" "al_primary q = i" using D(8) [OF assms(2,4)] by blast
  obtain l r where r: "(l, r, True) \<in> answers s" "al_primary r = j" using D(8) [OF assms(3,5)] by blast
  have "k \<in> {1, 2}" "i \<in> {1, 2}" "k \<noteq> i" "l \<in> {1, 2}" "j \<in> {1, 2}" "l \<noteq> j"
    using D(3) [OF q(1)] D(4) [OF q(1)] D(3) [OF r(1)] D(4) [OF r(1)] q(2) r(2) by (auto simp: sent_ok_def)
  then have "k = j" using \<open>i \<noteq> j\<close> by auto
  then show False using D(5) [OF q(1)] assms(5) by (simp add: promised_def)
qed

text \<open>
  C23. At most one backup takes over. In a cluster of three in which node 0 answers no announcement,
  whatever the delays, the losses and the order of elections, two nodes other than node 0 are never
  both primary, at the same or at different times.
\<close>

theorem at_most_one_successor:
  assumes "node_ids cfg = {0, 1, 2}" and "silent_reachable cfg s" and "silent_reachable cfg s'" and "pb_later cfg s s'"
    and "nd_role (pnodes s i) = RolePrimary" and "nd_role (pnodes s' j) = RolePrimary" and "i \<noteq> 0" and "j \<noteq> 0"
  shows "i = j"
  using one_successor [OF silent_promise_inv [OF assms(1,3)] assms(7,8) _ assms(6)]
    later_primary_stays [OF assms(4) silent_is_reachable [OF assms(2)] assms(5)] by blast

end
