(* ===== verification/PbExecutions.thy ===== *)
theory PbExecutions
  imports PbSuccession
begin

text \<open>
  Concrete executions of a primary-backup cluster of three: a replicated write, two overlapping
  writes, an election that is won and one that both candidates lose. The properties of the cluster are
  evaluated on them.
\<close>

section \<open>The cluster of the shipped configuration\<close>

definition trio :: ClusterConfig where
  "trio = \<lparr>Nodes =
     [\<lparr>ID = 0, ClientAddr = ''localhost:7000'', PeerAddr = ''localhost:7100''\<rparr>,
      \<lparr>ID = 1, ClientAddr = ''localhost:7001'', PeerAddr = ''localhost:7101''\<rparr>,
      \<lparr>ID = 2, ClientAddr = ''localhost:7002'', PeerAddr = ''localhost:7102''\<rparr>]\<rparr>"

lemma trio_ids: "node_ids trio = {0, 1, 2}"
  by (auto simp: node_ids_def trio_def)

definition run_trio :: "pb_event list \<Rightarrow> pb_system" where
  "run_trio evs = the (pb_run trio (pb_initial trio) evs)"

lemma run_trio_Some: "pb_run trio (pb_initial trio) evs \<noteq> None \<Longrightarrow>
    pb_run trio (pb_initial trio) evs = Some (run_trio evs)"
  by (auto simp: run_trio_def)

lemma run_trio_reachable: "pb_run trio (pb_initial trio) evs \<noteq> None \<Longrightarrow> pb_reachable trio (run_trio evs)"
  using pb_run_reachable [OF pb_boot run_trio_Some] by blast

lemma run_silent:
  "silent_reachable cfg s \<Longrightarrow> pb_run cfg s evs = Some s' \<Longrightarrow> (\<And>r. AnnounceAt 0 r \<notin> set evs) \<Longrightarrow>
   silent_reachable cfg s'"
proof (induction evs arbitrary: s)
  case (Cons ev evs)
  then obtain s1 where s1: "pb_fire cfg s ev = Some s1" "pb_run cfg s1 evs = Some s'"
    by (auto split: option.splits)
  have "silent_reachable cfg s1"
    by (rule silent_next [OF Cons.prems(1) s1(1)]) (use Cons.prems(3) in auto)
  then show ?case using Cons.IH s1(2) Cons.prems(3) by auto
qed simp

lemma run_serial:
  "serial cfg s \<Longrightarrow> pb_run cfg s evs = Some s' \<Longrightarrow>
   (\<And>ev. ev \<in> set evs \<Longrightarrow> (case ev of PutBegin i c k v \<Rightarrow> False | GiveUp i c p \<Rightarrow> False | _ \<Rightarrow> True)) \<Longrightarrow>
   serial cfg s'"
proof (induction evs arbitrary: s)
  case (Cons ev evs)
  then obtain s1 where s1: "pb_fire cfg s ev = Some s1" "pb_run cfg s1 evs = Some s'"
    by (auto split: option.splits)
  have "serial cfg s1"
    by (rule serial_next [OF Cons.prems(1) s1(1)]) (use Cons.prems(3) [of ev] in auto)
  then show ?case using Cons.IH s1(2) Cons.prems(3) by auto
qed simp

lemma pb_run_append:
  "pb_run cfg s (xs @ ys) = (case pb_run cfg s xs of None \<Rightarrow> None | Some s' \<Rightarrow> pb_run cfg s' ys)"
  by (induction xs arbitrary: s) (auto split: option.splits)

text \<open>Only \<open>Put\<close> makes calls.\<close>

lemma fire_puts:
  "pb_fire cfg s ev = Some s' \<Longrightarrow> puts s' (i, c) \<noteq> None \<Longrightarrow> puts s (i, c) = None \<Longrightarrow>
   \<exists>key val. ev = PutBegin i c key val"
  by (cases ev) (auto simp: set_put_def set_pnode_def heartbeat_send_def elect_stand_def Tick_simp
      split: if_splits option.splits sum.splits prod.splits)

lemma run_puts:
  "pb_run cfg s evs = Some s' \<Longrightarrow> puts s' (i, c) \<noteq> None \<Longrightarrow> puts s (i, c) = None \<Longrightarrow>
   \<exists>key val. PutBegin i c key val \<in> set evs"
proof (induction evs arbitrary: s)
  case (Cons ev evs)
  obtain s1 where s1: "pb_fire cfg s ev = Some s1" "pb_run cfg s1 evs = Some s'"
    using Cons.prems(1) by (auto simp del: pb_fire.simps split: option.splits)
  show ?case
  proof (cases "puts s1 (i, c)")
    case None
    then show ?thesis using Cons.IH [OF s1(2) Cons.prems(2)] by auto
  next
    case (Some x)
    then show ?thesis using fire_puts [OF s1(1) _ Cons.prems(3)] by auto
  qed
qed simp

section \<open>Writes\<close>

definition write_one :: "pb_event list" where
  "write_one = [PutBegin 0 0 ''x'' ''a'', ReplicateAt 0 0 1, ReplicateStore 0 0 1, ReplyOk 0 0 1,
     ReplicateAt 0 0 2, ReplicateStore 0 0 2, ReplyOk 0 0 2, PutFinish 0 0]"

definition overlapping :: "pb_event list" where
  "overlapping = [PutBegin 0 0 ''x'' ''a'', PutBegin 0 1 ''x'' ''b'',
     ReplicateAt 0 0 1, ReplicateStore 0 0 1, ReplicateAt 0 1 1, ReplicateStore 0 1 1,
     ReplicateAt 0 1 2, ReplicateStore 0 1 2, ReplicateAt 0 0 2, ReplicateStore 0 0 2,
     ReplyOk 0 0 1, ReplyOk 0 0 2, ReplyOk 0 1 1, ReplyOk 0 1 2, PutFinish 0 0, PutFinish 0 1]"

section \<open>Elections\<close>

text \<open>Both backups hear from node 0 once, then nothing for longer than the timeout.\<close>

definition suspicion :: "pb_event list" where
  "suspicion =
     [SendBeat 0 1, BeatAt 1 \<lparr>hb_sender = 0, hb_ts = 1, hb_role = 1\<rparr>,
      BeatClock 1 \<lparr>hb_sender = 0, hb_ts = 1, hb_role = 1\<rparr>,
      SendBeat 0 2, BeatAt 2 \<lparr>hb_sender = 0, hb_ts = 2, hb_role = 1\<rparr>,
      BeatClock 2 \<lparr>hb_sender = 0, hb_ts = 2, hb_role = 1\<rparr>,
      Wait 1000000001, Look 1 0, Suspect 1 0 0, Look 2 0, Suspect 2 0 0]"

definition ballot_of_1 :: AnnounceLeaderRequest where
  "ballot_of_1 = \<lparr>al_primary = 1, al_ts = 3\<rparr>"

definition ballot_of_2 :: AnnounceLeaderRequest where
  "ballot_of_2 = \<lparr>al_primary = 2, al_ts = 4\<rparr>"

definition both_stand :: "pb_event list" where
  "both_stand = suspicion @ [Stand 1, Ask 1 2, Stand 2, Ask 2 1]"

text \<open>Node 2, with the larger ballot, is accepted.\<close>

definition win_of_2 :: "pb_event list" where
  "win_of_2 = both_stand @ [AnnounceAt 2 ballot_of_1, AnnounceAt 1 ballot_of_2]"

text \<open>
  Node 1 is refused, returns to backup and then hears a heartbeat of node 2 before the announcement
  of node 2 reaches it: its clock has overtaken the ballot.
\<close>

definition both_lose :: "pb_event list" where
  "both_lose = both_stand @
     [AnnounceAt 2 ballot_of_1, Conclude 1 (Rejected 2),
      SendBeat 2 1, BeatAt 1 \<lparr>hb_sender = 2, hb_ts = 5, hb_role = 2\<rparr>,
      BeatClock 1 \<lparr>hb_sender = 2, hb_ts = 5, hb_role = 2\<rparr>,
      AnnounceAt 1 ballot_of_2, Conclude 2 (Rejected 1)]"

lemma runs_exist:
  "pb_run trio (pb_initial trio) write_one \<noteq> None" "pb_run trio (pb_initial trio) overlapping \<noteq> None"
  "pb_run trio (pb_initial trio) both_stand \<noteq> None" "pb_run trio (pb_initial trio) both_lose \<noteq> None"
  "pb_run trio (pb_initial trio) (win_of_2 @ [Conclude 2 Accepted]) \<noteq> None"
  by code_simp+

lemmas write_one_run = run_trio_Some [OF runs_exist(1)] run_trio_reachable [OF runs_exist(1)]
lemmas overlapping_run = run_trio_Some [OF runs_exist(2)] run_trio_reachable [OF runs_exist(2)]
lemmas both_stand_run = run_trio_Some [OF runs_exist(3)] run_trio_reachable [OF runs_exist(3)]
lemmas both_lose_run = run_trio_Some [OF runs_exist(4)] run_trio_reachable [OF runs_exist(4)]

section \<open>Witnesses\<close>

definition write_req :: ReplicateRequest where
  "write_req = \<lparr>rr_key = ''x'', rr_value = ''a'', rr_ts = 1, rr_origin = 0\<rparr>"

definition write_ok :: PbPutResponse where
  "write_ok = \<lparr>pbp_ok = True, pbp_redirect = [], pbp_ts = 1\<rparr>"

lemma write_one_put: "puts (run_trio write_one) (0, 0) =
    Some \<lparr>po_req = write_req, po_wait = {}, po_failed = False, po_result = Some (Inr write_ok)\<rparr>"
  by code_simp

theorem acknowledged_put_replicated_witness:
  "\<exists>w \<in> set (dropWhile (\<lambda>x. x \<noteq> write_req) (written (run_trio write_one) 2)).
     rr_key w = ''x'' \<and> pb_get (pnodes (run_trio write_one) 2) ''x'' =
       \<lparr>pbg_found = True, pbg_value = rr_value w, pbg_ts = rr_ts w\<rparr>"
  using acknowledged_put_replicated [OF write_one_run(2) write_one_put _ _ pb_later_refl, of write_ok 2]
  by (simp add: trio_ids) (simp add: write_req_def write_ok_def)

lemma write_one_serial: "serial trio (run_trio write_one)"
proof -
  obtain s1 where s1: "pb_fire trio (pb_initial trio) (hd write_one) = Some s1"
    "pb_run trio s1 (tl write_one) = Some (run_trio write_one)"
    using write_one_run(1) by (auto simp: write_one_def simp del: pb_fire.simps split: option.splits)
  have "serial trio s1"
    by (rule serial_next [OF serial_boot s1(1)]) (simp_all add: quiet_def pb_initial_def write_one_def)
  then show ?thesis by (rule run_serial [OF _ s1(2)]) (auto simp: write_one_def)
qed

theorem serial_replicas_agree_witness:
  "nd_store (pnodes (run_trio write_one) 0) = nd_store (pnodes (run_trio write_one) 2) \<and>
   pb_get (pnodes (run_trio write_one) 2) ''x'' = \<lparr>pbg_found = True, pbg_value = ''a'', pbg_ts = 1\<rparr>"
proof -
  have "quiet (run_trio write_one)" unfolding quiet_def
  proof (intro allI impI)
    fix i c op assume a: "puts (run_trio write_one) (i, c) = Some op"
    then have "(i, c) = (0, 0)"
      using run_puts [OF write_one_run(1), of i c] by (auto simp: write_one_def pb_initial_def)
    then show "po_result op \<noteq> None" using a write_one_put by auto
  qed
  then have "nd_store (pnodes (run_trio write_one) 0) = nd_store (pnodes (run_trio write_one) 2)"
    using serial_replicas_agree [OF write_one_serial] trio_ids by blast
  moreover have "pb_get (pnodes (run_trio write_one) 2) ''x'' = \<lparr>pbg_found = True, pbg_value = ''a'', pbg_ts = 1\<rparr>"
    by code_simp
  ultimately show ?thesis by blast
qed

theorem rival_candidates_decided_witness:
  "(\<not> snd (AnnounceLeader (pnodes (run_trio both_stand) 2) ballot_of_1)) =
   snd (AnnounceLeader (pnodes (run_trio both_stand) 1) ballot_of_2)"
proof -
  have "races (run_trio both_stand) 1 = Some \<lparr>el_req = ballot_of_1, el_may = {2}, el_asked = Some 2\<rparr>"
    "races (run_trio both_stand) 2 = Some \<lparr>el_req = ballot_of_2, el_may = {1}, el_asked = Some 1\<rparr>"
    by code_simp+
  note r = rival_candidates_decided [OF both_stand_run(2) this]
  show ?thesis using r [THEN conjunct2, THEN conjunct2] unfolding election.select_convs by simp
qed

definition won_by_2 :: pb_system where
  "won_by_2 = run_trio (win_of_2 @ [Conclude 2 Accepted])"

lemma won_by_2_steps:
  "pb_reachable trio (run_trio win_of_2)" "pb_fire trio (run_trio win_of_2) (Conclude 2 Accepted) = Some won_by_2"
  "silent_reachable trio (run_trio win_of_2)" "silent_reachable trio won_by_2"
proof -
  obtain s where s: "pb_run trio (pb_initial trio) win_of_2 = Some s" "pb_fire trio s (Conclude 2 Accepted) = Some won_by_2"
    using run_trio_Some [OF runs_exist(5)]
    by (auto simp: pb_run_append won_by_2_def simp del: pb_fire.simps split: option.splits)
  then have eq: "run_trio win_of_2 = s" by (simp add: run_trio_def)
  show r: "silent_reachable trio (run_trio win_of_2)"
    using run_silent [OF silent_boot s(1)] unfolding eq
    by (auto simp: win_of_2_def both_stand_def suspicion_def)
  show f: "pb_fire trio (run_trio win_of_2) (Conclude 2 Accepted) = Some won_by_2" unfolding eq by (rule s(2))
  show "pb_reachable trio (run_trio win_of_2)" by (rule silent_is_reachable [OF r])
  show "silent_reachable trio won_by_2" by (rule silent_next [OF r f]) simp
qed

theorem primaries_accumulate_witness:
  "nd_role (pnodes won_by_2 2) = RolePrimary \<and> nd_role (pnodes won_by_2 0) = RolePrimary \<and>
   (\<exists>n req. pb_put_begin (pnodes won_by_2 2) ''x'' ''b'' = Inr (n, req)) \<and>
   (\<exists>n req. pb_put_begin (pnodes won_by_2 0) ''x'' ''c'' = Inr (n, req))"
proof -
  have "nd_role (pnodes (run_trio win_of_2) 0) = RolePrimary" by code_simp
  from primaries_accumulate [OF won_by_2_steps(1,2) pb_later_refl this] show ?thesis by blast
qed

theorem at_most_one_successor_witness:
  "nd_role (pnodes won_by_2 2) = RolePrimary \<and> nd_role (pnodes won_by_2 1) \<noteq> RolePrimary"
proof -
  have p: "nd_role (pnodes won_by_2 2) = RolePrimary" by code_simp
  show ?thesis
    using at_most_one_successor [OF trio_ids won_by_2_steps(4,4) pb_later_refl p, of 1] p by auto
qed

section \<open>What can go wrong\<close>

text \<open>
  Overlapping writes can leave the replicas different for ever: two writes of one key, both
  acknowledged, no failure, no call or message left, and the two backups return different values,
  because a backup applies writes in the order they arrive and not by their timestamps.
\<close>

theorem concurrent_puts_diverge:
  "\<exists>s a b. pb_reachable trio s \<and> repl s = {} \<and> arrived s = {} \<and>
     map_option po_result (puts s (0, 0)) = Some (Some (Inr \<lparr>pbp_ok = True, pbp_redirect = [], pbp_ts = 1\<rparr>)) \<and>
     map_option po_result (puts s (0, 1)) = Some (Some (Inr \<lparr>pbp_ok = True, pbp_redirect = [], pbp_ts = 2\<rparr>)) \<and>
     pb_get (pnodes s 1) ''x'' = \<lparr>pbg_found = True, pbg_value = a, pbg_ts = 2\<rparr> \<and>
     pb_get (pnodes s 2) ''x'' = \<lparr>pbg_found = True, pbg_value = b, pbg_ts = 1\<rparr> \<and> a \<noteq> b"
proof -
  let ?s = "run_trio overlapping"
  have "repl ?s = {} \<and> arrived ?s = {}"
    "map_option po_result (puts ?s (0, 0)) = Some (Some (Inr \<lparr>pbp_ok = True, pbp_redirect = [], pbp_ts = 1\<rparr>))"
    "map_option po_result (puts ?s (0, 1)) = Some (Some (Inr \<lparr>pbp_ok = True, pbp_redirect = [], pbp_ts = 2\<rparr>))"
    "pb_get (pnodes ?s 1) ''x'' = \<lparr>pbg_found = True, pbg_value = ''b'', pbg_ts = 2\<rparr>"
    "pb_get (pnodes ?s 2) ''x'' = \<lparr>pbg_found = True, pbg_value = ''a'', pbg_ts = 1\<rparr>"
    "''b'' \<noteq> ''a''" by code_simp+
  then show ?thesis using overlapping_run(2) by blast
qed

text \<open>
  Both candidates can lose one election: with node 0 silent, a run leads to a state in which
  neither backup is primary, no election is running or about to, no announcement is left, and each of
  the two redirects every \<open>Put\<close> to the other.
\<close>

theorem both_candidates_lose:
  "\<exists>s. silent_reachable trio s \<and> races s 1 = None \<and> races s 2 = None \<and> launched s 1 = 0 \<and> launched s 2 = 0 \<and>
     announces s = {} \<and>
     (\<forall>key val. pb_put_begin (pnodes s 1) key val =
        Inl \<lparr>pbp_ok = False, pbp_redirect = ''localhost:7002'', pbp_ts = 0\<rparr>) \<and>
     (\<forall>key val. pb_put_begin (pnodes s 2) key val =
        Inl \<lparr>pbp_ok = False, pbp_redirect = ''localhost:7001'', pbp_ts = 0\<rparr>)"
proof -
  let ?s = "run_trio both_lose"
  have "silent_reachable trio ?s"
    using run_silent [OF silent_boot both_lose_run(1)] by (auto simp: both_lose_def both_stand_def suspicion_def)
  moreover have "races ?s 1 = None" "races ?s 2 = None" "launched ?s 1 = 0" "launched ?s 2 = 0" "announces ?s = {}"
    "nd_role (pnodes ?s 1) = RoleBackup" "nd_role (pnodes ?s 2) = RoleBackup"
    "redirect_reply (pnodes ?s 1) = \<lparr>pbp_ok = False, pbp_redirect = ''localhost:7002'', pbp_ts = 0\<rparr>"
    "redirect_reply (pnodes ?s 2) = \<lparr>pbp_ok = False, pbp_redirect = ''localhost:7001'', pbp_ts = 0\<rparr>"
    by code_simp+
  ultimately show ?thesis by (auto simp: pb_put_begin_def)
qed

end
