(* ===== verification/PbSession.thy ===== *)
theory PbSession
  imports PbExecutions KvClient Wire
begin

text \<open>
  The command-line client in front of the primary-backup store: the network of \<open>KvClient\<close> is instantiated
  with the system of \<open>PbCluster\<close>, over the connections of \<open>Wire\<close>.
\<close>

section \<open>The wire\<close>

type_synonym pb_wire = "(pb_system, pb_event) wire"

text \<open>The answer to a call is there when \<open>po_result\<close> is; until then the client has none.\<close>

definition pb_put_answer :: "int32 \<Rightarrow> nat \<Rightarrow> pb_system \<Rightarrow> PbPutResponse rpc" where
  "pb_put_answer i n s =
     (case puts s (i, n) of
        None \<Rightarrow> no_answer
      | Some op \<Rightarrow> (case po_result op of None \<Rightarrow> no_answer | Some r \<Rightarrow> r))"

definition pb_wire_put ::
  "ClusterConfig \<Rightarrow> pb_wire \<Rightarrow> string \<Rightarrow> PutRequest \<Rightarrow> pb_wire \<times> PbPutResponse rpc" where
  "pb_wire_put cfg w addr req =
     call_node (pb_run cfg) cfg w addr (\<lambda>i n. [PutBegin i n (put_key req) (put_value req)])
       (\<lambda>i n before now. pb_put_answer i n now)"

definition pb_wire_get :: "ClusterConfig \<Rightarrow> pb_wire \<Rightarrow> string \<Rightarrow> string \<Rightarrow> pb_wire \<times> PbGetResponse rpc" where
  "pb_wire_get cfg w addr key =
     call_node (pb_run cfg) cfg w addr (\<lambda>i n. []) (\<lambda>i n before now. Inr (pb_get (pnodes before i) key))"

definition pb_wire_primary :: "ClusterConfig \<Rightarrow> pb_wire \<Rightarrow> string \<Rightarrow> pb_wire \<times> PbPrimaryResponse rpc" where
  "pb_wire_primary cfg w addr =
     call_node (pb_run cfg) cfg w addr (\<lambda>i n. []) (\<lambda>i n before now. pb_get_primary (pnodes before i))"

definition pb_net_of :: "ClusterConfig \<Rightarrow> pb_wire pb_net" where
  "pb_net_of cfg =
     \<lparr>reachable = (\<lambda>w addr. True), call_put = pb_wire_put cfg, call_get = pb_wire_get cfg,
      call_primary = pb_wire_primary cfg\<rparr>"

lemma pb_net_of_sel [simp]:
  "reachable (pb_net_of cfg) w addr" "call_put (pb_net_of cfg) = pb_wire_put cfg"
  "call_get (pb_net_of cfg) = pb_wire_get cfg" "call_primary (pb_net_of cfg) = pb_wire_primary cfg"
  by (simp_all add: pb_net_of_def)

section \<open>Calls on the wire\<close>

interpretation pbw: courier "pb_run cfg" "pb_later cfg" for cfg
  by unfold_locales (blast intro: pb_run_later pb_later_refl pb_later_trans)+

text \<open>A call keeps its key and value.\<close>

definition asks_for :: "string \<Rightarrow> string \<Rightarrow> put_op \<Rightarrow> bool" where
  "asks_for key val op \<longleftrightarrow> rr_key (po_req op) = key \<and> rr_value (po_req op) = val"

lemma begin_asks:
  assumes "pb_fire cfg s (PutBegin i n key val) = Some s'"
  shows "\<exists>op. puts s' (i, n) = Some op \<and> asks_for key val op"
  using assms
  by (auto simp: pb_put_begin_def set_put_def asks_for_def split: if_splits sum.splits prod.splits)

lemma fire_keeps_asked:
  assumes "pb_fire cfg s ev = Some s'" and "puts s (i, n) = Some op"
  shows "\<exists>op'. puts s' (i, n) = Some op' \<and> po_req op' = po_req op"
  using assms
  by (cases ev)
    (auto simp: set_put_def set_pnode_def split: if_splits option.splits sum.splits prod.splits)

lemma run_keeps_asked:
  "pb_run cfg s evs = Some s' \<Longrightarrow> puts s (i, n) = Some op \<Longrightarrow>
     \<exists>op'. puts s' (i, n) = Some op' \<and> po_req op' = po_req op"
proof (induction evs arbitrary: s op)
  case (Cons ev evs)
  then obtain s1 where s1: "pb_fire cfg s ev = Some s1" "pb_run cfg s1 evs = Some s'"
    by (auto split: option.splits)
  obtain op1 where op1: "puts s1 (i, n) = Some op1" "po_req op1 = po_req op"
    using fire_keeps_asked [OF s1(1) Cons.prems(2)] by blast
  show ?case using Cons.IH [OF s1(2) op1(1)] op1(2) by simp
qed simp

lemma pb_put_on_wire:
  assumes "pb_wire_put cfg w addr \<lparr>put_key = key, put_value = val\<rparr> = (w', Inr r)"
  obtains i n op where "pb_later cfg (wr_sys w) (wr_sys w')" and "puts (wr_sys w') (i, n) = Some op"
    and "po_result op = Some (Inr r)" and "asks_for key val op"
proof -
  obtain i sys1 and e :: "pb_event errand"
    where t: "pb_run cfg sys1 ([PutBegin i (wr_next w) key val] @ er_during e) = Some (wr_sys w')"
      and r: "pb_put_answer i (wr_next w) (wr_sys w') = Inr r"
    by (rule pbw.call_answered [OF assms [unfolded pb_wire_put_def]]) simp
  obtain sys2 where b: "pb_fire cfg sys1 (PutBegin i (wr_next w) key val) = Some sys2"
    "pb_run cfg sys2 (er_during e) = Some (wr_sys w')"
    using t by (auto simp del: pb_fire.simps split: option.splits)
  obtain op0 where op0: "puts sys2 (i, wr_next w) = Some op0" "asks_for key val op0"
    using begin_asks [OF b(1)] by blast
  obtain op where "puts (wr_sys w') (i, wr_next w) = Some op" "po_req op = po_req op0"
    using run_keeps_asked [OF b(2) op0(1)] by blast
  then show ?thesis
    using that pbw.call_later [OF assms [unfolded pb_wire_put_def]] r op0(2)
    by (auto simp: pb_put_answer_def asks_for_def split: option.splits)
qed

lemma pb_get_on_wire:
  assumes "pb_wire_get cfg w addr key = (w', Inr r)" and "addr_node cfg addr = Some j"
  obtains sys1 where "pb_later cfg (wr_sys w) sys1" and "pb_later cfg sys1 (wr_sys w')"
    and "r = pb_get (pnodes sys1 j) key"
proof -
  obtain i sys1 and e :: "pb_event errand" where "addr_node cfg addr = Some i" "pb_later cfg (wr_sys w) sys1"
    "pb_run cfg sys1 ([] @ er_during e) = Some (wr_sys w')"
    "Inr (pb_get (pnodes sys1 i) key) = (Inr r :: PbGetResponse rpc)"
    by (rule pbw.call_answered [OF assms(1) [unfolded pb_wire_get_def]])
  then show ?thesis using that [of sys1] assms(2) pb_run_later by auto
qed

section \<open>What the command line says\<close>

text \<open>
  A put that prints \<open>ok=true\<close> was accepted, by the addressed server or by the one it redirected to. A put
  that nobody accepted may end with status 0 too, but then it prints \<open>ok=false\<close>.
\<close>

lemma printed_ok:
  assumes "pb_cmdPut (pb_net_of cfg) w key val addr = (w', [''ok=true lamport_ts='' @ t], status)"
  obtains w0 at r where "pb_later cfg (wr_sys w) (wr_sys w0)"
    and "pb_wire_put cfg w0 at \<lparr>put_key = key, put_value = val\<rparr> = (w', Inr r)"
    and "pbp_ok r" and "t = Itoa (pbp_ts r)"
proof -
  have line: "pbp_ok r \<and> t = Itoa (pbp_ts r)" if "pb_put_line r = ''ok=true lamport_ts='' @ t" for r
    using that by (simp add: pb_put_line_def go_bool_def split: if_splits)
  let ?req = "\<lparr>put_key = key, put_value = val\<rparr>"
  obtain w1 r1 where r1: "pb_wire_put cfg w addr ?req = (w1, Inr r1)"
    using assms by (auto simp: pb_cmdPut_def Let_def split: prod.splits sum.splits)
  show ?thesis
  proof (cases "\<not> pbp_ok r1 \<and> pbp_redirect r1 \<noteq> ''''")
    case True
    then obtain r2 where "pb_wire_put cfg w1 (pbp_redirect r1) ?req = (w', Inr r2)"
      "pb_put_line r2 = ''ok=true lamport_ts='' @ t"
      using assms r1 by (auto simp: pb_cmdPut_def Let_def split: prod.splits sum.splits if_splits)
    then show ?thesis using that [of w1] line pbw.call_later [OF r1 [unfolded pb_wire_put_def]] by blast
  next
    case False
    then have "w1 = w'" "pb_put_line r1 = ''ok=true lamport_ts='' @ t"
      using assms r1 by (auto simp: pb_cmdPut_def Let_def split: if_splits)
    then show ?thesis using that [of w addr r1] r1 line pb_later_refl by blast
  qed
qed

definition found_line :: "ReplicateRequest \<Rightarrow> string" where
  "found_line x = ''found=true value='' @ rr_value x @ '' lamport_ts='' @ Itoa (rr_ts x)"

lemma later_dropWhile:
  assumes "pb_later cfg s s'" and "x \<in> set (dropWhile P (written s j))"
  shows "x \<in> set (dropWhile P (written s' j))"
proof -
  obtain ws where "written s' j = written s j @ ws"
    using later_keeps [OF assms(1)] by (auto simp: pb_keeps_def prefix_def)
  moreover have "\<exists>y \<in> set (written s j). \<not> P y"
    using assms(2) dropWhile_eq_Nil_conv [of P "written s j"] by fastforce
  ultimately show ?thesis using assms(2) by (auto simp: dropWhile_append)
qed

text \<open>
  C40. Reading what was written, from command line to command line: when \<open>kvctl put\<close> prints \<open>ok=true\<close>
  with a timestamp, over one redirection or none, there is a write of that key, value and timestamp;
  whatever happens then, every later \<open>kvctl get\<close> of the key that ends with status 0, at any server of
  the configuration, prints the value and timestamp of this write or of a write of the key that this
  server applied after it.
\<close>

theorem pb_kvctl_reads_writes:
  assumes "pb_reachable cfg (wr_sys w)"
    and "pb_kvctl (pb_net_of cfg) w [prog, ''put'', key, val, addr] = (w1, [''ok=true lamport_ts='' @ t], status)"
  shows "\<exists>req. rr_key req = key \<and> rr_value req = val \<and> Itoa (rr_ts req) = t \<and>
    (\<forall>w2 w3 j addr2 out.
       pb_later cfg (wr_sys w1) (wr_sys w2) \<and> addr_node cfg addr2 = Some j \<and>
       pb_kvctl (pb_net_of cfg) w2 [prog, ''get'', key, addr2] = (w3, out, 0) \<longrightarrow>
       (\<exists>x \<in> set (dropWhile (\<lambda>y. y \<noteq> req) (written (wr_sys w3) j)).
          rr_key x = key \<and> out = [found_line x]))"
proof -
  let ?sys1 = "wr_sys w1"
  have "pb_cmdPut (pb_net_of cfg) w key val addr = (w1, [''ok=true lamport_ts='' @ t], status)"
    using assms(2) by (simp add: pb_kvctl_def)
  from printed_ok [OF this] obtain w0 at r where p: "pb_later cfg (wr_sys w) (wr_sys w0)"
    "pb_wire_put cfg w0 at \<lparr>put_key = key, put_value = val\<rparr> = (w1, Inr r)" "pbp_ok r" "t = Itoa (pbp_ts r)" .
  obtain i n op where c: "pb_later cfg (wr_sys w0) ?sys1" "puts ?sys1 (i, n) = Some op"
    "po_result op = Some (Inr r)" "asks_for key val op"
    using pb_put_on_wire [OF p(2)] .
  have re: "pb_reachable cfg ?sys1" by (rule pb_later_reachable [OF pb_later_trans [OF p(1) c(1)] assms(1)])
  have "\<exists>x \<in> set (dropWhile (\<lambda>y. y \<noteq> po_req op) (written (wr_sys w3) j)). rr_key x = key \<and> out = [found_line x]"
    if g: "pb_later cfg ?sys1 (wr_sys w2)" "addr_node cfg addr2 = Some j"
      "pb_kvctl (pb_net_of cfg) w2 [prog, ''get'', key, addr2] = (w3, out, 0)" for w2 w3 j addr2 out
  proof -
    obtain rg where rg: "pb_wire_get cfg w2 addr2 key = (w3, Inr rg)"
      "out = [if pbg_found rg then ''found=true value='' @ pbg_value rg @ '' lamport_ts='' @ Itoa (pbg_ts rg)
        else ''found=false'']"
      using g(3) by (auto simp: pb_kvctl_def pb_cmdGet_def split: prod.splits sum.splits if_splits)
    obtain s where s: "pb_later cfg (wr_sys w2) s" "pb_later cfg s (wr_sys w3)" "rg = pb_get (pnodes s j) key"
      using pb_get_on_wire [OF rg(1) g(2)] .
    have l: "pb_later cfg ?sys1 s" by (rule pb_later_trans [OF g(1) s(1)])
    have "po_req op \<in> set (written s j)"
      using acknowledged_write [OF re c(2,3) p(3) l] addr_node_id [OF g(2)] by simp
    from get_after_write [OF pb_later_reachable [OF l re] this] obtain x
      where x: "x \<in> set (dropWhile (\<lambda>y. y \<noteq> po_req op) (written s j))" "rr_key x = key"
        "rg = \<lparr>pbg_found = True, pbg_value = rr_value x, pbg_ts = rr_ts x\<rparr>"
      using s(3) c(4) by (auto simp: asks_for_def)
    show ?thesis using later_dropWhile [OF s(2) x(1)] x(2,3) rg(2) by (auto simp: found_line_def)
  qed
  then show ?thesis
    using c(4) p(4) acknowledged_ts [OF re c(2,3) p(3)] by (intro exI [of _ "po_req op"]) (auto simp: asks_for_def)
qed

text \<open>A put at a backup, which redirects to node 0; the write is replicated; a get at node 2.\<close>

definition pb_at_start :: pb_wire where
  "pb_at_start =
     \<lparr>wr_sys = pb_initial trio, wr_next = 0,
      wr_plan = [\<lparr>er_before = [], er_during = [], er_replies = True\<rparr>,
                 \<lparr>er_before = [],
                  er_during = [ReplicateAt 0 1 1, ReplicateStore 0 1 1, ReplyOk 0 1 1,
                    ReplicateAt 0 1 2, ReplicateStore 0 1 2, ReplyOk 0 1 2, PutFinish 0 1],
                  er_replies = True\<rparr>,
                 \<lparr>er_before = [SendBeat 0 2], er_during = [], er_replies = True\<rparr>]\<rparr>"

definition pb_do_put :: "pb_wire \<times> cli" where
  "pb_do_put = pb_kvctl (pb_net_of trio) pb_at_start [''kvctl'', ''put'', ''x'', ''a'', ''localhost:7001'']"

definition pb_do_get :: "pb_wire \<times> cli" where
  "pb_do_get = pb_kvctl (pb_net_of trio) (fst pb_do_put) [''kvctl'', ''get'', ''x'', ''localhost:7002'']"

lemma pb_do_put_get:
  "snd pb_do_put = ([''ok=true lamport_ts='' @ ''1''], 0) \<and> snd (snd pb_do_get) = 0 \<and>
   addr_node trio ''localhost:7002'' = Some 2"
  by (intro conjI) code_simp+

theorem pb_kvctl_reads_writes_witness:
  "\<exists>req. Itoa (rr_ts req) = ''1'' \<and>
     (\<exists>x \<in> set (dropWhile (\<lambda>y. y \<noteq> req) (written (wr_sys (fst pb_do_get)) 2)).
        rr_key x = ''x'' \<and> fst (snd pb_do_get) = [found_line x])"
proof -
  have p: "pb_kvctl (pb_net_of trio) pb_at_start [''kvctl'', ''put'', ''x'', ''a'', ''localhost:7001''] =
      (fst pb_do_put, [''ok=true lamport_ts='' @ ''1''], 0)" "pb_reachable trio (wr_sys pb_at_start)"
    using pb_do_put_get pb_boot by (auto simp: pb_do_put_def pb_at_start_def prod_eq_iff)
  have g: "pb_kvctl (pb_net_of trio) (fst pb_do_put) [''kvctl'', ''get'', ''x'', ''localhost:7002''] =
      (fst pb_do_get, fst (snd pb_do_get), 0)"
    using pb_do_put_get by (auto simp: pb_do_get_def prod_eq_iff)
  show ?thesis using pb_kvctl_reads_writes [OF p(2,1)] g pb_do_put_get pb_later_refl by blast
qed

end
