(* ===== verification/PbProgress.thy ===== *)
theory PbProgress
  imports PbExecutions
begin

text \<open>
  No state of the primary-backup store is a dead end: whatever has happened, a primary can take a write,
  and if the other nodes answer, the write is acknowledged and every node returns it.
\<close>

section \<open>Calls are finitely many\<close>

lemma finite_dom_if: "finite (dom f) \<Longrightarrow> finite (dom (\<lambda>a. if a = x then Some y else f a))"
  by (rule finite_subset [of _ "insert x (dom f)"]) (auto split: if_splits)

lemma finite_calls: "pb_reachable cfg s \<Longrightarrow> finite (dom (puts s))"
proof (induction rule: pb_reachable.induct)
  case pb_boot
  show ?case by (simp add: pb_initial_def)
next
  case (pb_next s ev s')
  show ?case
    using pb_next.hyps(2) pb_next.IH
    by (cases ev)
      (auto simp: set_put_def set_pnode_def intro!: finite_dom_if split: if_splits option.splits sum.splits prod.splits)
qed

lemma fresh_call:
  assumes "pb_reachable cfg s"
  obtains c where "puts s (i, c) = None"
proof -
  have "finite (snd ` dom (puts s))" using finite_calls [OF assms] by simp
  then obtain c where "c \<notin> snd ` dom (puts s)" using ex_new_if_finite infinite_UNIV_nat by blast
  then have "puts s (i, c) = None" by force
  then show ?thesis by (rule that)
qed

section \<open>Replicating to the peers\<close>

text \<open>One peer: its two critical sections, then the reply.\<close>

lemma deliver_one:
  assumes "puts s (i, c) = Some op" and "p \<in> po_wait op" and "(i, c, p) \<in> repl s"
  shows "\<exists>s'. pb_run cfg s [ReplicateAt i c p, ReplicateStore i c p, ReplyOk i c p] = Some s' \<and>
    puts s' (i, c) = Some (op\<lparr>po_wait := po_wait op - {p}\<rparr>) \<and> repl s' = repl s - {(i, c, p)} \<and>
    written s' = (written s)(p := written s p @ [po_req op])"
  using assms by (simp add: set_pnode_def set_put_def)

lemma deliver_all:
  assumes "finite A" and "puts s (i, c) = Some op" and "po_wait op = A" and "\<forall>p \<in> A. (i, c, p) \<in> repl s"
  shows "\<exists>s'. pb_later cfg s s' \<and> puts s' (i, c) = Some (op\<lparr>po_wait := {}\<rparr>) \<and>
    (\<forall>j. written s' j = written s j @ (if j \<in> A then [po_req op] else []))"
  using assms
proof (induction A arbitrary: s op rule: finite_induct)
  case empty
  then show ?case using pb_later_refl by (intro exI [of _ s]) auto
next
  case (insert p A)
  obtain s1 where s1: "pb_run cfg s [ReplicateAt i c p, ReplicateStore i c p, ReplyOk i c p] = Some s1"
    "puts s1 (i, c) = Some (op\<lparr>po_wait := po_wait op - {p}\<rparr>)" "repl s1 = repl s - {(i, c, p)}"
    "written s1 = (written s)(p := written s p @ [po_req op])"
    using deliver_one [of s i c op p cfg] insert.prems by auto
  have "po_wait (op\<lparr>po_wait := po_wait op - {p}\<rparr>) = A" using insert.prems(2) insert.hyps(2) by auto
  moreover have "\<forall>q \<in> A. (i, c, q) \<in> repl s1" using insert.prems(3) insert.hyps(2) s1(3) by auto
  ultimately obtain s2 where "pb_later cfg s1 s2" "puts s2 (i, c) = Some (op\<lparr>po_wait := {}\<rparr>)"
    "\<forall>j. written s2 j = written s1 j @ (if j \<in> A then [po_req op] else [])"
    using insert.IH [OF s1(2)] by auto
  then show ?case using pb_later_trans [OF pb_run_later [OF s1(1)]] s1(4) insert.hyps(2)
    by (intro exI [of _ s2]) auto
qed

section \<open>A write from start to end\<close>

lemma get_last:
  assumes "pb_inv cfg s" and "written s j = ws @ [r]"
  shows "pb_get (pnodes s j) (rr_key r) = \<lparr>pbg_found = True, pbg_value = rr_value r, pbg_ts = rr_ts r\<rparr>"
  using pb_get_last_write [OF assms(1), of j "rr_key r"] assms(2) by (simp add: last_write_def)

text \<open>
  C22. A primary can always write: from every reachable state, whatever calls, elections and messages are
  under way, a primary has a run in which a new \<open>Put\<close> is acknowledged with a timestamp; after it, a
  \<open>Get\<close> of the key returns that value and timestamp at every node of the configuration.
\<close>

theorem primary_can_write:
  assumes "pb_reachable cfg s" and "i \<in> node_ids cfg" and "nd_role (pnodes s i) = RolePrimary"
  shows "\<exists>s' c op r. pb_later cfg s s' \<and> puts s (i, c) = None \<and> puts s' (i, c) = Some op \<and>
    po_result op = Some (Inr r) \<and> pbp_ok r \<and>
    (\<forall>j \<in> node_ids cfg. pb_get (pnodes s' j) key = \<lparr>pbg_found = True, pbg_value = val, pbg_ts = pbp_ts r\<rparr>)"
proof -
  obtain c where c: "puts s (i, c) = None" using fresh_call [OF assms(1)] .
  obtain n req where n: "pb_put_begin (pnodes s i) key val = Inr (n, req)" "rr_key req = key" "rr_value req = val"
    "nd_peers n = nd_peers (pnodes s i)"
    using assms(3) by (simp add: pb_put_begin_def Tick_simp)
  have peers: "nd_peers n = node_ids cfg - {i}" using node_fields(2) [OF pb_reachable_inv [OF assms(1)], of i] n(4) by simp
  let ?op = "\<lparr>po_req = req, po_wait = nd_peers n, po_failed = False, po_result = None\<rparr>"
  let ?s1 = "(set_put (set_pnode s i n) i c ?op)\<lparr>repl := repl s \<union> (\<lambda>p. (i, c, p)) ` nd_peers n\<rparr>"
  have f1: "pb_fire cfg s (PutBegin i c key val) = Some ?s1" using c n(1) assms(2) by simp
  have fin: "finite (nd_peers n)" unfolding peers by (simp add: node_ids_def)
  obtain s2 where s2: "pb_later cfg ?s1 s2" "puts s2 (i, c) = Some (?op\<lparr>po_wait := {}\<rparr>)"
    "\<forall>j. written s2 j = written s j @ (if j \<in> nd_peers n then [req] else [])"
    using deliver_all [OF fin, of ?s1 i c ?op cfg] by (auto simp: set_put_def set_pnode_def)
  let ?r = "\<lparr>pbp_ok = True, pbp_redirect = [], pbp_ts = rr_ts req\<rparr>"
  obtain s3 where s3: "pb_fire cfg s2 (PutFinish i c) = Some s3"
    "puts s3 (i, c) = Some (?op\<lparr>po_wait := {}, po_result := Some (Inr ?r)\<rparr>)"
    "written s3 = (written s2)(i := written s2 i @ [req])"
    using s2(2) by (simp add: pb_put_finish_def set_put_def set_pnode_def)
  have later: "pb_later cfg s s3"
    using pb_later_trans [OF pb_run_later [of cfg s "[PutBegin i c key val]"]
        pb_later_trans [OF s2(1) pb_run_later [of cfg s2 "[PutFinish i c]"]]] f1 s3(1) by simp
  have inv: "pb_inv cfg s3" by (rule pb_reachable_inv [OF pb_later_reachable [OF later assms(1)]])
  have "pb_get (pnodes s3 j) key = \<lparr>pbg_found = True, pbg_value = val, pbg_ts = pbp_ts ?r\<rparr>"
    if "j \<in> node_ids cfg" for j
    using get_last [OF inv, of j "written s j" req] that s2(3) s3(3) peers n(2,3) by simp
  then show ?thesis using later c s3(2) by (intro exI [of _ s3] exI [of _ c]) auto
qed

text \<open>Node 0 while the two backups stand for election against it.\<close>

theorem primary_can_write_witness:
  "\<exists>s' (r :: PbPutResponse). pb_later trio (run_trio both_stand) s' \<and> pbp_ok r \<and>
     pb_get (pnodes s' 2) ''y'' = \<lparr>pbg_found = True, pbg_value = ''b'', pbg_ts = pbp_ts r\<rparr>"
proof -
  have role: "nd_role (pnodes (run_trio both_stand) 0) = RolePrimary" by code_simp
  have "0 \<in> node_ids trio" by (simp add: trio_ids)
  from primary_can_write [OF both_stand_run(2) this role, of "''y''" "''b''"] obtain s' and r :: PbPutResponse
    where "pb_later trio (run_trio both_stand) s'" "pbp_ok r"
      "\<forall>j \<in> node_ids trio. pb_get (pnodes s' j) ''y'' = \<lparr>pbg_found = True, pbg_value = ''b'', pbg_ts = pbp_ts r\<rparr>"
    by (elim exE conjE) blast
  moreover have "2 \<in> node_ids trio" by (simp add: trio_ids)
  ultimately show ?thesis by blast
qed

end
