(* ===== verification/GoFlag.thy ===== *)
theory GoFlag
  imports GoText "HOL-Library.AList"
begin

text \<open>
  The part of Go's \<open>flag\<close> package the programs use: flags with string or integer values, parsed from the
  command line before the first argument that is not a flag. Integer flags are read with base 0, that
  is with the prefixes and underscores of Go's integer literals.
\<close>

section \<open>Integers with a base prefix\<close>

definition digit_of :: "char \<Rightarrow> nat option" where
  "digit_of c =
     (if is_digit c then Some (nat (digit_value c))
      else let l = lower_char c in
        if CHR ''a'' \<le> l \<and> l \<le> CHR ''z'' then Some (of_char l - 87) else None)"

text \<open>The digit loop of \<open>strconv.ParseUint\<close> with base 0, which passes over underscores.\<close>

fun uint_loop :: "nat \<Rightarrow> nat \<Rightarrow> string \<Rightarrow> nat option" where
  "uint_loop base acc [] = Some acc"
| "uint_loop base acc (c # cs) =
     (if c = CHR ''_'' then uint_loop base acc cs
      else case digit_of c of
        None \<Rightarrow> None
      | Some d \<Rightarrow> if base \<le> d then None else uint_loop base (base * acc + d) cs)"

definition base_prefix :: "string \<Rightarrow> nat \<times> string" where
  "base_prefix s =
     (case s of
        z # b # c # cs \<Rightarrow>
          if z \<noteq> CHR ''0'' then (10, s)
          else if lower_char b = CHR ''b'' then (2, c # cs)
          else if lower_char b = CHR ''o'' then (8, c # cs)
          else if lower_char b = CHR ''x'' then (16, c # cs)
          else (8, b # c # cs)
      | z # cs \<Rightarrow> if z \<noteq> CHR ''0'' then (10, s) else (8, cs)
      | [] \<Rightarrow> (10, s))"

text \<open>
  \<open>underscoreOK\<close>: an underscore stands between digits, or between the base prefix and a digit. The
  character \<open>last\<close> is 0 after a digit, an underscore after one, and anything else otherwise.
\<close>

fun underscore_loop :: "bool \<Rightarrow> char \<Rightarrow> string \<Rightarrow> bool" where
  "underscore_loop hex l [] = (l \<noteq> CHR ''_'')"
| "underscore_loop hex l (c # cs) =
     (if is_digit c \<or> hex \<and> CHR ''a'' \<le> lower_char c \<and> lower_char c \<le> CHR ''f''
      then underscore_loop hex CHR ''0'' cs
      else if c = CHR ''_'' then l = CHR ''0'' \<and> underscore_loop hex CHR ''_'' cs
      else l \<noteq> CHR ''_'' \<and> underscore_loop hex CHR ''!'' cs)"

definition underscoreOK :: "string \<Rightarrow> bool" where
  "underscoreOK s =
     (case s of
        z # b # cs \<Rightarrow>
          if z = CHR ''0'' \<and> lower_char b \<in> {CHR ''b'', CHR ''o'', CHR ''x''}
          then underscore_loop (lower_char b = CHR ''x'') CHR ''0'' cs
          else underscore_loop False CHR ''^'' s
      | _ \<Rightarrow> underscore_loop False CHR ''^'' s)"

definition ParseUint0 :: "string \<Rightarrow> nat option" where
  "ParseUint0 s =
     (if s = '''' then None
      else case base_prefix s of (base, ds) \<Rightarrow>
        (case uint_loop base 0 ds of
           None \<Rightarrow> None
         | Some n \<Rightarrow> if CHR ''_'' \<in> set ds \<and> \<not> underscoreOK s then None else Some n))"

text \<open>\<open>strconv.ParseInt(s, 0, 64)\<close>; \<open>None\<close> is a syntax or a range error.\<close>

definition ParseInt0 :: "string \<Rightarrow> int option" where
  "ParseInt0 s =
     (let (neg, ds) = (case s of c # cs \<Rightarrow> if c = CHR ''-'' then (True, cs)
                          else if c = CHR ''+'' then (False, cs) else (False, s) | [] \<Rightarrow> (False, s))
      in case ParseUint0 ds of
        None \<Rightarrow> None
      | Some n \<Rightarrow>
          let v = (if neg then - int n else int n)
          in if - (2 ^ 63) \<le> v \<and> v < 2 ^ 63 then Some v else None)"

section \<open>Flags\<close>

datatype flag_val = FInt int | FString string

text \<open>The errors end the program, with status 2, or 0 after \<open>-help\<close> has printed the usage.\<close>

datatype flag_error = BadSyntax string | NotDefined string | HelpAsked | NeedsArgument string | InvalidValue string string

definition flag_set :: "flag_val \<Rightarrow> string \<Rightarrow> flag_val option" where
  "flag_set old value =
     (case old of FString _ \<Rightarrow> Some (FString value) | FInt _ \<Rightarrow> map_option FInt (ParseInt0 value))"

text \<open>The name of a flag and the value after its first equals sign, which is not the first character.\<close>

definition split_flag :: "string \<Rightarrow> string \<times> string option" where
  "split_flag name =
     (let n = takeWhile (\<lambda>c. c \<noteq> CHR ''='') (tl name)
      in if length n = length (tl name) then (name, None)
         else (hd name # n, Some (drop (length n + 1) (tl name))))"

type_synonym flags = "(string \<times> flag_val) list"

definition flag_assign :: "flags \<Rightarrow> string \<Rightarrow> string \<Rightarrow> flag_error + flags" where
  "flag_assign fs name value =
     (case map_of fs name of
        None \<Rightarrow> Inl (NotDefined name)
      | Some old \<Rightarrow>
          (case flag_set old value of
             None \<Rightarrow> Inl (InvalidValue value name)
           | Some v \<Rightarrow> Inr (AList.update name v fs)))"

text \<open>\<open>Parse\<close>: the flags with their values, and the remaining arguments.\<close>

fun flag_parse :: "flags \<Rightarrow> string list \<Rightarrow> flag_error + (flags \<times> string list)" where
  "flag_parse fs [] = Inr (fs, [])"
| "flag_parse fs (s # args) =
     (if length s < 2 \<or> hd s \<noteq> CHR ''-'' then Inr (fs, s # args)
      else if s = ''--'' then Inr (fs, args)
      else
        let name0 = (if s ! 1 = CHR ''-'' then drop 2 s else drop 1 s)
        in if hd name0 = CHR ''-'' \<or> hd name0 = CHR ''='' then Inl (BadSyntax s)
           else let (name, given) = split_flag name0
           in if map_of fs name = None
              then Inl (if name = ''help'' \<or> name = ''h'' then HelpAsked else NotDefined name)
              else case given of
                Some value \<Rightarrow>
                  (case flag_assign fs name value of Inl e \<Rightarrow> Inl e | Inr fs' \<Rightarrow> flag_parse fs' args)
              | None \<Rightarrow>
                  (case args of
                     [] \<Rightarrow> Inl (NeedsArgument name)
                   | value # rest \<Rightarrow>
                       (case flag_assign fs name value of Inl e \<Rightarrow> Inl e | Inr fs' \<Rightarrow> flag_parse fs' rest)))"

definition int_flag :: "flags \<Rightarrow> string \<Rightarrow> int" where
  "int_flag fs name = (case map_of fs name of Some (FInt i) \<Rightarrow> i | _ \<Rightarrow> 0)"

definition string_flag :: "flags \<Rightarrow> string \<Rightarrow> string" where
  "string_flag fs name = (case map_of fs name of Some (FString s) \<Rightarrow> s | _ \<Rightarrow> '''')"

section \<open>Reading what was written\<close>

lemma digit_of_digit: "is_digit c \<Longrightarrow> digit_of c = Some (nat (digit_value c)) \<and> nat (digit_value c) < 10 \<and> 0 \<le> digit_value c"
  by (auto simp: digit_of_def is_digit_def digit_value_def)

lemma underscore_no_digit: "\<not> is_digit CHR ''_''"
  by (simp add: is_digit_def)

lemma uint_loop_digits:
  "(\<And>c. c \<in> set ds \<Longrightarrow> is_digit c) \<Longrightarrow> map_option int (uint_loop 10 acc ds) = digits_loop (int acc) ds"
proof (induction ds arbitrary: acc)
  case (Cons c ds)
  then have c: "is_digit c" by simp
  then have "c \<noteq> CHR ''_''" using underscore_no_digit by blast
  moreover have "int (10 * acc + nat (digit_value c)) = 10 * int acc + digit_value c"
    using digit_of_digit [OF c] by simp
  ultimately show ?case
    using Cons.IH [of "10 * acc + nat (digit_value c)"] Cons.prems c digit_of_digit [OF c] by simp
qed simp

lemma base_prefix_decimal: "s \<noteq> [] \<Longrightarrow> hd s \<noteq> CHR ''0'' \<Longrightarrow> base_prefix s = (10, s)"
  by (cases s) (auto simp: base_prefix_def split: list.splits)

lemma ParseUint0_digits: "ParseUint0 (nat_digits n) = Some n"
proof (cases "n = 0")
  case True
  have "digit_char 0 = CHR ''0''" by code_simp
  then have "nat_digits n = ''0''" using True by (subst nat_digits.simps) simp
  then show ?thesis using True by (simp add: ParseUint0_def base_prefix_def)
next
  case False
  have "map_option int (uint_loop 10 0 (nat_digits n)) = Some (int n)"
    using uint_loop_digits [OF nat_digits_digits, where acc = 0] digits_loop_nat [of n] by simp
  moreover have "CHR ''_'' \<notin> set (nat_digits n)" using nat_digits_digits underscore_no_digit by blast
  ultimately show ?thesis
    using False base_prefix_decimal [OF nat_digits_nonempty nat_digits_hd] nat_digits_nonempty [of n]
    by (auto simp: ParseUint0_def)
qed

lemma ParseInt0_Itoa:
  assumes "- (2 ^ 63) \<le> i" and "i < 2 ^ 63"
  shows "ParseInt0 (Itoa i) = Some i"
proof (cases "i < 0")
  case True
  then show ?thesis using assms by (simp add: ParseInt0_def Itoa_def ParseUint0_digits)
next
  case False
  obtain c cs where c: "nat_digits (nat i) = c # cs" using nat_digits_nonempty by (cases "nat_digits (nat i)") auto
  then have "c \<noteq> CHR ''-''" "c \<noteq> CHR ''+''" using nat_digits_no_sign by auto
  then show ?thesis using False assms c ParseUint0_digits [of "nat i"] by (simp add: ParseInt0_def Itoa_def)
qed

text \<open>A flag given with an equals sign; the value may be anything.\<close>

lemma split_flag_given:
  assumes "name \<noteq> []" and "CHR ''='' \<notin> set name"
  shows "split_flag (name @ CHR ''='' # value) = (name, Some value)"
proof -
  obtain c cs where n: "name = c # cs" using assms(1) by (cases name) auto
  have "takeWhile (\<lambda>c. c \<noteq> CHR ''='') (cs @ CHR ''='' # value) = cs"
    by (rule takeWhile_append2 [of _ "\<lambda>c. c \<noteq> CHR ''=''" "CHR ''='' # value", simplified]) (use assms(2) n in auto)
  then show ?thesis by (simp add: split_flag_def n)
qed

lemma flag_parse_given:
  assumes "map_of fs name \<noteq> None" and "name \<noteq> []" and "CHR ''='' \<notin> set name" and "hd name \<noteq> CHR ''-''"
  shows "flag_parse fs ((''--'' @ name @ ''='' @ value) # args) =
    (case flag_assign fs name value of Inl e \<Rightarrow> Inl e | Inr fs' \<Rightarrow> flag_parse fs' args)"
proof -
  have "hd (name @ CHR ''='' # value) = hd name" "hd name \<noteq> CHR ''=''"
    using assms(2,3) by (cases name; auto)+
  moreover have "\<exists>d. map_of fs name = Some d" using assms(1) by blast
  ultimately show ?thesis using assms(2-4) split_flag_given [OF assms(2,3)] by auto
qed

lemma flag_assign_int:
  assumes "map_of fs name = Some (FInt d)" and "- (2 ^ 63) \<le> i" and "i < 2 ^ 63"
  shows "flag_assign fs name (Itoa i) = Inr (AList.update name (FInt i) fs)"
  using assms by (simp add: flag_assign_def flag_set_def ParseInt0_Itoa)

lemma flag_assign_string:
  "map_of fs name = Some (FString d) \<Longrightarrow> flag_assign fs name s = Inr (AList.update name (FString s) fs)"
  by (simp add: flag_assign_def flag_set_def)

lemma flag_after [simp]:
  "int_flag (AList.update name (FInt i) fs) name = i"
  "string_flag (AList.update name (FString s) fs) name = s"
  "n \<noteq> name \<Longrightarrow> int_flag (AList.update n v fs) name = int_flag fs name"
  "n \<noteq> name \<Longrightarrow> string_flag (AList.update n v fs) name = string_flag fs name"
  by (simp_all add: int_flag_def string_flag_def update_conv)

text \<open>What base 0 does: an octal id, and separators.\<close>

lemma literal_flags:
  "ParseInt0 ''010'' = Some 8" "ParseInt0 ''-0x1F'' = Some (-31)" "ParseInt0 ''9_000'' = Some 9000"
  "ParseInt0 ''9__0'' = None" "ParseInt0 ''08'' = None" "ParseInt0 '''' = None"
  by code_simp+

end
