(* ===== verification/ServerStart.thy ===== *)
theory ServerStart
  imports KvSystem RaftExecutions PbCluster GoFlag
begin

text \<open>
  The start of the two server programs: \<open>main\<close> of \<open>hw2/server/main.go\<close> and of \<open>hw3/server/main.go\<close> up
  to the point where both gRPC servers run. The operating system is the record \<open>world\<close>. The theorem is
  that the processes which start leave the cluster in the initial state of its model.
\<close>

section \<open>Addresses\<close>

text \<open>What lies before and after the last occurrence of a character.\<close>

fun split_last :: "'a \<Rightarrow> 'a list \<Rightarrow> ('a list \<times> 'a list) option" where
  "split_last c [] = None"
| "split_last c (x # xs) =
     (case split_last c xs of
        Some (a, b) \<Rightarrow> Some (x # a, b)
      | None \<Rightarrow> if x = c then Some ([], xs) else None)"

lemma split_last_None: "split_last c xs = None \<longleftrightarrow> c \<notin> set xs"
  by (induction xs) (auto split: option.splits)

lemma split_last_append: "c \<notin> set b \<Longrightarrow> split_last c (a @ c # b) = Some (a, b)"
  by (induction a) (simp_all add: split_last_None [THEN iffD2])

text \<open>
  \<open>net.SplitHostPort\<close>: the port starts after the last colon; a host with colons must be in square
  brackets, which end right before it. \<open>None\<close> is the error.
\<close>

definition SplitHostPort :: "string \<Rightarrow> (string \<times> string) option" where
  "SplitHostPort hostport =
     (case split_last CHR '':'' hostport of
        None \<Rightarrow> None
      | Some (before, port) \<Rightarrow>
          if hostport ! 0 = CHR ''['' then
            (let inside = takeWhile (\<lambda>c. c \<noteq> CHR '']'') (tl hostport);
                 rest = drop (length inside) (tl hostport)
             in if length rest < 2 then None
                else if length inside + 2 \<noteq> length before then None
                else if CHR ''['' \<in> set (tl hostport) then None
                else if CHR '']'' \<in> set (tl rest) then None
                else Some (inside, port))
          else if CHR '':'' \<in> set before then None
          else if CHR ''['' \<in> set hostport then None
          else if CHR '']'' \<in> set hostport then None
          else Some (before, port))"

lemma SplitHostPort_plain:
  assumes "\<forall>c \<in> {CHR '':'', CHR ''['', CHR '']''}. c \<notin> set host \<and> c \<notin> set port"
  shows "SplitHostPort (host @ CHR '':'' # port) = Some (host, port)"
proof -
  have "(host @ CHR '':'' # port) ! 0 \<noteq> CHR ''[''" using assms by (cases host) auto
  then show ?thesis using assms split_last_append [of "CHR '':''" port host] by (simp add: SplitHostPort_def)
qed

lemma SplitHostPort_portless: "CHR '':'' \<notin> set addr \<Longrightarrow> SplitHostPort addr = None"
  by (simp add: SplitHostPort_def split_last_None [THEN iffD2])

text \<open>\<open>_, port, _ := net.SplitHostPort(addr)\<close>: on an error the port is the empty string.\<close>

definition any_interface :: "string \<Rightarrow> string" where
  "any_interface addr = '':'' @ (case SplitHostPort addr of None \<Rightarrow> '''' | Some (host, port) \<Rightarrow> port)"

section \<open>The world and what a started program is\<close>

text \<open>
  \<open>listen\<close> may refuse an address because of those the process already listens at.
\<close>

record 'bytes world =
  w_readFile :: "string \<Rightarrow> 'bytes option"
  w_unmarshal :: "'bytes \<Rightarrow> ClusterConfig option"
  w_dial :: "string \<Rightarrow> bool"
  w_listen :: "string set \<Rightarrow> string \<Rightarrow> bool"

datatype start_error =
    BadFlags flag_error
  | IdRequired
  | LoadFails config_error
  | NoSelf config_error
  | DialFails string
  | ListenClientFails string
  | ListenPeerFails string

record 'node serving =
  sv_node :: 'node
  sv_client :: string
  sv_peer :: string
  sv_banner :: string

section \<open>The common part\<close>

text \<open>\<open>int32(x)\<close> of an \<open>int\<close>.\<close>

definition int32_of :: "int \<Rightarrow> int32" where
  "int32_of x = (x + 2 ^ 31) mod 2 ^ 32 - 2 ^ 31"

definition find_self ::
  "'b world \<Rightarrow> int \<Rightarrow> string \<Rightarrow> start_error + (NodeConfig \<times> ClusterConfig)" where
  "find_self w idFlag cfgPath =
     (if idFlag < 0 then Inl IdRequired
      else case Load (w_readFile w) (w_unmarshal w) cfgPath of
        Inl e \<Rightarrow> Inl (LoadFails e)
      | Inr cfg \<Rightarrow>
          (case Self cfg (int32_of idFlag) of Inl e \<Rightarrow> Inl (NoSelf e) | Inr self \<Rightarrow> Inr (self, cfg)))"

text \<open>Both listeners, the one for clients first.\<close>

definition open_listeners :: "'b world \<Rightarrow> NodeConfig \<Rightarrow> string \<Rightarrow> string \<Rightarrow> start_error option" where
  "open_listeners w self clientAt peerAt =
     (if \<not> w_listen w {} clientAt then Some (ListenClientFails (ClientAddr self))
      else if \<not> w_listen w {clientAt} peerAt then Some (ListenPeerFails (PeerAddr self))
      else None)"

section \<open>The two programs\<close>

definition roleStr :: "Role \<Rightarrow> string" where
  "roleStr r = (if r = RolePrimary then ''PRIMARY'' else ''backup'')"

definition pb_main :: "'b world \<Rightarrow> int \<Rightarrow> string \<Rightarrow> start_error + Node serving" where
  "pb_main w idFlag cfgPath =
     (case find_self w idFlag cfgPath of
        Inl e \<Rightarrow> Inl e
      | Inr (self, cfg) \<Rightarrow>
          (case dial_loop (w_dial w) (Peers cfg (ID self)) (newNode (ID self) cfg) of
             Inl p \<Rightarrow> Inl (DialFails (PeerAddr p))
           | Inr node \<Rightarrow>
               (case open_listeners w self (ClientAddr self) (PeerAddr self) of
                  Some e \<Rightarrow> Inl e
                | None \<Rightarrow>
                    Inr \<lparr>sv_node = node, sv_client = ClientAddr self, sv_peer = PeerAddr self,
                      sv_banner = ''[node '' @ Itoa (nd_id node) @ ''] starting as '' @ roleStr (nd_role node) @
                        '' | client='' @ ClientAddr self @ '' peer='' @ PeerAddr self\<rparr>)))"

text \<open>
  The Raft server creates its Raft instance, which dials the peers, in \<open>newServer\<close>; it listens on all
  interfaces, on the ports of its addresses.
\<close>

definition raft_main ::
  "'b world \<Rightarrow> (nat \<Rightarrow> int) \<Rightarrow> int \<Rightarrow> string \<Rightarrow> start_error + (Server \<times> Raft) serving" where
  "raft_main w rand idFlag cfgPath =
     (case find_self w idFlag cfgPath of
        Inl e \<Rightarrow> Inl e
      | Inr (self, cfg) \<Rightarrow>
          (case New (w_dial w) (ID self) cfg rand of
             None \<Rightarrow> Inl (DialFails ''peer'')
           | Some rf \<Rightarrow>
               let clientAt = any_interface (ClientAddr self); peerAt = any_interface (PeerAddr self)
               in case open_listeners w self clientAt peerAt of
                  Some e \<Rightarrow> Inl e
                | None \<Rightarrow>
                    Inr \<lparr>sv_node = (newServer (ID self) cfg, rf), sv_client = clientAt, sv_peer = peerAt,
                      sv_banner = ''[node '' @ Itoa (ID self) @ ''] listening | client='' @ ClientAddr self @
                        '' peer='' @ PeerAddr self\<rparr>))"

text \<open>Both programs read the same two flags from their command lines.\<close>

definition server_flags :: flags where
  "server_flags = [(''id'', FInt (-1)), (''config'', FString ''nodeconfig.json'')]"

definition with_flags :: "(int \<Rightarrow> string \<Rightarrow> start_error + 'n serving) \<Rightarrow> string list \<Rightarrow> start_error + 'n serving" where
  "with_flags prog args =
     (case flag_parse server_flags args of
        Inl e \<Rightarrow> Inl (BadFlags e)
      | Inr (fs, rest) \<Rightarrow> prog (int_flag fs ''id'') (string_flag fs ''config''))"

definition pb_program :: "'b world \<Rightarrow> string list \<Rightarrow> start_error + Node serving" where
  "pb_program w args = with_flags (pb_main w) args"

definition raft_program ::
  "'b world \<Rightarrow> (nat \<Rightarrow> int) \<Rightarrow> string list \<Rightarrow> start_error + (Server \<times> Raft) serving" where
  "raft_program w rand args = with_flags (raft_main w rand) args"

text \<open>The command line of the usage message.\<close>

definition server_args :: "int \<Rightarrow> string \<Rightarrow> string list" where
  "server_args i path = [''--id='' @ Itoa i, ''--config='' @ path]"

lemma with_server_args:
  assumes "- (2 ^ 63) \<le> i" and "i < 2 ^ 63"
  shows "with_flags prog (server_args i path) = prog i path"
proof -
  let ?fs = "AList.update ''id'' (FInt i) server_flags"
  have m: "map_of server_flags ''id'' = Some (FInt (-1))" by (simp add: server_flags_def)
  have m2: "map_of ?fs ''config'' = Some (FString ''nodeconfig.json'')" by (simp add: server_flags_def)
  have "flag_parse server_flags (server_args i path) =
      Inr (AList.update ''config'' (FString path) ?fs, [])"
    using flag_parse_given [of server_flags "''id''" "Itoa i" "[''--config='' @ path]"]
      flag_parse_given [of ?fs "''config''" path "[]"]
      flag_assign_int [OF m assms] flag_assign_string [OF m2, of path] m m2
    by (simp add: server_args_def del: flag_parse.simps) simp
  then show ?thesis by (simp add: with_flags_def)
qed

lemma programs_main:
  assumes "0 \<le> i" and "i < 2 ^ 31"
  shows "raft_program w rand (server_args i path) = raft_main w rand i path"
    and "pb_program w (server_args i path) = pb_main w i path"
  using assms by (simp_all add: raft_program_def pb_program_def with_server_args)

lemma no_id_is_refused: "raft_program w rand [] = Inl IdRequired" "pb_program w [''--config=x''] = Inl IdRequired"
  by (simp_all add: raft_program_def pb_program_def with_flags_def server_flags_def int_flag_def split_flag_def
      flag_assign_def flag_set_def raft_main_def pb_main_def find_self_def)

section \<open>What has started\<close>

lemma int32_of_id: "0 \<le> i \<Longrightarrow> i < 2 ^ 31 \<Longrightarrow> int32_of i = i"
  by (simp add: int32_of_def)

lemma find_self_id:
  "find_self w i path = Inr (self, cfg) \<Longrightarrow>
     ID self = int32_of i \<and> self \<in> set (Nodes cfg) \<and> Load (w_readFile w) (w_unmarshal w) path = Inr cfg"
  by (auto simp: find_self_def Self_def split: if_splits sum.splits dest: self_loop_Inr)

text \<open>An id flag of \<open>2 ^ 32\<close> starts node 0: the conversion drops the high bits.\<close>

lemma id_flag_wraps: "find_self w (2 ^ 32) path = find_self w 0 path"
proof -
  have wraps: "int32_of (2 ^ 32) = int32_of 0" by (simp add: int32_of_def)
  show ?thesis unfolding find_self_def wraps by simp
qed

lemma pb_main_starts:
  assumes "pb_main w i path = Inr sv" and "Load (w_readFile w) (w_unmarshal w) path = Inr cfg"
  shows "sv_node sv = started_node (int32_of i) cfg"
proof (cases "find_self w i path")
  case (Inr sc)
  obtain self where self: "find_self w i path = Inr (self, cfg)"
    using find_self_id [of w i path "fst sc" "snd sc"] Inr assms(2) by (cases sc) simp
  show ?thesis
  proof (cases "dial_loop (w_dial w) (Peers cfg (ID self)) (newNode (ID self) cfg)")
    case d: (Inr n)
    then have "sv_node sv = n" using assms(1) self by (auto simp: pb_main_def split: option.splits)
    then show ?thesis
      using dial_loop_Inr [OF d] find_self_id [OF self] by (simp add: started_node_def newNode_def)
  qed (use assms(1) self in \<open>simp add: pb_main_def\<close>)
qed (use assms(1) in \<open>simp add: pb_main_def\<close>)

lemma raft_main_starts:
  assumes "raft_main w rand i path = Inr sv" and "Load (w_readFile w) (w_unmarshal w) path = Inr cfg"
  shows "fst (sv_node sv) = newServer (int32_of i) cfg \<and>
    New (w_dial w) (int32_of i) cfg rand = Some (snd (sv_node sv))"
proof (cases "find_self w i path")
  case (Inr sc)
  obtain self where self: "find_self w i path = Inr (self, cfg)"
    using find_self_id [of w i path "fst sc" "snd sc"] Inr assms(2) by (cases sc) simp
  then show ?thesis
    using assms(1) find_self_id [OF self] by (auto simp: raft_main_def Let_def split: option.splits)
qed (use assms(1) in \<open>simp add: raft_main_def\<close>)

text \<open>The cluster of the processes, before any message.\<close>

definition silent_cluster :: "(int32 \<Rightarrow> Raft) \<Rightarrow> cluster" where
  "silent_cluster rfs =
     \<lparr>nodes = rfs, voteReqs = {}, voteReps = {}, voteGos = {}, votes = (\<lambda>_ _. 0), appReqs = {}, appReps = {}\<rparr>"

text \<open>
  C38. Started clusters are the modelled ones: if every node of a configuration starts with its id and
  the same file, whatever machines they run on, the Raft store is in an initial state of its model, and
  the nodes of the primary-backup store are those of the initial state of its model.
\<close>

theorem started_clusters_initial:
  assumes "positional cfg" and "int (length (Nodes cfg)) \<le> 2 ^ 31"
    and "\<And>i. i \<in> node_ids cfg \<Longrightarrow> Load (w_readFile (w i)) (w_unmarshal (w i)) path = Inr cfg"
    and "\<And>i. i \<in> node_ids cfg \<Longrightarrow> raft_program (w i) (rand i) (server_args i path) = Inr (kv i)"
    and "\<And>i. i \<in> node_ids cfg \<Longrightarrow> pb_program (w i) (server_args i path) = Inr (pb i)"
  shows "kv_initial cfg \<lparr>raft = silent_cluster (\<lambda>i. snd (sv_node (kv i))), servers = (\<lambda>i. fst (sv_node (kv i)))\<rparr> \<and>
    (\<forall>i \<in> node_ids cfg. sv_node (pb i) = pnodes (pb_initial cfg) i)"
proof -
  have rg: "0 \<le> i" "i < 2 ^ 31" if "i \<in> node_ids cfg" for i
    using that positional_id_range [OF assms(1), of i] assms(2) by auto
  then have id: "int32_of i = i" if "i \<in> node_ids cfg" for i using that by (intro int32_of_id) auto
  have main: "raft_main (w i) (rand i) i path = Inr (kv i)" "pb_main (w i) i path = Inr (pb i)"
    if "i \<in> node_ids cfg" for i
    using programs_main(1) [OF rg [OF that], of "w i" "rand i" path]
      programs_main(2) [OF rg [OF that], of "w i" path] assms(4,5) [OF that] by simp_all
  have "fst (sv_node (kv i)) = newServer i cfg \<and> New (w_dial (w i)) i cfg (rand i) = Some (snd (sv_node (kv i)))"
    if "i \<in> node_ids cfg" for i
    using raft_main_starts [OF main(1) assms(3), OF that that] id [OF that] by simp
  moreover have "sv_node (pb i) = pnodes (pb_initial cfg) i" if "i \<in> node_ids cfg" for i
    using pb_main_starts [OF main(2) assms(3), OF that that] id [OF that] by (simp add: pb_initial_def)
  ultimately show ?thesis
    unfolding kv_initial_def initial_def silent_cluster_def by auto
qed

text \<open>Three processes on machines where everything works.\<close>

definition fine_world :: "ClusterConfig \<Rightarrow> unit world" where
  "fine_world cfg =
     \<lparr>w_readFile = (\<lambda>_. Some ()), w_unmarshal = (\<lambda>_. Some cfg), w_dial = (\<lambda>_. True),
      w_listen = (\<lambda>bound addr. addr \<notin> bound)\<rparr>"

definition kv_process :: "int32 \<Rightarrow> (Server \<times> Raft) serving" where
  "kv_process i = projr (raft_program (fine_world three) (\<lambda>_. 7) (server_args i ''c''))"

definition pb_process :: "int32 \<Rightarrow> Node serving" where
  "pb_process i = projr (pb_program (fine_world three) (server_args i ''c''))"

theorem started_clusters_initial_witness:
  "kv_initial three \<lparr>raft = silent_cluster (\<lambda>i. snd (sv_node (kv_process i))),
      servers = (\<lambda>i. fst (sv_node (kv_process i)))\<rparr> \<and>
   sv_banner (pb_process 0) = ''[node 0] starting as PRIMARY | client=localhost:8000 peer=localhost:9000''"
proof -
  have "\<not> isl (raft_program (fine_world three) (\<lambda>_. 7) (server_args i ''c'')) \<and>
      \<not> isl (pb_program (fine_world three) (server_args i ''c''))" if "i \<in> {0, 1, 2}" for i :: int32
    using that by (elim insertE emptyE) (simp_all, code_simp+)
  then have "raft_program (fine_world three) (\<lambda>_. 7) (server_args i ''c'') = Inr (kv_process i)"
    "pb_program (fine_world three) (server_args i ''c'') = Inr (pb_process i)"
    if "i \<in> node_ids three" for i
    using that by (auto simp: node_ids_def three_def kv_process_def pb_process_def)
  moreover have "Load (w_readFile (fine_world three)) (w_unmarshal (fine_world three)) ''c'' = Inr three"
    by (simp add: Load_def fine_world_def three_def)
  moreover have "int (length (Nodes three)) \<le> 2 ^ 31" by (simp add: three_def)
  moreover have "sv_banner (pb_process 0) =
     ''[node 0] starting as PRIMARY | client=localhost:8000 peer=localhost:9000''" by code_simp
  ultimately show ?thesis
    using started_clusters_initial [OF three_positional, of "\<lambda>_. fine_world three" "''c''" "\<lambda>_ _. 7"
        kv_process pb_process] by blast
qed

end
