(* ===== verification/Game.thy ===== *)
theory Game
  imports GoText
begin

text \<open>
  The board of Connect-M (\<open>hw1/game/game.go\<close>). A grid is a slice of slices; every read and write of it
  goes through the checked accesses of the prelude, so \<open>None\<close> is an index panic. An operation that
  can fail returns \<open>Inl\<close> the text of the error.
\<close>

section \<open>Data\<close>

type_synonym Player = int

definition Empty :: Player where "Empty = 0"
definition Player1 :: Player where "Player1 = 1"
definition Player2 :: Player where "Player2 = 2"

lemmas player_defs = Empty_def Player1_def Player2_def

record Move =
  mv_Col :: int
  mv_Row :: int
  mv_Player :: Player

record Board =
  Rows :: int
  Cols :: int
  bd_M :: int
  Grid :: "Player list list"
  LastMove :: "Move option"

text \<open>\<open>make([]T, n)\<close> panics for a negative length.\<close>

definition make_slice :: "int \<Rightarrow> 'a \<Rightarrow> 'a list go" where
  "make_slice n zero = (if n < 0 then None else Some (replicate (nat n) zero))"

fun fill_rows :: "Player list list \<Rightarrow> int \<Rightarrow> Player list list go" where
  "fill_rows [] cols = Some []"
| "fill_rows (g # gs) cols =
     then_do (make_slice cols Empty) (\<lambda>row. map_option ((#) row) (fill_rows gs cols))"

definition NewBoard :: "int \<Rightarrow> int \<Rightarrow> int \<Rightarrow> Board go" where
  "NewBoard rows cols m =
     then_do (make_slice rows []) (\<lambda>grid. then_do (fill_rows grid cols) (\<lambda>grid.
       Some \<lparr>Rows = rows, Cols = cols, bd_M = m, Grid = grid, LastMove = None\<rparr>))"

section \<open>Moves\<close>

text \<open>\<open>b.Grid[row][col]\<close>, read and written.\<close>

definition cell :: "Board \<Rightarrow> int \<Rightarrow> int \<Rightarrow> Player go" where
  "cell b row col = then_do (slice_get (Grid b) row) (\<lambda>r. slice_get r col)"

definition set_cell :: "Board \<Rightarrow> int \<Rightarrow> int \<Rightarrow> Player \<Rightarrow> Board go" where
  "set_cell b row col p =
     then_do (slice_get (Grid b) row) (\<lambda>r. then_do (slice_set r col p) (\<lambda>r'.
       then_do (slice_set (Grid b) row r') (\<lambda>g. Some (b\<lparr>Grid := g\<rparr>))))"

text \<open>The loop of \<open>MakeMove\<close>, from the bottom row up; the number is how many rows are left.\<close>

fun drop_row :: "Board \<Rightarrow> int \<Rightarrow> nat \<Rightarrow> int option go" where
  "drop_row b col 0 = Some None"
| "drop_row b col (Suc k) =
     then_do (cell b (int k) col) (\<lambda>x. if x = Empty then Some (Some (int k)) else drop_row b col k)"

definition MakeMove :: "Board \<Rightarrow> int \<Rightarrow> Player \<Rightarrow> (Board \<times> (string + int)) go" where
  "MakeMove b col player =
     (if col < 0 \<or> col \<ge> Cols b then Some (b, Inl ''column out of bounds'')
      else if player \<noteq> Player1 \<and> player \<noteq> Player2 then Some (b, Inl ''invalid player'')
      else then_do (drop_row b col (nat (Rows b))) (\<lambda>r.
        case r of
          None \<Rightarrow> Some (b, Inl ''column is full'')
        | Some row \<Rightarrow>
            then_do (set_cell b row col player) (\<lambda>b'.
              Some (b'\<lparr>LastMove := Some \<lparr>mv_Col = col, mv_Row = row, mv_Player = player\<rparr>\<rparr>, Inr row))))"

section \<open>Winning\<close>

definition isValid :: "Board \<Rightarrow> int \<Rightarrow> int \<Rightarrow> bool" where
  "isValid b row col \<longleftrightarrow> row \<ge> 0 \<and> row < Rows b \<and> col \<ge> 0 \<and> col < Cols b"

text \<open>One of the two loops of \<open>checkDirection\<close>; the other one has the direction negated.\<close>

function count_run :: "Board \<Rightarrow> int \<Rightarrow> int \<Rightarrow> Player \<Rightarrow> int \<Rightarrow> int \<Rightarrow> int \<Rightarrow> int \<Rightarrow> int go" where
  "count_run b row col player dRow dCol i count =
     (if i < bd_M b then
        (let r = row + i * dRow; c = col + i * dCol
         in if \<not> isValid b r c then Some count
            else then_do (cell b r c) (\<lambda>x.
              if x \<noteq> player then Some count
              else count_run b row col player dRow dCol (i + 1) (count + 1)))
      else Some count)"
  by pat_completeness auto
termination by (relation "measure (\<lambda>(b, row, col, player, dRow, dCol, i, count). nat (bd_M b - i))") auto

declare count_run.simps [simp del]

definition checkDirection :: "Board \<Rightarrow> int \<Rightarrow> int \<Rightarrow> Player \<Rightarrow> int \<Rightarrow> int \<Rightarrow> bool go" where
  "checkDirection b row col player dRow dCol =
     then_do (count_run b row col player dRow dCol 1 1) (\<lambda>count.
       then_do (count_run b row col player (- dRow) (- dCol) 1 count) (\<lambda>count.
         Some (count \<ge> bd_M b)))"

fun check_dirs :: "Board \<Rightarrow> Move \<Rightarrow> (int \<times> int) list \<Rightarrow> bool go" where
  "check_dirs b mv [] = Some False"
| "check_dirs b mv ((dRow, dCol) # ds) =
     then_do (checkDirection b (mv_Row mv) (mv_Col mv) (mv_Player mv) dRow dCol) (\<lambda>won.
       if won then Some True else check_dirs b mv ds)"

definition directions :: "(int \<times> int) list" where
  "directions = [(0, 1), (1, 0), (1, 1), (1, -1)]"

definition CheckWin :: "Board \<Rightarrow> bool go" where
  "CheckWin b = (case LastMove b of None \<Rightarrow> Some False | Some mv \<Rightarrow> check_dirs b mv directions)"

section \<open>Full boards, copies\<close>

fun full_loop :: "Board \<Rightarrow> int list \<Rightarrow> bool go" where
  "full_loop b [] = Some True"
| "full_loop b (col # cols) =
     then_do (cell b 0 col) (\<lambda>x. if x = Empty then Some False else full_loop b cols)"

definition IsFull :: "Board \<Rightarrow> bool go" where
  "IsFull b = full_loop b [0..Cols b - 1]"

definition IsColumnFull :: "Board \<Rightarrow> int \<Rightarrow> bool go" where
  "IsColumnFull b col =
     (if col < 0 \<or> col \<ge> Cols b then Some True
      else then_do (cell b 0 col) (\<lambda>x. Some (x \<noteq> Empty)))"

text \<open>\<open>copy(dst, src)\<close>.\<close>

definition copy_slice :: "'a list \<Rightarrow> 'a list \<Rightarrow> 'a list" where
  "copy_slice dst src = take (length dst) src @ drop (length src) dst"

fun copy_rows :: "Board \<Rightarrow> int list \<Rightarrow> Player list list go" where
  "copy_rows b [] = Some []"
| "copy_rows b (i # is) =
     then_do (make_slice (Cols b) Empty) (\<lambda>row. then_do (slice_get (Grid b) i) (\<lambda>src.
       map_option ((#) (copy_slice row src)) (copy_rows b is)))"

definition GetGrid :: "Board \<Rightarrow> Player list list go" where
  "GetGrid b = then_do (make_slice (Rows b) ([] :: Player list)) (\<lambda>grid. copy_rows b [0..int (length grid) - 1])"

section \<open>Printing\<close>

text \<open>A line feed cannot be written in a string literal.\<close>

definition newline :: string where
  "newline = [CHR 0x0A]"

definition header_cell :: "Board \<Rightarrow> int \<Rightarrow> string" where
  "header_cell b col = Itoa (col + 1) @ (if col < Cols b - 1 then '' '' else '''')"

definition border :: "Board \<Rightarrow> string" where
  "border b = '' +'' @ concat (map (\<lambda>_. ''--'') [0..Cols b - 1]) @ ''+'' @ newline"

definition piece_text :: "Player \<Rightarrow> string" where
  "piece_text p =
     (if p = Empty then ''. '' else if p = Player1 then ''X '' else if p = Player2 then ''O '' else '''')"

fun cells_text :: "Board \<Rightarrow> int \<Rightarrow> int list \<Rightarrow> string go" where
  "cells_text b row [] = Some ''''"
| "cells_text b row (col # cols) =
     then_do (cell b row col) (\<lambda>x. map_option ((@) (piece_text x)) (cells_text b row cols))"

fun rows_text :: "Board \<Rightarrow> int list \<Rightarrow> string go" where
  "rows_text b [] = Some ''''"
| "rows_text b (row # rows) =
     then_do (cells_text b row [0..Cols b - 1]) (\<lambda>t.
       map_option ((@) ('' |'' @ t @ ''|'' @ newline)) (rows_text b rows))"

definition Board_String :: "Board \<Rightarrow> string go" where
  "Board_String b =
     map_option (\<lambda>rows. ''  '' @ concat (map (header_cell b) [0..Cols b - 1]) @ newline @ border b @ rows @ border b)
       (rows_text b [0..Rows b - 1])"

end
