(* ===== verification/GameRules.thy ===== *)
theory GameRules
  imports Game
begin

text \<open>
  The rules of Connect-M and the proof that the board obeys them: well-formed boards (shape, gravity, a
  last move that is on the board), what a move does on every branch, and the agreement of the
  incremental \<open>CheckWin\<close> with the rule that some line of \<open>M\<close> equal pieces is on the board.
\<close>

section \<open>Well-formed boards\<close>

definition cell_at :: "Board \<Rightarrow> int \<Rightarrow> int \<Rightarrow> Player" where
  "cell_at b row col = Grid b ! nat row ! nat col"

definition shaped :: "Board \<Rightarrow> bool" where
  "shaped b \<longleftrightarrow>
     0 \<le> Rows b \<and> 0 \<le> Cols b \<and> length (Grid b) = nat (Rows b) \<and>
     (\<forall>g \<in> set (Grid b). length g = nat (Cols b))"

text \<open>No piece hangs over an empty cell.\<close>

definition gravity :: "Board \<Rightarrow> bool" where
  "gravity b \<longleftrightarrow>
     (\<forall>r c. isValid b r c \<longrightarrow> isValid b (r + 1) c \<longrightarrow> cell_at b (r + 1) c = Empty \<longrightarrow> cell_at b r c = Empty)"

definition wf_board :: "Board \<Rightarrow> bool" where
  "wf_board b \<longleftrightarrow>
     shaped b \<and> gravity b \<and> (\<forall>r c. isValid b r c \<longrightarrow> cell_at b r c \<in> {Empty, Player1, Player2}) \<and>
     (case LastMove b of None \<Rightarrow> True
      | Some mv \<Rightarrow> isValid b (mv_Row mv) (mv_Col mv) \<and> cell_at b (mv_Row mv) (mv_Col mv) = mv_Player mv \<and>
          mv_Player mv \<in> {Player1, Player2})"

lemma shaped_row: "shaped b \<Longrightarrow> 0 \<le> r \<Longrightarrow> r < Rows b \<Longrightarrow> length (Grid b ! nat r) = nat (Cols b)"
  by (simp add: shaped_def)

lemma cell_valid: "shaped b \<Longrightarrow> isValid b r c \<Longrightarrow> cell b r c = Some (cell_at b r c)"
  by (simp add: cell_def cell_at_def isValid_def shaped_def slice_get_def)

lemma set_cell_valid:
  assumes "shaped b" and "isValid b r c"
  shows "\<exists>b'. set_cell b r c p = Some b' \<and> shaped b' \<and> Rows b' = Rows b \<and> Cols b' = Cols b \<and> bd_M b' = bd_M b \<and>
    LastMove b' = LastMove b \<and>
    (\<forall>r' c'. isValid b r' c' \<longrightarrow> cell_at b' r' c' = (if r' = r \<and> c' = c then p else cell_at b r' c'))"
proof -
  have l: "length (Grid b) = nat (Rows b)" "length (Grid b ! nat r) = nat (Cols b)"
    using assms by (auto simp: shaped_def isValid_def)
  let ?b = "b\<lparr>Grid := (Grid b)[nat r := (Grid b ! nat r)[nat c := p]]\<rparr>"
  have "set_cell b r c p = Some ?b"
    using assms(2) l by (simp add: set_cell_def isValid_def slice_get_def slice_set_def)
  moreover have "shaped ?b"
    using assms l by (auto simp: shaped_def isValid_def dest!: subsetD [OF set_update_subset_insert])
  moreover have "cell_at ?b r' c' = (if r' = r \<and> c' = c then p else cell_at b r' c')" if "isValid b r' c'" for r' c'
    using assms(2) that l by (cases "r' = r") (auto simp: cell_at_def isValid_def nth_list_update)
  ultimately show ?thesis by (intro exI [of _ ?b]) simp
qed

lemma fill_rows_replicate: "0 \<le> cols \<Longrightarrow> fill_rows gs cols = Some (replicate (length gs) (replicate (nat cols) Empty))"
  by (induction gs) (simp_all add: make_slice_def)

lemma NewBoard_wf:
  assumes "0 \<le> rows" and "0 \<le> cols"
  shows "\<exists>b. NewBoard rows cols m = Some b \<and> wf_board b \<and> Rows b = rows \<and> Cols b = cols \<and> bd_M b = m \<and>
    LastMove b = None \<and> (\<forall>r c. isValid b r c \<longrightarrow> cell_at b r c = Empty)"
proof -
  let ?b = "\<lparr>Rows = rows, Cols = cols, bd_M = m,
    Grid = replicate (nat rows) (replicate (nat cols) Empty), LastMove = None\<rparr>"
  have e: "cell_at ?b r c = Empty" if "isValid ?b r c" for r c
    using that by (simp add: cell_at_def isValid_def)
  have "NewBoard rows cols m = Some ?b"
    using assms by (simp add: NewBoard_def make_slice_def fill_rows_replicate)
  moreover have "wf_board ?b" using assms e by (auto simp: wf_board_def shaped_def gravity_def)
  ultimately show ?thesis using e by (intro exI [of _ ?b]) simp
qed

section \<open>Moves\<close>

lemma drop_row_result:
  assumes "shaped b" and "0 \<le> c" and "c < Cols b" and "int k \<le> Rows b"
  shows "case drop_row b c k of
      None \<Rightarrow> False
    | Some None \<Rightarrow> \<forall>r. 0 \<le> r \<and> r < int k \<longrightarrow> cell_at b r c \<noteq> Empty
    | Some (Some row) \<Rightarrow> 0 \<le> row \<and> row < int k \<and> cell_at b row c = Empty \<and>
        (\<forall>r. row < r \<and> r < int k \<longrightarrow> cell_at b r c \<noteq> Empty)"
  using assms(4)
proof (induction k)
  case (Suc k)
  have "cell b (int k) c = Some (cell_at b (int k) c)"
    by (rule cell_valid [OF assms(1)]) (use assms Suc.prems in \<open>simp add: isValid_def\<close>)
  moreover have le: "r < 1 + int k \<longleftrightarrow> r < int k \<or> r = int k" for r by auto
  ultimately show ?case using Suc by (auto split: option.splits)
qed simp

text \<open>Under gravity a column is empty down to the row where a piece lands.\<close>

lemma gravity_up:
  assumes "gravity b" and "isValid b row c" and "cell_at b row c = Empty" and "0 \<le> r" and "r \<le> row"
  shows "cell_at b r c = Empty"
proof -
  have "0 \<le> row - int n \<Longrightarrow> cell_at b (row - int n) c = Empty" for n
  proof (induction n)
    case 0
    then show ?case using assms(3) by simp
  next
    case (Suc n)
    let ?r = "row - int (Suc n)"
    have "isValid b ?r c" "isValid b (?r + 1) c" using assms(2) Suc.prems by (auto simp: isValid_def)
    moreover have "cell_at b (?r + 1) c = Empty" using Suc by simp
    ultimately show ?case using assms(1) unfolding gravity_def by blast
  qed
  from this [of "nat (row - r)"] show ?thesis using assms(4,5) by simp
qed

definition move_error :: "Board \<Rightarrow> int \<Rightarrow> Player \<Rightarrow> string option" where
  "move_error b col p =
     (if col < 0 \<or> col \<ge> Cols b then Some ''column out of bounds''
      else if p \<noteq> Player1 \<and> p \<noteq> Player2 then Some ''invalid player''
      else if Rows b = 0 \<or> cell_at b 0 col \<noteq> Empty then Some ''column is full'' else None)"

definition placed :: "Board \<Rightarrow> int \<Rightarrow> int \<Rightarrow> Player \<Rightarrow> Board \<Rightarrow> bool" where
  "placed b row col p b' \<longleftrightarrow>
     Rows b' = Rows b \<and> Cols b' = Cols b \<and> bd_M b' = bd_M b \<and>
     LastMove b' = Some \<lparr>mv_Col = col, mv_Row = row, mv_Player = p\<rparr> \<and>
     (\<forall>r c. isValid b r c \<longrightarrow> cell_at b' r c = (if r = row \<and> c = col then p else cell_at b r c))"

lemma isValid_same: "Rows b' = Rows b \<Longrightarrow> Cols b' = Cols b \<Longrightarrow> isValid b' = isValid b"
  by (intro ext) (simp add: isValid_def)

lemma MakeMove_ok:
  assumes wf: "wf_board b" and ok: "move_error b col p = None"
  shows "\<exists>b' row. MakeMove b col p = Some (b', Inr row) \<and> wf_board b' \<and> placed b row col p b' \<and>
    isValid b row col \<and> (\<forall>r. 0 \<le> r \<and> r \<le> row \<longrightarrow> cell_at b r col = Empty) \<and>
    (\<forall>r. row < r \<and> r < Rows b \<longrightarrow> cell_at b r col \<noteq> Empty)"
proof -
  have sh: "shaped b" and g: "gravity b" and cells: "\<And>r c. isValid b r c \<Longrightarrow> cell_at b r c \<in> {Empty, Player1, Player2}"
    using wf by (simp_all add: wf_board_def)
  have col: "0 \<le> col" "col < Cols b" and p: "p = Player1 \<or> p = Player2" and top: "0 < Rows b" "cell_at b 0 col = Empty"
    using ok sh by (auto simp: move_error_def shaped_def split: if_splits)
  note dr = drop_row_result [OF sh col, of "nat (Rows b)"]
  obtain row where d: "drop_row b col (nat (Rows b)) = Some (Some row)"
    using dr top by (auto split: option.splits)
  have row: "0 \<le> row" "row < Rows b" "cell_at b row col = Empty"
    and below: "\<And>r. row < r \<Longrightarrow> r < Rows b \<Longrightarrow> cell_at b r col \<noteq> Empty"
    using dr top d by auto
  have valid: "isValid b row col" using row col by (simp add: isValid_def)
  have above: "cell_at b r col = Empty" if "0 \<le> r" "r \<le> row" for r
    by (rule gravity_up [OF g valid row(3) that])
  obtain b1 where b1: "set_cell b row col p = Some b1" "shaped b1" "Rows b1 = Rows b" "Cols b1 = Cols b"
      "bd_M b1 = bd_M b"
      "\<And>r c. isValid b r c \<Longrightarrow> cell_at b1 r c = (if r = row \<and> c = col then p else cell_at b r c)"
    using set_cell_valid [OF sh valid, of p] by blast
  let ?b = "b1\<lparr>LastMove := Some \<lparr>mv_Col = col, mv_Row = row, mv_Player = p\<rparr>\<rparr>"
  have eq: "cell_at ?b r c = cell_at b1 r c" for r c by (simp add: cell_at_def)
  have iv: "isValid ?b = isValid b" by (rule isValid_same) (simp_all add: b1)
  have "MakeMove b col p = Some (?b, Inr row)"
    using col p d b1(1) by (auto simp: MakeMove_def)
  moreover have "placed b row col p ?b" using b1 by (simp add: placed_def eq)
  moreover have "wf_board ?b"
  proof -
    have "shaped ?b" using b1(2) by (simp add: shaped_def)
    moreover have "gravity ?b" unfolding gravity_def iv eq
    proof (intro allI impI)
      fix r c assume v: "isValid b r c" "isValid b (r + 1) c" and e: "cell_at b1 (r + 1) c = Empty"
      have ne: "\<not> (r + 1 = row \<and> c = col)" using e b1(6) [OF v(2)] p by (auto simp: player_defs)
      then have e': "cell_at b (r + 1) c = Empty" using e b1(6) [OF v(2)] by (simp only: if_False)
      have "\<not> (r = row \<and> c = col)" using e' below [of "r + 1"] v(2) by (auto simp: isValid_def)
      then show "cell_at b1 r c = Empty" using b1(6) [OF v(1)] g v e' unfolding gravity_def by auto
    qed
    moreover have "cell_at b1 r c \<in> {Empty, Player1, Player2}" if "isValid b r c" for r c
      using b1(6) [OF that] cells [OF that] p by auto
    ultimately show ?thesis
      using p valid b1(6) [OF valid] unfolding wf_board_def iv eq by auto
  qed
  ultimately show ?thesis using valid above below by blast
qed

lemma MakeMove_error:
  assumes wf: "wf_board b" and e: "move_error b col p = Some e"
  shows "MakeMove b col p = Some (b, Inl e)"
proof -
  have sh: "shaped b" and g: "gravity b" using wf by (simp_all add: wf_board_def)
  show ?thesis
  proof (cases "0 \<le> col \<and> col < Cols b \<and> (p = Player1 \<or> p = Player2)")
    case False
    then show ?thesis using e by (auto simp: move_error_def MakeMove_def split: if_splits)
  next
    case True
    then have full: "Rows b = 0 \<or> cell_at b 0 col \<noteq> Empty" and eq: "e = ''column is full''"
      using e by (auto simp: move_error_def split: if_splits)
    note dr = drop_row_result [OF sh, of col "nat (Rows b)"]
    have "drop_row b col (nat (Rows b)) = Some None"
    proof (cases "drop_row b col (nat (Rows b))")
      case (Some r)
      have "r = None"
      proof (rule ccontr)
        assume "r \<noteq> None"
        then obtain row where row: "0 \<le> row" "row < Rows b" "cell_at b row col = Empty"
          using dr True Some sh by (auto simp: shaped_def)
        have "cell_at b 0 col = Empty"
          by (rule gravity_up [OF g _ row(3) _ row(1)]) (use True row in \<open>auto simp: isValid_def\<close>)
        then show False using full row by auto
      qed
      then show ?thesis using Some by simp
    qed (use dr True sh in \<open>auto simp: shaped_def\<close>)
    then show ?thesis using True eq by (auto simp: MakeMove_def)
  qed
qed

section \<open>Lines\<close>

definition owned :: "Board \<Rightarrow> Player \<Rightarrow> int \<Rightarrow> int \<Rightarrow> bool" where
  "owned b p r c \<longleftrightarrow> isValid b r c \<and> cell_at b r c = p"

definition line_from :: "Board \<Rightarrow> Player \<Rightarrow> int \<Rightarrow> int \<Rightarrow> int \<times> int \<Rightarrow> bool" where
  "line_from b p r c d \<longleftrightarrow> (\<forall>k. 0 \<le> k \<and> k < bd_M b \<longrightarrow> owned b p (r + k * fst d) (c + k * snd d))"

text \<open>The rule of the game: somewhere on the board there are \<open>M\<close> pieces of the player in a row.\<close>

definition has_line :: "Board \<Rightarrow> Player \<Rightarrow> bool" where
  "has_line b p \<longleftrightarrow> (\<exists>r c. \<exists>d \<in> {(0, 1), (1, 0), (1, 1), (1, -1)}. line_from b p r c d)"

lemma has_line_directions: "has_line b p \<longleftrightarrow> (\<exists>r c. \<exists>d \<in> set directions. line_from b p r c d)"
  by (simp add: has_line_def directions_def)

text \<open>\<open>count_run\<close> adds the length of the run it walks along, capped at \<open>M - 1\<close>.\<close>

lemma count_run_result:
  assumes sh: "shaped b"
  shows "\<exists>k. 0 \<le> k \<and> count_run b row col p dr dc i count = Some (count + k) \<and>
    (\<forall>j. i \<le> j \<and> j < i + k \<longrightarrow> owned b p (row + j * dr) (col + j * dc)) \<and>
    (i + k \<le> max i (bd_M b)) \<and> (i + k < bd_M b \<longrightarrow> \<not> owned b p (row + (i + k) * dr) (col + (i + k) * dc))"
proof (induction n \<equiv> "nat (bd_M b - i)" arbitrary: i count)
  case 0
  then show ?case by (intro exI [of _ 0]) (auto simp: count_run.simps [of b])
next
  case (Suc n)
  then have i: "i < bd_M b" by simp
  show ?case
  proof (cases "owned b p (row + i * dr) (col + i * dc)")
    case False
    then have "count_run b row col p dr dc i count = Some count"
      using i by (auto simp: count_run.simps [of b] owned_def cell_valid [OF sh] Let_def)
    then show ?thesis using i False by (intro exI [of _ 0]) auto
  next
    case True
    then have eq: "count_run b row col p dr dc i count = count_run b row col p dr dc (i + 1) (count + 1)"
      using i by (subst count_run.simps) (auto simp: owned_def cell_valid [OF sh] Let_def)
    have "n = nat (bd_M b - (i + 1))" using Suc(2) by simp
    from Suc(1) [OF this, of "count + 1"] obtain k where k: "0 \<le> k"
      "count_run b row col p dr dc (i + 1) (count + 1) = Some (count + 1 + k)"
      "\<forall>j. i + 1 \<le> j \<and> j < i + 1 + k \<longrightarrow> owned b p (row + j * dr) (col + j * dc)"
      "i + 1 + k \<le> max (i + 1) (bd_M b)"
      "i + 1 + k < bd_M b \<longrightarrow> \<not> owned b p (row + (i + 1 + k) * dr) (col + (i + 1 + k) * dc)" by blast
    have "owned b p (row + j * dr) (col + j * dc)" if "i \<le> j" "j < i + (k + 1)" for j
      using that True k(3) by (cases "j = i") auto
    then show ?thesis using k i by (intro exI [of _ "k + 1"]) (auto simp: eq algebra_simps)
  qed
qed

lemma checkDirection_result:
  assumes sh: "shaped b" and own: "owned b p row col"
  shows "checkDirection b row col p dr dc =
    Some (\<exists>a. 0 \<le> a \<and> a < max 1 (bd_M b) \<and> line_from b p (row - a * dr) (col - a * dc) (dr, dc))"
proof -
  obtain k1 where k1: "0 \<le> k1" "count_run b row col p dr dc 1 1 = Some (1 + k1)"
    "\<And>j. 1 \<le> j \<Longrightarrow> j < 1 + k1 \<Longrightarrow> owned b p (row + j * dr) (col + j * dc)" "1 + k1 \<le> max 1 (bd_M b)"
    "1 + k1 < bd_M b \<longrightarrow> \<not> owned b p (row + (1 + k1) * dr) (col + (1 + k1) * dc)"
    using count_run_result [OF sh, of row col p dr dc 1 1] by blast
  obtain k2 where k2: "0 \<le> k2" "count_run b row col p (- dr) (- dc) 1 (1 + k1) = Some (1 + k1 + k2)"
    "\<And>j. 1 \<le> j \<Longrightarrow> j < 1 + k2 \<Longrightarrow> owned b p (row + j * - dr) (col + j * - dc)" "1 + k2 \<le> max 1 (bd_M b)"
    "1 + k2 < bd_M b \<longrightarrow> \<not> owned b p (row + (1 + k2) * - dr) (col + (1 + k2) * - dc)"
    using count_run_result [OF sh, of row col p "- dr" "- dc" 1 "1 + k1"] by blast
  let ?P = "\<lambda>a. 0 \<le> a \<and> a < max 1 (bd_M b) \<and> line_from b p (row - a * dr) (col - a * dc) (dr, dc)"
  have at: "owned b p (row + j * dr) (col + j * dc)" if "- k2 \<le> j" "j \<le> k1" for j
  proof -
    consider "j = 0" | "1 \<le> j" | "j \<le> -1" by linarith
    then show ?thesis
    proof cases
      case 3
      then show ?thesis using k2(3) [of "- j"] that by simp
    qed (use own k1(3) that in auto)
  qed
  have "?P k2" if "1 + k1 + k2 \<ge> bd_M b"
  proof -
    have "owned b p (row - k2 * dr + k * dr) (col - k2 * dc + k * dc)" if "0 \<le> k" "k < bd_M b" for k
      using at [of "k - k2"] that \<open>1 + k1 + k2 \<ge> bd_M b\<close> by (simp add: algebra_simps)
    then show ?thesis using k2(1,4) by (auto simp: line_from_def)
  qed
  moreover have "1 + k1 + k2 \<ge> bd_M b" if a: "?P a" for a
  proof (rule ccontr)
    assume less: "\<not> 1 + k1 + k2 \<ge> bd_M b"
    have line: "owned b p (row + (k - a) * dr) (col + (k - a) * dc)" if "0 \<le> k" "k < bd_M b" for k
      using a that by (auto simp: line_from_def algebra_simps)
    show False
    proof (cases "bd_M b - a > 1 + k1")
      case True
      have "owned b p (row + (1 + k1) * dr) (col + (1 + k1) * dc)" using line [of "1 + k1 + a"] True a k1(1) by simp
      then show False using k1(5) less k2(1) by auto
    next
      case False
      then have "a \<ge> 1 + k2" using less by simp
      then have "owned b p (row + (1 + k2) * - dr) (col + (1 + k2) * - dc)"
        using line [of "a - (1 + k2)"] a k2(1) less k1(1) by (simp add: algebra_simps)
      then show False using k2(5) less k1(1) by auto
    qed
  qed
  ultimately have "(1 + k1 + k2 \<ge> bd_M b) = (\<exists>a. ?P a)" by blast
  then show ?thesis using k1(2) k2(2) by (simp add: checkDirection_def)
qed

lemma check_dirs_result:
  assumes "shaped b" and "owned b (mv_Player mv) (mv_Row mv) (mv_Col mv)"
  shows "check_dirs b mv ds = Some (\<exists>d \<in> set ds. \<exists>a. 0 \<le> a \<and> a < max 1 (bd_M b) \<and>
    line_from b (mv_Player mv) (mv_Row mv - a * fst d) (mv_Col mv - a * snd d) d)"
proof (induction ds)
  case (Cons d ds)
  then show ?case by (cases d) (auto simp: checkDirection_result [OF assms])
qed simp

text \<open>What \<open>CheckWin\<close> computes: a line through the last move.\<close>

lemma CheckWin_result:
  assumes "wf_board b" and "LastMove b = Some mv"
  shows "CheckWin b = Some (\<exists>d \<in> set directions. \<exists>a. 0 \<le> a \<and> a < max 1 (bd_M b) \<and>
    line_from b (mv_Player mv) (mv_Row mv - a * fst d) (mv_Col mv - a * snd d) d)"
proof -
  have "owned b (mv_Player mv) (mv_Row mv) (mv_Col mv)" "shaped b" using assms by (auto simp: wf_board_def owned_def)
  then show ?thesis using assms(2) by (simp add: CheckWin_def check_dirs_result)
qed

lemma placed_cells:
  assumes "placed b row col p b'"
  shows "isValid b' = isValid b" and "isValid b row col \<Longrightarrow> cell_at b' row col = p"
    and "isValid b r c \<Longrightarrow> r \<noteq> row \<or> c \<noteq> col \<Longrightarrow> cell_at b' r c = cell_at b r c"
proof -
  show "isValid b' = isValid b" using assms by (intro isValid_same) (simp_all add: placed_def)
  have c: "isValid b r c \<Longrightarrow> cell_at b' r c = (if r = row \<and> c = col then p else cell_at b r c)" for r c
    using assms unfolding placed_def by blast
  show "isValid b row col \<Longrightarrow> cell_at b' row col = p" using c [of row col] by simp
  show "isValid b r c \<Longrightarrow> r \<noteq> row \<or> c \<noteq> col \<Longrightarrow> cell_at b' r c = cell_at b r c" using c [of r c] by (auto split: if_splits)
qed

text \<open>A line that a move adds goes through the move.\<close>

lemma new_line:
  assumes "placed b row col p b'" and "\<not> line_from b q r c d" and "line_from b' q r c d"
  shows "\<exists>k. 0 \<le> k \<and> k < bd_M b \<and> r + k * fst d = row \<and> c + k * snd d = col"
proof (rule ccontr)
  assume no: "\<nexists>k. 0 \<le> k \<and> k < bd_M b \<and> r + k * fst d = row \<and> c + k * snd d = col"
  have iv: "isValid b' = isValid b" using assms(1) by (intro isValid_same) (simp_all add: placed_def)
  have "owned b q (r + k * fst d) (c + k * snd d)" if k: "0 \<le> k" "k < bd_M b" for k
  proof -
    have "owned b' q (r + k * fst d) (c + k * snd d)" using assms(1,3) k by (simp add: line_from_def placed_def)
    moreover have "\<not> (r + k * fst d = row \<and> c + k * snd d = col)" using no k by blast
    ultimately show ?thesis
      using placed_cells(3) [OF assms(1), of "r + k * fst d" "c + k * snd d"] iv by (auto simp: owned_def)
  qed
  then show False using assms(2) by (auto simp: line_from_def)
qed

lemma CheckWin_has_line:
  assumes wf: "wf_board b'" and pl: "placed b row col p b'" and no: "\<not> has_line b p"
  shows "CheckWin b' = Some (has_line b' p)"
proof -
  have "has_line b' p \<longleftrightarrow> (\<exists>d \<in> set directions. \<exists>a. 0 \<le> a \<and> a < max 1 (bd_M b') \<and>
      line_from b' p (row - a * fst d) (col - a * snd d) d)"
  proof
    assume "has_line b' p"
    then obtain r c d where d: "d \<in> set directions" and l: "line_from b' p r c d" by (auto simp: has_line_directions)
    have "\<not> line_from b p r c d" using no d by (auto simp: has_line_directions)
    then obtain k where k: "0 \<le> k" "k < bd_M b" "r + k * fst d = row" "c + k * snd d = col"
      using new_line [OF pl _ l] by blast
    have "r = row - k * fst d" "c = col - k * snd d" using k(3,4) by auto
    then show "\<exists>d \<in> set directions. \<exists>a. 0 \<le> a \<and> a < max 1 (bd_M b') \<and>
        line_from b' p (row - a * fst d) (col - a * snd d) d"
      using k l d pl by (intro bexI [OF _ d] exI [of _ k]) (auto simp: placed_def)
  qed (auto simp: has_line_directions)
  then show ?thesis using CheckWin_result [OF wf] pl by (simp add: placed_def)
qed

text \<open>A move changes nothing for the other player's lines.\<close>

lemma other_lines:
  assumes pl: "placed b row col p b'" and q: "q \<noteq> p" and e: "cell_at b row col = Empty" and qe: "q \<noteq> Empty"
  shows "has_line b' q = has_line b q"
proof -
  have iv: "isValid b' = isValid b" using pl by (intro isValid_same) (simp_all add: placed_def)
  have "owned b' q r c = owned b q r c" for r c
    using placed_cells(2,3) [OF pl] q e qe by (cases "r = row \<and> c = col") (auto simp: owned_def iv)
  then show ?thesis using pl by (simp add: has_line_directions line_from_def placed_def)
qed

section \<open>Full boards\<close>

lemma full_loop_result:
  assumes "shaped b" and "0 < Rows b"
  shows "(\<forall>c \<in> set cs. 0 \<le> c \<and> c < Cols b) \<Longrightarrow> full_loop b cs = Some (\<forall>c \<in> set cs. cell_at b 0 c \<noteq> Empty)"
proof (induction cs)
  case (Cons c cs)
  have "cell b 0 c = Some (cell_at b 0 c)"
    by (rule cell_valid [OF assms(1)]) (use Cons.prems assms in \<open>auto simp: isValid_def\<close>)
  then show ?case using Cons by simp
qed simp

text \<open>Under gravity looking at the top row is enough.\<close>

lemma IsFull_result:
  assumes "wf_board b" and "0 < Rows b"
  shows "IsFull b = Some (\<forall>r c. isValid b r c \<longrightarrow> cell_at b r c \<noteq> Empty)"
proof -
  have sh: "shaped b" and g: "gravity b" using assms(1) by (simp_all add: wf_board_def)
  have "IsFull b = Some (\<forall>c \<in> set [0..Cols b - 1]. cell_at b 0 c \<noteq> Empty)"
    unfolding IsFull_def by (rule full_loop_result [OF sh assms(2)]) auto
  moreover have "(\<forall>c \<in> set [0..Cols b - 1]. cell_at b 0 c \<noteq> Empty) = (\<forall>r c. isValid b r c \<longrightarrow> cell_at b r c \<noteq> Empty)"
  proof (intro iffI allI impI ballI)
    fix r c assume top: "\<forall>c \<in> set [0..Cols b - 1]. cell_at b 0 c \<noteq> Empty" and v: "isValid b r c"
    show "cell_at b r c \<noteq> Empty"
    proof
      assume "cell_at b r c = Empty"
      then have "cell_at b 0 c = Empty" by (rule gravity_up [OF g v]) (use v in \<open>auto simp: isValid_def\<close>)
      then show False using top v by (auto simp: isValid_def)
    qed
  next
    fix c assume "\<forall>r c. isValid b r c \<longrightarrow> cell_at b r c \<noteq> Empty" "c \<in> set [0..Cols b - 1]"
    then show "cell_at b 0 c \<noteq> Empty" using assms(2) by (auto simp: isValid_def)
  qed
  ultimately show ?thesis by simp
qed

lemma empty_no_line:
  assumes "\<And>r c. isValid b r c \<Longrightarrow> cell_at b r c = Empty" and "p \<noteq> Empty" and "0 < bd_M b"
  shows "\<not> has_line b p"
proof
  assume "has_line b p"
  then obtain r c d where "line_from b p r c d" by (auto simp: has_line_directions)
  then have "owned b p (r + 0 * fst d) (c + 0 * snd d)" using assms(3) unfolding line_from_def by blast
  then show False using assms(1,2) by (auto simp: owned_def)
qed

lemma MakeMove_Inr:
  assumes "wf_board b" and "MakeMove b col p = Some (b', Inr row)"
  shows "wf_board b'" and "placed b row col p b'" and "isValid b row col" and "p = Player1 \<or> p = Player2"
    and "0 \<le> r \<Longrightarrow> r \<le> row \<Longrightarrow> cell_at b r col = Empty" and "row < r \<Longrightarrow> r < Rows b \<Longrightarrow> cell_at b r col \<noteq> Empty"
proof -
  have none: "move_error b col p = None"
    using MakeMove_error [OF assms(1)] assms(2) by (cases "move_error b col p") auto
  note ok = MakeMove_ok [OF assms(1) none]
  then show "wf_board b'" "placed b row col p b'" "isValid b row col"
    "0 \<le> r \<Longrightarrow> r \<le> row \<Longrightarrow> cell_at b r col = Empty" "row < r \<Longrightarrow> r < Rows b \<Longrightarrow> cell_at b r col \<noteq> Empty"
    using assms(2) by auto
  show "p = Player1 \<or> p = Player2" using none by (auto simp: move_error_def split: if_splits)
qed

section \<open>Printing never fails\<close>

lemma cells_text_Some:
  "shaped b \<Longrightarrow> 0 \<le> row \<Longrightarrow> row < Rows b \<Longrightarrow> (\<forall>c \<in> set cs. 0 \<le> c \<and> c < Cols b) \<Longrightarrow> cells_text b row cs \<noteq> None"
proof (induction cs)
  case (Cons c cs)
  have "cell b row c = Some (cell_at b row c)"
    by (rule cell_valid [OF Cons.prems(1)]) (use Cons.prems in \<open>auto simp: isValid_def\<close>)
  then show ?case using Cons by auto
qed simp

lemma rows_text_Some:
  "shaped b \<Longrightarrow> (\<forall>r \<in> set rs. 0 \<le> r \<and> r < Rows b) \<Longrightarrow> rows_text b rs \<noteq> None"
proof (induction rs)
  case (Cons r rs)
  have "cells_text b r [0..Cols b - 1] \<noteq> None" by (rule cells_text_Some) (use Cons.prems in auto)
  then show ?case using Cons by auto
qed simp

lemma Board_String_Some: "shaped b \<Longrightarrow> \<exists>t. Board_String b = Some t"
  using rows_text_Some [of b "[0..Rows b - 1]"] by (auto simp: Board_String_def)

section \<open>Properties\<close>

text \<open>
  C28. What \<open>MakeMove\<close> does on every branch: never a panic on a well-formed board; the board stays well
  formed; a column out of range, a value that is no player and a full column are refused, in this
  order, and change nothing; otherwise the piece lands in the lowest empty row of the column, all
  cells above it were empty, all below are filled, and no other cell changes.
\<close>

theorem make_move_behaviour:
  assumes "wf_board b"
  shows "\<exists>b' res. MakeMove b col p = Some (b', res) \<and> wf_board b' \<and>
    (case res of
       Inl e \<Rightarrow> b' = b \<and>
         (col < 0 \<or> col \<ge> Cols b \<longrightarrow> e = ''column out of bounds'') \<and>
         (0 \<le> col \<and> col < Cols b \<and> p \<notin> {Player1, Player2} \<longrightarrow> e = ''invalid player'') \<and>
         (0 \<le> col \<and> col < Cols b \<and> p \<in> {Player1, Player2} \<longrightarrow>
            e = ''column is full'' \<and> (\<forall>r. isValid b r col \<longrightarrow> cell_at b r col \<noteq> Empty))
     | Inr row \<Rightarrow> isValid b row col \<and> p \<in> {Player1, Player2} \<and>
         (\<forall>r. isValid b r col \<longrightarrow> (cell_at b r col = Empty \<longleftrightarrow> r \<le> row)) \<and>
         (\<forall>r c. isValid b r c \<longrightarrow> cell_at b' r c = (if r = row \<and> c = col then p else cell_at b r c)))"
proof (cases "move_error b col p")
  case None
  obtain b' row where b': "MakeMove b col p = Some (b', Inr row)" using MakeMove_ok [OF assms None] by blast
  note m = MakeMove_Inr [OF assms b']
  have "cell_at b r col = Empty \<longleftrightarrow> r \<le> row" if "isValid b r col" for r
    using m(5) [of r] m(6) [of r] that by (cases "r \<le> row") (auto simp: isValid_def)
  moreover have "\<forall>r c. isValid b r c \<longrightarrow> cell_at b' r c = (if r = row \<and> c = col then p else cell_at b r c)"
    using m(2) by (simp add: placed_def)
  ultimately show ?thesis using b' m(1,3,4) by (intro exI [of _ b'] exI [of _ "Inr row"]) simp
next
  case (Some e)
  have g: "gravity b" using assms by (simp add: wf_board_def)
  have "cell_at b r col \<noteq> Empty" if full: "Rows b = 0 \<or> cell_at b 0 col \<noteq> Empty" and v: "isValid b r col" for r
  proof
    assume "cell_at b r col = Empty"
    then have "cell_at b 0 col = Empty" by (rule gravity_up [OF g v]) (use v in \<open>auto simp: isValid_def\<close>)
    then show False using full v by (auto simp: isValid_def)
  qed
  then show ?thesis using MakeMove_error [OF assms Some] assms Some
    by (intro exI [of _ b] exI [of _ "Inl e"]) (auto simp: move_error_def split: if_splits)
qed

definition small_board :: "Board" where
  "small_board = the (NewBoard 2 2 2)"

lemma small_board_wf:
  "wf_board small_board" "bd_M small_board = 2" "\<And>r c. isValid small_board r c \<Longrightarrow> cell_at small_board r c = Empty"
  using NewBoard_wf [of 2 2 2] by (auto simp: small_board_def)

theorem make_move_behaviour_witness:
  "\<exists>b' res. MakeMove small_board 1 Player1 = Some (b', res) \<and> wf_board b' \<and> res = Inr 1"
proof -
  have "map_option snd (MakeMove small_board 1 Player1) = Some (Inr 1)" by code_simp
  then show ?thesis using make_move_behaviour [OF small_board_wf(1), of 1 Player1] by fastforce
qed

text \<open>
  C29. \<open>CheckWin\<close> after a move agrees with the rule of the game: if the player had no line before, it
  answers exactly whether the player now has \<open>M\<close> pieces in a row anywhere on the board,
  horizontally, vertically or diagonally, and it never panics.
\<close>

theorem check_win_is_the_rule:
  assumes "wf_board b" and "MakeMove b col p = Some (b', Inr row)" and "\<not> has_line b p"
  shows "CheckWin b' = Some (has_line b' p)"
  using CheckWin_has_line MakeMove_Inr(1,2) [OF assms(1,2)] assms(3) by blast

definition one_move :: Board where
  "one_move = fst (the (MakeMove small_board 0 Player1))"

definition two_moves :: Board where
  "two_moves = fst (the (MakeMove one_move 1 Player1))"

theorem check_win_is_the_rule_witness:
  "\<not> has_line one_move Player1 \<and> has_line two_moves Player1"
proof -
  have r: "map_option snd (MakeMove small_board 0 Player1) = Some (Inr 1)"
    "map_option snd (MakeMove one_move 1 Player1) = Some (Inr 1)" by code_simp+
  have m1: "MakeMove small_board 0 Player1 = Some (one_move, Inr 1)"
    using r(1) by (auto simp: one_move_def)
  have m2: "MakeMove one_move 1 Player1 = Some (two_moves, Inr 1)" using r(2) by (auto simp: two_moves_def)
  have c: "CheckWin one_move = Some False" "CheckWin two_moves = Some True" by code_simp+
  have "\<not> has_line small_board Player1"
    by (rule empty_no_line) (use small_board_wf in \<open>simp_all add: player_defs\<close>)
  then have no: "\<not> has_line one_move Player1"
    using check_win_is_the_rule [OF small_board_wf(1) m1] c(1) by simp
  then show ?thesis
    using check_win_is_the_rule [OF MakeMove_Inr(1) [OF small_board_wf(1) m1] m2 no] c(2) by simp
qed

end
