(* ===== verification/Json.thy ===== *)
theory Json
  imports GoText
begin

text \<open>
  JSON as the programs use it through \<open>encoding/json\<close>. Decoding into a struct follows the package:
  fields are found by their name, ignoring case, missing and null fields keep the zero value, the last
  occurrence wins, and a value of the wrong type is an error.
\<close>

section \<open>JSON values\<close>

datatype json =
    JNull
  | JBool bool
  | JInt int
  | JReal string
  | JStr string
  | JArr "json list"
  | JObj "(string \<times> json) list"

fun fields_of :: "json \<Rightarrow> (string \<times> json) list option" where
  "fields_of (JObj kvs) = Some kvs"
| "fields_of JNull = Some []"
| "fields_of _ = None"

text \<open>The values given to a field, in order; nulls are skipped.\<close>

definition values_of :: "string \<Rightarrow> (string \<times> json) list \<Rightarrow> json list" where
  "values_of name kvs = map snd (filter (\<lambda>(k, v). ToLower k = name \<and> v \<noteq> JNull) kvs)"

fun take_str :: "string \<Rightarrow> json list \<Rightarrow> string option" where
  "take_str s [] = Some s"
| "take_str s (JStr t # vs) = take_str t vs"
| "take_str s (_ # vs) = None"

fun take_int :: "int \<Rightarrow> json list \<Rightarrow> int option" where
  "take_int n [] = Some n"
| "take_int n (JInt m # vs) = (if - (2 ^ 63) \<le> m \<and> m < 2 ^ 63 then take_int m vs else None)"
| "take_int n (_ # vs) = None"

fun take_bool :: "bool \<Rightarrow> json list \<Rightarrow> bool option" where
  "take_bool b [] = Some b"
| "take_bool b (JBool c # vs) = take_bool c vs"
| "take_bool b (_ # vs) = None"

definition str_field :: "string \<Rightarrow> (string \<times> json) list \<Rightarrow> string option" where
  "str_field name kvs = take_str '''' (values_of name kvs)"

definition int_field :: "string \<Rightarrow> (string \<times> json) list \<Rightarrow> int option" where
  "int_field name kvs = take_int 0 (values_of name kvs)"

definition bool_field :: "string \<Rightarrow> (string \<times> json) list \<Rightarrow> bool option" where
  "bool_field name kvs = take_bool False (values_of name kvs)"

end
