(* ===== verification/GameWire.thy ===== *)
theory GameWire
  imports Json
begin

text \<open>
  The wire protocol of Connect-M (\<open>Message\<close>, the \<open>send...\<close> functions and the payload structs of
  \<open>hw1/server/main.go\<close> and \<open>hw1/client/main.go\<close>). A line on the wire is a JSON value; \<open>None\<close> stands
  for a line that is not JSON.
\<close>

section \<open>The envelope\<close>

text \<open>\<open>Data\<close> is a raw message: \<open>None\<close> if the field is missing, which does not decode.\<close>

record Message =
  msg_Type :: string
  msg_Data :: "json option"

definition raw_field :: "string \<Rightarrow> (string \<times> json) list \<Rightarrow> json option" where
  "raw_field name kvs = map_of (rev (map (\<lambda>(k, v). (ToLower k, v)) kvs)) name"

definition decode_message :: "json \<Rightarrow> Message option" where
  "decode_message j =
     then_do (fields_of j) (\<lambda>kvs.
       map_option (\<lambda>t. \<lparr>msg_Type = t, msg_Data = raw_field ''data'' kvs\<rparr>) (str_field ''type'' kvs))"

definition encode_message :: "Message \<Rightarrow> json" where
  "encode_message m =
     JObj [(''type'', JStr (msg_Type m)), (''data'', case msg_Data m of None \<Rightarrow> JNull | Some d \<Rightarrow> d)]"

text \<open>The fields of a payload.\<close>

definition payload :: "json option \<Rightarrow> (string \<times> json) list option" where
  "payload d = then_do d fields_of"

section \<open>Messages to the server\<close>

definition sendConnect :: "string \<Rightarrow> string \<Rightarrow> json" where
  "sendConnect player ident =
     encode_message \<lparr>msg_Type = ''cs_send_connect'',
       msg_Data = Some (JObj [(''id'', JStr ident), (''player'', JStr player)])\<rparr>"

definition sendMove :: "string \<Rightarrow> int \<Rightarrow> json" where
  "sendMove ident column =
     encode_message \<lparr>msg_Type = ''cs_send_move'',
       msg_Data = Some (JObj [(''column'', JInt column), (''id'', JStr ident)])\<rparr>"

definition connect_payload :: "json option \<Rightarrow> (string \<times> string) option" where
  "connect_payload d =
     then_do (payload d) (\<lambda>kvs. then_do (str_field ''player'' kvs) (\<lambda>p.
       map_option (\<lambda>i. (p, i)) (str_field ''id'' kvs)))"

definition move_payload :: "json option \<Rightarrow> (string \<times> int) option" where
  "move_payload d =
     then_do (payload d) (\<lambda>kvs. then_do (str_field ''id'' kvs) (\<lambda>i.
       map_option (\<lambda>c. (i, c)) (int_field ''column'' kvs)))"

section \<open>Messages to the clients\<close>

definition sendAckConnect :: "bool \<Rightarrow> string \<Rightarrow> string \<Rightarrow> json" where
  "sendAckConnect success player reason =
     encode_message \<lparr>msg_Type = ''sc_ack_connect'',
       msg_Data = Some (JObj [(''player'', JStr player), (''reason'', JStr reason), (''success'', JBool success)])\<rparr>"

definition sendNotifyStart :: "string \<Rightarrow> string \<Rightarrow> string \<Rightarrow> json" where
  "sendNotifyStart opponent firstTurn boardStr =
     encode_message \<lparr>msg_Type = ''sc_notify_start'',
       msg_Data = Some (JObj [(''board'', JStr boardStr), (''first_turn'', JStr firstTurn),
         (''opponent'', JStr opponent)])\<rparr>"

definition sendAckMove :: "string \<Rightarrow> string \<Rightarrow> string \<Rightarrow> json" where
  "sendAckMove status next boardStr =
     encode_message \<lparr>msg_Type = ''sc_ack_move'',
       msg_Data = Some (JObj [(''board'', JStr boardStr), (''next'', JStr next), (''status'', JStr status)])\<rparr>"

definition sendNotifyWin :: "string \<Rightarrow> string \<Rightarrow> json" where
  "sendNotifyWin winner boardStr =
     encode_message \<lparr>msg_Type = ''sc_notify_win'',
       msg_Data = Some (JObj [(''board'', JStr boardStr), (''winner'', JStr winner)])\<rparr>"

definition sendAckInvalid :: "string \<Rightarrow> json" where
  "sendAckInvalid reason =
     encode_message \<lparr>msg_Type = ''sc_ack_invalid'', msg_Data = Some (JObj [(''reason'', JStr reason)])\<rparr>"

definition sendNotifyError :: "string \<Rightarrow> json" where
  "sendNotifyError reason =
     encode_message \<lparr>msg_Type = ''sc_notify_error'', msg_Data = Some (JObj [(''reason'', JStr reason)])\<rparr>"

definition ack_connect_payload :: "json option \<Rightarrow> (bool \<times> string \<times> string) option" where
  "ack_connect_payload d =
     then_do (payload d) (\<lambda>kvs. then_do (bool_field ''success'' kvs) (\<lambda>s.
       then_do (str_field ''player'' kvs) (\<lambda>p. map_option (\<lambda>r. (s, p, r)) (str_field ''reason'' kvs))))"

definition ack_move_payload :: "json option \<Rightarrow> (string \<times> string \<times> string) option" where
  "ack_move_payload d =
     then_do (payload d) (\<lambda>kvs. then_do (str_field ''status'' kvs) (\<lambda>s.
       then_do (str_field ''next'' kvs) (\<lambda>n. map_option (\<lambda>b. (s, n, b)) (str_field ''board'' kvs))))"

definition win_payload :: "json option \<Rightarrow> (string \<times> string) option" where
  "win_payload d =
     then_do (payload d) (\<lambda>kvs. then_do (str_field ''winner'' kvs) (\<lambda>w.
       map_option (\<lambda>b. (w, b)) (str_field ''board'' kvs)))"

definition reason_payload :: "json option \<Rightarrow> string option" where
  "reason_payload d = then_do (payload d) (str_field ''reason'')"

section \<open>What arrives is what was sent\<close>

lemmas wire_defs = decode_message_def encode_message_def str_field_def int_field_def bool_field_def
  raw_field_def values_of_def payload_def

lemma lower_names [simp]:
  "ToLower ''type'' = ''type''" "ToLower ''data'' = ''data''" "ToLower ''id'' = ''id''"
  "ToLower ''player'' = ''player''" "ToLower ''column'' = ''column''" "ToLower ''success'' = ''success''"
  "ToLower ''reason'' = ''reason''" "ToLower ''status'' = ''status''" "ToLower ''next'' = ''next''"
  "ToLower ''board'' = ''board''" "ToLower ''winner'' = ''winner''" "ToLower ''opponent'' = ''opponent''"
  "ToLower ''first_turn'' = ''first_turn''"
  by code_simp+

lemma decode_encode_message:
  "d \<noteq> JNull \<Longrightarrow> decode_message (encode_message \<lparr>msg_Type = t, msg_Data = Some d\<rparr>) = Some \<lparr>msg_Type = t, msg_Data = Some d\<rparr>"
  by (simp add: wire_defs)

text \<open>The roundtrips of the protocol, one per message: type and fields.\<close>

definition arrives :: "json \<Rightarrow> string \<Rightarrow> (json option \<Rightarrow> 'p option) \<Rightarrow> 'p \<Rightarrow> bool" where
  "arrives j t parse p \<longleftrightarrow> (\<exists>d. decode_message j = Some \<lparr>msg_Type = t, msg_Data = d\<rparr> \<and> parse d = Some p)"

lemma to_server_roundtrips:
  "arrives (sendConnect p i) ''cs_send_connect'' connect_payload (p, i)"
  "- (2 ^ 63) \<le> c \<Longrightarrow> c < 2 ^ 63 \<Longrightarrow> arrives (sendMove i c) ''cs_send_move'' move_payload (i, c)"
  by (simp_all add: arrives_def sendConnect_def sendMove_def decode_encode_message connect_payload_def
      move_payload_def wire_defs)

lemma to_client_roundtrips:
  "arrives (sendAckConnect ok p r) ''sc_ack_connect'' ack_connect_payload (ok, p, r)"
  "arrives (sendAckMove st n b) ''sc_ack_move'' ack_move_payload (st, n, b)"
  "arrives (sendNotifyWin w b) ''sc_notify_win'' win_payload (w, b)"
  "arrives (sendAckInvalid r) ''sc_ack_invalid'' reason_payload r"
  "arrives (sendNotifyError r) ''sc_notify_error'' reason_payload r"
  "arrives (sendNotifyStart q t b) ''sc_notify_start'' (\<lambda>d. then_do (payload d) (str_field ''first_turn'')) t"
  by (simp_all add: arrives_def sendAckConnect_def sendAckMove_def sendNotifyWin_def sendAckInvalid_def
      sendNotifyError_def sendNotifyStart_def decode_encode_message ack_connect_payload_def
      ack_move_payload_def win_payload_def reason_payload_def wire_defs)

end
