(* ===== verification/GameServer.thy ===== *)
theory GameServer
  imports GameRules GameWire
begin

text \<open>
  The Connect-M server (\<open>hw1/server/main.go\<close>): the package variables as a record, the two message
  handlers, the dispatcher, and the release of a player's slot when a connection closes. A handler runs
  under \<open>gameMu\<close> up to its sends, so each is one step; what it sends is a list of connections and
  messages. The sends of two steps may overlap, so nothing is said of the order in which they arrive.
  \<open>None\<close> is a panic, which ends the server.
\<close>

section \<open>State\<close>

type_synonym conn = nat

record GameServer =
  board :: "Board option"
  playerRegistry :: "string \<rightharpoonup> string"
  takenPieces :: "string \<Rightarrow> bool"
  playerConns :: "string \<rightharpoonup> conn"
  firstPlayer :: string
  currentTurn :: string
  gameOver :: bool
  boardRows :: int
  boardCols :: int
  boardM :: int

type_synonym sends = "(conn \<times> json) list"

definition server_start :: "int \<Rightarrow> int \<Rightarrow> int \<Rightarrow> GameServer" where
  "server_start rows cols m =
     \<lparr>board = None, playerRegistry = (\<lambda>_. None), takenPieces = (\<lambda>_. False), playerConns = (\<lambda>_. None),
      firstPlayer = '''', currentTurn = '''', gameOver = False, boardRows = rows, boardCols = cols, boardM = m\<rparr>"

text \<open>
  The start of \<open>main\<close>: \<open>os.Args\<close> has the program first; \<open>listen\<close> gives the error of an
  address the system refuses. \<open>Inl\<close> is the text on stderr before \<open>os.Exit(1)\<close>, \<open>Inr\<close> the started
  server and the line it prints.
\<close>

definition server_main :: "(string \<Rightarrow> string option) \<Rightarrow> string list \<Rightarrow> string + (GameServer \<times> string)" where
  "server_main listen args =
     (if length args < 5 then Inl ''usage: server <port> <rows> <cols> <M>''
      else case Atoi (args ! 2) of
        None \<Rightarrow> Inl (''invalid rows: '' @ args ! 2)
      | Some rows \<Rightarrow>
          (case Atoi (args ! 3) of
             None \<Rightarrow> Inl (''invalid cols: '' @ args ! 3)
           | Some cols \<Rightarrow>
               (case Atoi (args ! 4) of
                  None \<Rightarrow> Inl (''invalid M: '' @ args ! 4)
                | Some m \<Rightarrow>
                    (case listen ('':'' @ args ! 1) of
                       Some e \<Rightarrow> Inl e
                     | None \<Rightarrow>
                         Inr (server_start rows cols m,
                           ''Connect-M server listening on port '' @ args ! 1 @ '' with board size '' @ Itoa rows @
                           ''x'' @ Itoa cols @ '' and connect-'' @ Itoa m @ '' win condition'')))))"

definition pieceToPlayer :: "string \<Rightarrow> Player" where
  "pieceToPlayer piece = (if piece = ''X'' then Player1 else Player2)"

definition playerToPiece :: "Player \<Rightarrow> string" where
  "playerToPiece p = (if p = Player1 then ''X'' else ''O'')"

text \<open>\<open>broadcast\<close> skips connections that are nil.\<close>

definition broadcast :: "json \<Rightarrow> conn option list \<Rightarrow> sends" where
  "broadcast msg conns = map (\<lambda>c. (the c, msg)) (filter (\<lambda>c. c \<noteq> None) conns)"

section \<open>Connecting\<close>

text \<open>
  The registration under the lock: the three maps, and the board with the first player's turn when
  there is no board yet.
\<close>

definition register_player :: "GameServer \<Rightarrow> conn \<Rightarrow> string \<Rightarrow> string \<Rightarrow> GameServer go" where
  "register_player s conn piece ident =
     (let s1 = s\<lparr>playerRegistry := (playerRegistry s)(ident \<mapsto> piece),
                 takenPieces := (takenPieces s)(piece := True),
                 playerConns := (playerConns s)(piece \<mapsto> conn)\<rparr>
      in case board s1 of
           Some b \<Rightarrow> Some s1
         | None \<Rightarrow>
             then_do (NewBoard (boardRows s1) (boardCols s1) (boardM s1)) (\<lambda>b.
               Some (s1\<lparr>board := Some b, firstPlayer := piece, currentTurn := piece\<rparr>)))"

text \<open>The two start messages; sending on a nil connection is a panic.\<close>

definition notify_start :: "GameServer \<Rightarrow> sends go" where
  "notify_start s =
     then_do (board s) (\<lambda>b. then_do (Board_String b) (\<lambda>boardStr.
       then_do (playerConns s ''X'') (\<lambda>x. then_do (playerConns s ''O'') (\<lambda>ox.
         Some [(x, sendNotifyStart ''O'' (currentTurn s) boardStr), (ox, sendNotifyStart ''X'' (currentTurn s) boardStr)]))))"

definition handleSendConnect :: "GameServer \<Rightarrow> conn \<Rightarrow> json option \<Rightarrow> (GameServer \<times> sends) go" where
  "handleSendConnect s conn data =
     (case connect_payload data of
        None \<Rightarrow> Some (s, [(conn, sendAckConnect False '''' ''malformed connect message'')])
      | Some (piece, ident) \<Rightarrow>
          if piece \<noteq> ''X'' \<and> piece \<noteq> ''O'' then
            Some (s, [(conn, sendAckConnect False '''' ''invalid player, must be X or O'')])
          else if takenPieces s piece then
            Some (s, [(conn, sendAckConnect False '''' (''player '' @ piece @ '' is already taken''))])
          else then_do (register_player s conn piece ident) (\<lambda>s'.
            if takenPieces s' ''X'' \<and> takenPieces s' ''O'' then
              map_option (\<lambda>starts. (s', (conn, sendAckConnect True piece '''') # starts)) (notify_start s')
            else Some (s', [(conn, sendAckConnect True piece '''')])))"

section \<open>Moving\<close>

definition other_piece :: "string \<Rightarrow> string" where
  "other_piece turn = (if turn = ''X'' then ''O'' else ''X'')"

text \<open>What follows a move that was applied: win, draw, or the next turn.\<close>

definition after_move :: "GameServer \<Rightarrow> Board \<Rightarrow> string \<Rightarrow> (GameServer \<times> sends) go" where
  "after_move s b piece =
     then_do (Board_String b) (\<lambda>boardStr. then_do (CheckWin b) (\<lambda>won.
       let allConns = [playerConns s ''X'', playerConns s ''O'']
       in if won then Some (s\<lparr>gameOver := True\<rparr>, broadcast (sendNotifyWin piece boardStr) allConns)
          else then_do (IsFull b) (\<lambda>full.
            if full then Some (s\<lparr>gameOver := True\<rparr>, broadcast (sendAckMove ''DRAW'' '''' boardStr) allConns)
            else
              let next = other_piece (currentTurn s)
              in Some (s\<lparr>currentTurn := next\<rparr>, broadcast (sendAckMove ''OK'' next boardStr) allConns))))"

definition handleSendMove :: "GameServer \<Rightarrow> conn \<Rightarrow> json option \<Rightarrow> (GameServer \<times> sends) go" where
  "handleSendMove s conn data =
     (case move_payload data of
        None \<Rightarrow> Some (s, [])
      | Some (ident, column) \<Rightarrow>
          (case playerRegistry s ident of
             None \<Rightarrow> Some (s, [(conn, sendAckInvalid ''client not registered'')])
           | Some piece \<Rightarrow>
               if gameOver s then Some (s, [(conn, sendAckInvalid ''game is already over'')])
               else if piece \<noteq> currentTurn s then Some (s, [(conn, sendAckInvalid ''it is not your turn'')])
               else then_do (board s) (\<lambda>b.
                 then_do (MakeMove b (column - 1) (pieceToPlayer piece)) (\<lambda>(b', res).
                   case res of
                     Inl e \<Rightarrow>
                       Some (s, [(conn, sendAckInvalid
                         (if e = ''column out of bounds'' then ''column out of range'' else e))])
                   | Inr row \<Rightarrow> after_move (s\<lparr>board := Some b'\<rparr>) b' piece))))"

section \<open>Connections\<close>

text \<open>One line from a connection; \<open>None\<close> is a line that is not JSON.\<close>

definition handle_line :: "GameServer \<Rightarrow> conn \<Rightarrow> json option \<Rightarrow> (GameServer \<times> sends) go" where
  "handle_line s conn line =
     (case then_do line decode_message of
        None \<Rightarrow> Some (s, [])
      | Some m \<Rightarrow>
          if msg_Type m = ''cs_send_connect'' then handleSendConnect s conn (msg_Data m)
          else if msg_Type m = ''cs_send_move'' then handleSendMove s conn (msg_Data m)
          else Some (s, []))"

text \<open>
  The cleanup when a connection has closed: the loop over \<open>playerConns\<close> stops at the first piece of
  this connection that it meets, in any order; \<open>piece\<close> says which.
\<close>

definition release :: "GameServer \<Rightarrow> string \<Rightarrow> GameServer" where
  "release s piece =
     s\<lparr>playerConns := (playerConns s)(piece := None), takenPieces := (takenPieces s)(piece := False),
       playerRegistry := (\<lambda>i. if playerRegistry s i = Some piece then None else playerRegistry s i)\<rparr>"

datatype server_event = Line conn "json option" | Closed conn string | ClosedIdle conn

definition server_enabled :: "GameServer \<Rightarrow> server_event \<Rightarrow> bool" where
  "server_enabled s ev \<longleftrightarrow>
     (case ev of Line c l \<Rightarrow> True | Closed c piece \<Rightarrow> playerConns s piece = Some c
      | ClosedIdle c \<Rightarrow> playerConns s ''X'' \<noteq> Some c \<and> playerConns s ''O'' \<noteq> Some c)"

definition server_step :: "GameServer \<Rightarrow> server_event \<Rightarrow> (GameServer \<times> sends) go" where
  "server_step s ev =
     (case ev of Line c l \<Rightarrow> handle_line s c l | Closed c piece \<Rightarrow> Some (release s piece, [])
      | ClosedIdle c \<Rightarrow> Some (s, []))"

inductive server_reachable :: "int \<Rightarrow> int \<Rightarrow> int \<Rightarrow> GameServer \<Rightarrow> bool" for rows cols m where
  server_boot: "server_reachable rows cols m (server_start rows cols m)"
| server_next: "server_reachable rows cols m s \<Longrightarrow> server_enabled s ev \<Longrightarrow> server_step s ev = Some (s', out) \<Longrightarrow>
    server_reachable rows cols m s'"

inductive_cases server_reachableE: "server_reachable rows cols m s"

end
