(* ===== verification/GameServerTheorems.thy ===== *)
theory GameServerTheorems
  imports GameServer
begin

text \<open>
  The invariant of the Connect-M server and its properties: the three maps of players agree, the board
  is well formed, the players move in turn, and the game is over exactly when the rule of the game says
  so. No message and no closed connection makes the server panic.
\<close>

section \<open>Counting pieces\<close>

definition pieces :: "Board \<Rightarrow> Player \<Rightarrow> (int \<times> int) set" where
  "pieces b p = {(r, c). isValid b r c \<and> cell_at b r c = p}"

definition count_pieces :: "Board \<Rightarrow> Player \<Rightarrow> nat" where
  "count_pieces b p = card (pieces b p)"

lemma pieces_finite: "finite (pieces b p)"
  by (rule finite_subset [of _ "{0..Rows b} \<times> {0..Cols b}"]) (auto simp: pieces_def isValid_def)

lemma count_placed:
  assumes pl: "placed b row col p b'" and v: "isValid b row col" and e: "cell_at b row col = Empty" and p: "p \<noteq> Empty"
  shows "count_pieces b' p = Suc (count_pieces b p)"
    and "q \<noteq> p \<Longrightarrow> q \<noteq> Empty \<Longrightarrow> count_pieces b' q = count_pieces b q"
proof -
  have c: "isValid b r x \<Longrightarrow> cell_at b' r x = (if r = row \<and> x = col then p else cell_at b r x)" for r x
    using pl unfolding placed_def by blast
  have "pieces b' p = insert (row, col) (pieces b p)"
    using c v by (auto simp: pieces_def placed_cells(1) [OF pl] split: if_splits)
  moreover have "(row, col) \<notin> pieces b p" using e p by (simp add: pieces_def)
  ultimately show "count_pieces b' p = Suc (count_pieces b p)" by (simp add: count_pieces_def pieces_finite)
  show "count_pieces b' q = count_pieces b q" if "q \<noteq> p" "q \<noteq> Empty"
  proof -
    have "pieces b' q = pieces b q"
      using c v e that by (auto simp: pieces_def placed_cells(1) [OF pl] split: if_splits)
    then show ?thesis by (simp add: count_pieces_def)
  qed
qed

definition board_full :: "Board \<Rightarrow> bool" where
  "board_full b \<longleftrightarrow> (\<forall>r c. isValid b r c \<longrightarrow> cell_at b r c \<noteq> Empty)"

lemma empty_counts:
  "(\<And>r c. isValid b r c \<Longrightarrow> cell_at b r c = Empty) \<Longrightarrow> p \<noteq> Empty \<Longrightarrow> count_pieces b p = 0"
  by (auto simp: count_pieces_def pieces_def card_eq_0_iff)

section \<open>The invariant\<close>

definition maps_ok :: "GameServer \<Rightarrow> bool" where
  "maps_ok s \<longleftrightarrow>
     (\<forall>p. takenPieces s p \<longleftrightarrow> playerConns s p \<noteq> None) \<and>
     (\<forall>p. takenPieces s p \<longrightarrow> p = ''X'' \<or> p = ''O'') \<and>
     (\<forall>i p. playerRegistry s i = Some p \<longrightarrow> takenPieces s p)"

text \<open>The game on a board, with the first player, the player whose turn it is, and whether it is over.\<close>

definition game_ok :: "Board \<Rightarrow> Player \<Rightarrow> Player \<Rightarrow> bool \<Rightarrow> bool" where
  "game_ok b fst_p turn over \<longleftrightarrow>
     wf_board b \<and> 0 < Rows b \<and> 0 < bd_M b \<and> {fst_p, turn} \<subseteq> {Player1, Player2} \<and>
     \<not> has_line b (Player1 + Player2 - turn) \<and>
     (if over then
        (has_line b turn \<or> board_full b) \<and>
        int (count_pieces b turn) = int (count_pieces b (Player1 + Player2 - turn)) + (if turn = fst_p then 1 else 0)
      else
        \<not> has_line b turn \<and> \<not> board_full b \<and>
        int (count_pieces b turn) = int (count_pieces b (Player1 + Player2 - turn)) - (if turn = fst_p then 0 else 1))"

definition server_inv :: "int \<Rightarrow> int \<Rightarrow> int \<Rightarrow> GameServer \<Rightarrow> bool" where
  "server_inv rows cols m s \<longleftrightarrow>
     maps_ok s \<and> boardRows s = rows \<and> boardCols s = cols \<and> boardM s = m \<and>
     (case board s of
        None \<Rightarrow> playerRegistry s = (\<lambda>_. None) \<and> \<not> gameOver s
      | Some b \<Rightarrow> {firstPlayer s, currentTurn s} \<subseteq> {''X'', ''O''} \<and>
          game_ok b (pieceToPlayer (firstPlayer s)) (pieceToPlayer (currentTurn s)) (gameOver s))"

lemma pieceToPlayer_cases: "p = ''X'' \<or> p = ''O'' \<Longrightarrow> pieceToPlayer p = Player1 \<or> pieceToPlayer p = Player2"
  by (auto simp: pieceToPlayer_def)

lemma other_player:
  "p = ''X'' \<or> p = ''O'' \<Longrightarrow> pieceToPlayer (other_piece p) = Player1 + Player2 - pieceToPlayer p"
  by (auto simp: pieceToPlayer_def other_piece_def player_defs)

lemma new_game_ok:
  assumes "0 < rows" "0 < cols" "0 < m" and b: "NewBoard rows cols m = Some b" and "p \<in> {Player1, Player2}"
  shows "game_ok b p p False"
proof -
  obtain b' where b': "NewBoard rows cols m = Some b'" "wf_board b'" "Rows b' = rows" "Cols b' = cols" "bd_M b' = m"
    "\<And>r c. isValid b' r c \<Longrightarrow> cell_at b' r c = Empty" using NewBoard_wf [of rows cols m] assms(1,2) by auto
  have eq: "b' = b" using b b'(1) by simp
  have q: "p \<noteq> Empty" "Player1 + Player2 - p \<noteq> Empty" "p \<in> {Player1, Player2}"
    using assms(5) by (auto simp: player_defs)
  have "\<not> has_line b x" "count_pieces b x = 0" if "x \<noteq> Empty" for x
    using empty_no_line [of b x] empty_counts [of b x] b' that assms(3) unfolding eq by auto
  moreover have "\<not> board_full b"
    using b' assms(1,2) unfolding eq by (auto simp: board_full_def isValid_def intro!: exI [of _ 0])
  ultimately show ?thesis using b' assms q unfolding eq by (auto simp: game_ok_def)
qed

text \<open>One move of the player whose turn it is.\<close>

lemma move_game_ok:
  assumes ok: "game_ok b f p False" and mv: "MakeMove b col p = Some (b', Inr row)"
  shows "CheckWin b' = Some (has_line b' p)" and "IsFull b' = Some (board_full b')"
    and "has_line b' p \<or> board_full b' \<Longrightarrow> game_ok b' f p True"
    and "\<not> has_line b' p \<Longrightarrow> \<not> board_full b' \<Longrightarrow> game_ok b' f (Player1 + Player2 - p) False"
proof -
  let ?q = "Player1 + Player2 - p"
  have wf: "wf_board b" and g: "0 < Rows b" "0 < bd_M b" "{f, p} \<subseteq> {Player1, Player2}" "\<not> has_line b ?q"
    "\<not> has_line b p" "int (count_pieces b p) = int (count_pieces b ?q) - (if p = f then 0 else 1)"
    using ok by (auto simp: game_ok_def)
  note m = MakeMove_Inr [OF wf mv]
  have rc: "Rows b' = Rows b" "bd_M b' = bd_M b" using m(2) by (simp_all add: placed_def)
  have e: "cell_at b row col = Empty" using m(3,5) by (auto simp: isValid_def)
  have pq: "p \<noteq> Empty" "?q \<noteq> Empty" "?q \<noteq> p" "Player1 + Player2 - ?q = p" "?q \<in> {Player1, Player2}"
    using g(3) by (auto simp: player_defs)
  have fq: "?q = f \<longleftrightarrow> p \<noteq> f" using g(3) by (auto simp: player_defs)
  note cnt = count_placed [OF m(2,3) e pq(1)]
  have cp: "count_pieces b' p = Suc (count_pieces b p)" "count_pieces b' ?q = count_pieces b ?q"
    using cnt pq by auto
  have lines: "\<not> has_line b' ?q" using other_lines [OF m(2) pq(3) e pq(2)] g(4) by simp
  show "CheckWin b' = Some (has_line b' p)" by (rule CheckWin_has_line [OF m(1,2) g(5)])
  show "IsFull b' = Some (board_full b')"
    unfolding board_full_def by (rule IsFull_result [OF m(1)]) (simp add: rc g)
  show "game_ok b' f p True" if "has_line b' p \<or> board_full b'"
    using that m(1) rc g lines cp pq by (auto simp: game_ok_def)
  show "game_ok b' f ?q False" if "\<not> has_line b' p" "\<not> board_full b'"
    unfolding game_ok_def pq(4) using that m(1) rc g lines cp pq fq by auto
qed

section \<open>Every step keeps the invariant and returns\<close>

lemma register_step:
  assumes inv: "server_inv rows cols m s" and pos: "0 < rows" "0 < cols" "0 < m"
    and piece: "piece = ''X'' \<or> piece = ''O''"
  shows "\<exists>s'. register_player s conn piece ident = Some s' \<and> server_inv rows cols m s' \<and> board s' \<noteq> None"
proof -
  let ?s = "s\<lparr>playerRegistry := (playerRegistry s)(ident \<mapsto> piece),
    takenPieces := (takenPieces s)(piece := True), playerConns := (playerConns s)(piece \<mapsto> conn)\<rparr>"
  have maps: "maps_ok ?s" using inv piece by (auto simp: server_inv_def maps_ok_def)
  show ?thesis
  proof (cases "board s")
    case (Some b)
    then have "register_player s conn piece ident = Some ?s" by (simp add: register_player_def)
    moreover have "server_inv rows cols m ?s" using inv maps Some by (simp add: server_inv_def)
    ultimately show ?thesis using Some by auto
  next
    case None
    obtain b where b: "NewBoard rows cols m = Some b" using NewBoard_wf [of rows cols m] pos by auto
    have "register_player s conn piece ident = Some (?s\<lparr>board := Some b, firstPlayer := piece, currentTurn := piece\<rparr>)"
      using None inv b by (simp add: register_player_def server_inv_def)
    moreover have "game_ok b (pieceToPlayer piece) (pieceToPlayer piece) False"
      by (rule new_game_ok [OF pos b]) (use pieceToPlayer_cases [OF piece] in auto)
    then have "server_inv rows cols m (?s\<lparr>board := Some b, firstPlayer := piece, currentTurn := piece\<rparr>)"
      using inv maps None piece unfolding server_inv_def by (auto simp: maps_ok_def)
    ultimately show ?thesis by auto
  qed
qed

lemma connect_step:
  assumes inv: "server_inv rows cols m s" and pos: "0 < rows" "0 < cols" "0 < m"
  shows "\<exists>s' out. handleSendConnect s conn data = Some (s', out) \<and> server_inv rows cols m s'"
proof (cases "connect_payload data")
  case (Some pi)
  obtain piece ident where pi: "pi = (piece, ident)" by (cases pi)
  show ?thesis
  proof (cases "(piece = ''X'' \<or> piece = ''O'') \<and> \<not> takenPieces s piece")
    case True
    then have piece: "piece = ''X'' \<or> piece = ''O''" by blast
    obtain s' where s': "register_player s conn piece ident = Some s'" "server_inv rows cols m s'" "board s' \<noteq> None"
      using register_step [OF inv pos piece] by blast
    obtain b where b: "board s' = Some b" "shaped b"
      using s'(2,3) by (auto simp: server_inv_def game_ok_def wf_board_def)
    have "notify_start s' \<noteq> None" if "takenPieces s' ''X''" "takenPieces s' ''O''"
      using Board_String_Some [OF b(2)] b(1) s'(2) that by (auto simp: notify_start_def server_inv_def maps_ok_def)
    then show ?thesis using Some pi True s' by (auto simp: handleSendConnect_def)
  qed (use Some pi inv in \<open>auto simp: handleSendConnect_def\<close>)
qed (use inv in \<open>simp add: handleSendConnect_def\<close>)

text \<open>The whole outcome of a legal move, given the state before it.\<close>

lemma move_step:
  assumes inv: "server_inv rows cols m s" and b: "board s = Some b" and over: "\<not> gameOver s"
    and mv: "MakeMove b col (pieceToPlayer (currentTurn s)) = Some (b', Inr row)"
  shows "\<exists>s' out. after_move (s\<lparr>board := Some b'\<rparr>) b' (currentTurn s) = Some (s', out) \<and>
    server_inv rows cols m s' \<and> board s' = Some b' \<and>
    gameOver s' = (has_line b' (pieceToPlayer (currentTurn s)) \<or> board_full b') \<and>
    (\<not> gameOver s' \<longrightarrow> currentTurn s' = other_piece (currentTurn s))"
proof -
  let ?p = "pieceToPlayer (currentTurn s)" and ?f = "pieceToPlayer (firstPlayer s)"
  let ?s = "s\<lparr>board := Some b'\<rparr>"
  have ok: "game_ok b ?f ?p False" and turns: "firstPlayer s = ''X'' \<or> firstPlayer s = ''O''"
    "currentTurn s = ''X'' \<or> currentTurn s = ''O''"
    using inv b over by (auto simp: server_inv_def)
  note g = move_game_ok [OF ok mv]
  have wf: "wf_board b" using ok by (simp add: game_ok_def)
  have "shaped b'" using MakeMove_Inr(1) [OF wf mv] by (simp add: wf_board_def)
  then obtain t where t: "Board_String b' = Some t" using Board_String_Some by blast
  show ?thesis
  proof (cases "has_line b' ?p \<or> board_full b'")
    case True
    then have "server_inv rows cols m (?s\<lparr>gameOver := True\<rparr>)"
      using inv b g(3) turns by (auto simp: server_inv_def maps_ok_def)
    then show ?thesis using t g(1,2) True by (auto simp: after_move_def Let_def)
  next
    case False
    then have "game_ok b' ?f (pieceToPlayer (other_piece (currentTurn s))) False"
      using g(4) other_player [OF turns(2)] by simp
    then have "server_inv rows cols m (?s\<lparr>currentTurn := other_piece (currentTurn s)\<rparr>)"
      using inv b over turns by (auto simp: server_inv_def maps_ok_def other_piece_def)
    then show ?thesis using t g(1,2) False over by (auto simp: after_move_def Let_def)
  qed
qed

lemma send_move_step:
  assumes inv: "server_inv rows cols m s"
  shows "\<exists>s' out. handleSendMove s conn data = Some (s', out) \<and> server_inv rows cols m s'"
proof (cases "move_payload data")
  case (Some ic)
  obtain ident column where ic: "ic = (ident, column)" by (cases ic)
  show ?thesis
  proof (cases "playerRegistry s ident = Some (currentTurn s) \<and> \<not> gameOver s")
    case True
    then obtain b where b: "board s = Some b" using inv by (auto simp: server_inv_def split: option.splits)
    have wf: "wf_board b" using inv b by (simp add: server_inv_def game_ok_def)
    let ?p = "pieceToPlayer (currentTurn s)"
    show ?thesis
    proof (cases "move_error b (column - 1) ?p")
      case None
      obtain b' row where mv: "MakeMove b (column - 1) ?p = Some (b', Inr row)"
        using MakeMove_ok [OF wf None] by blast
      from move_step [OF inv b _ mv] show ?thesis using True Some ic b mv by (auto simp: handleSendMove_def)
    next
      case (Some e)
      then show ?thesis using MakeMove_error [OF wf Some] True \<open>move_payload data = Some ic\<close> ic b inv
        by (simp add: handleSendMove_def)
    qed
  qed (use Some ic inv in \<open>auto simp: handleSendMove_def split: option.splits\<close>)
qed (use inv in \<open>simp add: handleSendMove_def\<close>)

lemma server_step_inv:
  assumes inv: "server_inv rows cols m s" and pos: "0 < rows" "0 < cols" "0 < m"
  shows "\<exists>s' out. server_step s ev = Some (s', out) \<and> server_inv rows cols m s'"
proof (cases ev)
  case (Line c l)
  show ?thesis
  proof (cases "then_do l decode_message")
    case (Some x)
    then show ?thesis
      using connect_step [OF inv pos, of c "msg_Data x"] send_move_step [OF inv, of c "msg_Data x"] Line inv
      by (auto simp: server_step_def handle_line_def)
  qed (use Line inv in \<open>simp add: server_step_def handle_line_def\<close>)
next
  case (Closed c piece)
  have "server_inv rows cols m (release s piece)"
    using inv by (auto simp: server_inv_def maps_ok_def release_def split: option.splits)
  then show ?thesis using Closed by (simp add: server_step_def)
next
  case (ClosedIdle c)
  then show ?thesis using inv by (simp add: server_step_def)
qed

lemma server_reachable_inv:
  assumes "0 < rows" "0 < cols" "0 < m"
  shows "server_reachable rows cols m s \<Longrightarrow> server_inv rows cols m s"
proof (induction rule: server_reachable.induct)
  case server_boot
  show ?case by (simp add: server_inv_def server_start_def maps_ok_def)
next
  case (server_next s ev s' out)
  then show ?case using server_step_inv [OF server_next.IH assms, of ev] by auto
qed

text \<open>No message and no closed connection makes the server panic.\<close>

lemma server_never_panics:
  "0 < rows \<Longrightarrow> 0 < cols \<Longrightarrow> 0 < m \<Longrightarrow> server_reachable rows cols m s \<Longrightarrow> server_step s ev \<noteq> None"
  using server_step_inv server_reachable_inv by fastforce

section \<open>Properties\<close>

text \<open>
  C31. The server ends the game by the rule, when it was started with a positive number of rows and columns
  and a positive \<open>M\<close> (which it does not check itself): whatever lines arrive on whatever connections,
  and whenever connections close, the game is over exactly if a player has \<open>M\<close> pieces in a row or the
  board is full, never do both players have a line, and the next event does not panic.
\<close>

theorem game_over_is_the_rule:
  assumes "0 < rows" and "0 < cols" and "0 < m" and "server_reachable rows cols m s" and "board s = Some b"
  shows "gameOver s = (has_line b Player1 \<or> has_line b Player2 \<or> (\<forall>r c. isValid b r c \<longrightarrow> cell_at b r c \<noteq> Empty)) \<and>
    \<not> (has_line b Player1 \<and> has_line b Player2) \<and> server_step s ev \<noteq> None"
proof -
  have inv: "server_inv rows cols m s" by (rule server_reachable_inv [OF assms(1-4)])
  let ?t = "pieceToPlayer (currentTurn s)"
  have g: "game_ok b (pieceToPlayer (firstPlayer s)) ?t (gameOver s)" using inv assms(5) by (simp add: server_inv_def)
  have "?t = Player1 \<or> ?t = Player2" using g by (auto simp: game_ok_def)
  then show ?thesis
    using g server_never_panics [OF assms(1-4)] by (auto simp: game_ok_def board_full_def split: if_splits)
qed

text \<open>Who moves first.\<close>

lemma first_connect_first:
  assumes "board s0 = None" and "connect_payload data = Some (piece, ident)"
    and "handleSendConnect s0 c data = Some (s1, out)" and "board s1 \<noteq> None"
  shows "firstPlayer s1 = piece \<and> currentTurn s1 = piece"
  using assms by (auto simp: handleSendConnect_def register_player_def Let_def split: if_splits bind_splits)

lemma first_player_stays:
  assumes "server_step s ev = Some (s', out)" and "board s = Some b"
  shows "firstPlayer s' = firstPlayer s"
  using assms
  by (cases ev)
    (auto simp: server_step_def handle_line_def handleSendConnect_def register_player_def handleSendMove_def
      after_move_def release_def Let_def split: if_splits option.splits bind_splits prod.splits sum.splits)

text \<open>After the end neither the board nor the outcome changes.\<close>

lemma over_stays:
  assumes "server_step srv ev = Some (srv', out)" and "gameOver srv" and "board srv = Some b"
  shows "gameOver srv' \<and> board srv' = Some b"
  using assms
  by (cases ev)
    (auto simp: server_step_def handle_line_def handleSendConnect_def register_player_def handleSendMove_def
      release_def Let_def split: if_splits option.splits bind_splits prod.splits)

text \<open>The numbers of pieces tell whose turn it is.\<close>

lemma turn_counts:
  assumes "0 < rows" and "0 < cols" and "0 < m" and "server_reachable rows cols m s" and "board s = Some b"
  shows "firstPlayer s \<in> {''X'', ''O''} \<and> currentTurn s \<in> {''X'', ''O''} \<and>
    (let mine = count_pieces b (pieceToPlayer (firstPlayer s));
         theirs = count_pieces b (pieceToPlayer (other_piece (firstPlayer s)))
     in (mine = theirs \<or> mine = theirs + 1) \<and>
        (\<not> gameOver s \<longrightarrow> (currentTurn s = firstPlayer s \<longleftrightarrow> mine = theirs)) \<and>
        (gameOver s \<longrightarrow> (currentTurn s = firstPlayer s \<longleftrightarrow> mine = theirs + 1)))"
proof -
  have inv: "server_inv rows cols m s" by (rule server_reachable_inv [OF assms(1-4)])
  let ?t = "pieceToPlayer (currentTurn s)" and ?f = "pieceToPlayer (firstPlayer s)"
  have g: "game_ok b ?f ?t (gameOver s)" and t: "firstPlayer s = ''X'' \<or> firstPlayer s = ''O''"
    "currentTurn s = ''X'' \<or> currentTurn s = ''O''" using inv assms(5) by (auto simp: server_inv_def)
  have o: "pieceToPlayer (other_piece (firstPlayer s)) = Player1 + Player2 - ?f" by (rule other_player [OF t(1)])
  have inj: "?t = ?f \<longleftrightarrow> currentTurn s = firstPlayer s" using t by (auto simp: pieceToPlayer_def player_defs)
  show ?thesis
  proof (cases "?t = ?f")
    case True
    then show ?thesis using g t inj unfolding o Let_def by (auto simp: game_ok_def split: if_splits)
  next
    case False
    have tf: "?t = Player1 + Player2 - ?f" "Player1 + Player2 - ?t = ?f"
      using False pieceToPlayer_cases [OF t(1)] pieceToPlayer_cases [OF t(2)] by auto
    then show ?thesis using g t inj False unfolding o Let_def tf(1) [symmetric]
      by (auto simp: game_ok_def split: if_splits)
  qed
qed

text \<open>
  C32. The players move in turn, the first to connect moves first, and nobody moves after the end, when the
  numbers of rows and columns and \<open>M\<close> are positive: on every board the server holds, the first player
  has as many pieces as the other or one more, and while the game runs it is the first player's turn
  exactly if the numbers are equal. The first player is the one whose connection created the board, \<open>X\<close> or
  \<open>O\<close> (\<open>wire_protocol.md\<close> has it that \<open>X\<close> always moves first), and stays it.
\<close>

theorem players_alternate:
  assumes "0 < rows" and "0 < cols" and "0 < m" and "server_reachable rows cols m s" and "board s = Some b"
  shows "firstPlayer s \<in> {''X'', ''O''} \<and> currentTurn s \<in> {''X'', ''O''} \<and>
    (let mine = count_pieces b (pieceToPlayer (firstPlayer s));
         theirs = count_pieces b (pieceToPlayer (other_piece (firstPlayer s)))
     in (mine = theirs \<or> mine = theirs + 1) \<and>
        (\<not> gameOver s \<longrightarrow> (currentTurn s = firstPlayer s \<longleftrightarrow> mine = theirs)) \<and>
        (gameOver s \<longrightarrow> (currentTurn s = firstPlayer s \<longleftrightarrow> mine = theirs + 1))) \<and>
    (\<forall>s0 c data piece ident s1 out.
       board s0 = None \<and> connect_payload data = Some (piece, ident) \<and>
       handleSendConnect s0 c data = Some (s1, out) \<and> board s1 \<noteq> None \<longrightarrow>
       firstPlayer s1 = piece \<and> currentTurn s1 = piece) \<and>
    (\<forall>ev s' out. server_step s ev = Some (s', out) \<longrightarrow>
       firstPlayer s' = firstPlayer s \<and> (gameOver s \<longrightarrow> gameOver s' \<and> board s' = Some b))"
  using turn_counts [OF assms] first_connect_first first_player_stays [OF _ assms(5)] over_stays [OF _ _ assms(5)]
  by blast

section \<open>A game\<close>

fun server_run :: "GameServer \<Rightarrow> server_event list \<Rightarrow> (GameServer \<times> sends) option" where
  "server_run s [] = Some (s, [])"
| "server_run s (ev # evs) =
     (if server_enabled s ev then
        then_do (server_step s ev) (\<lambda>(s1, out). map_option (\<lambda>(s2, out'). (s2, out @ out')) (server_run s1 evs))
      else None)"

lemma server_run_reachable:
  "server_reachable rows cols m s \<Longrightarrow> server_run s evs = Some (s', out) \<Longrightarrow> server_reachable rows cols m s'"
proof (induction evs arbitrary: s out)
  case (Cons ev evs)
  then obtain s1 o1 o2 where "server_enabled s ev" "server_step s ev = Some (s1, o1)" "server_run s1 evs = Some (s', o2)"
    by (auto split: if_splits bind_splits)
  then show ?case using Cons.IH Cons.prems(1) server_next by blast
qed simp

text \<open>X connects and moves, O connects and moves beside it, X moves on top of its own piece and wins.\<close>

definition short_game :: "server_event list" where
  "short_game =
     [Line 1 (Some (sendConnect ''X'' ''a'')), Line 1 (Some (sendMove ''a'' 1)),
      Line 2 (Some (sendConnect ''O'' ''b'')), Line 2 (Some (sendMove ''b'' 2)),
      Line 1 (Some (sendMove ''a'' 1))]"

definition after_game :: GameServer where
  "after_game = fst (the (server_run (server_start 2 2 2) short_game))"

definition final_board :: Board where
  "final_board = the (board after_game)"

lemma after_game_reachable: "server_reachable 2 2 2 after_game" "board after_game = Some final_board"
proof -
  have "map_option (\<lambda>(s, out). length out) (server_run (server_start 2 2 2) short_game) = Some 9" by code_simp
  then show "server_reachable 2 2 2 after_game"
    using server_run_reachable [OF server_boot, of 2 2 2 short_game] by (auto simp: after_game_def)
  have "map_option Rows (board after_game) = Some 2" by code_simp
  then show "board after_game = Some final_board" by (auto simp: final_board_def)
qed

text \<open>O may be the first, and then \<open>first_turn\<close> is not \<open>X\<close>: it is told to both as \<open>O\<close> when nobody has moved.\<close>

lemma O_moves_first:
  "map_option (\<lambda>(s, out). (firstPlayer s, (1, sendNotifyStart ''X'' ''O'' (the (Board_String (the (board s))))) \<in> set out))
     (server_run (server_start 6 7 4)
        [Line 1 (Some (sendConnect ''O'' ''a'')), Line 2 (Some (sendConnect ''X'' ''b''))]) = Some (''O'', True)"
  by code_simp

theorem game_over_is_the_rule_witness:
  "gameOver after_game \<and> (has_line final_board Player1 \<or> has_line final_board Player2)"
proof -
  have "gameOver after_game" "isValid final_board 0 1" "cell_at final_board 0 1 = Empty" by code_simp+
  then show ?thesis
    using game_over_is_the_rule [OF _ _ _ after_game_reachable, of "ClosedIdle 0"] by auto
qed

theorem players_alternate_witness:
  "count_pieces final_board (pieceToPlayer (firstPlayer after_game)) =
   count_pieces final_board (pieceToPlayer (other_piece (firstPlayer after_game))) + 1"
proof -
  have "gameOver after_game" "currentTurn after_game = firstPlayer after_game" by code_simp+
  then show ?thesis using players_alternate [OF _ _ _ after_game_reachable] by (simp add: Let_def)
qed

text \<open>
  A connection that registered both pieces gives back only one of them when it closes; the other stays
  taken although no connection holds it.
\<close>

definition greedy :: "server_event list" where
  "greedy = [Line 1 (Some (sendConnect ''X'' ''a'')), Line 1 (Some (sendConnect ''O'' ''b'')), Closed 1 ''X'']"

lemma slot_leaks:
  "map_option (\<lambda>(s, out). (takenPieces s ''X'', takenPieces s ''O'', playerConns s ''O''))
     (server_run (server_start 6 7 4) greedy) = Some (False, True, Some 1)"
  by code_simp

end
