(* ===== verification/GameClient.thy ===== *)
theory GameClient
  imports GameWire
begin

text \<open>
  The Connect-M client (\<open>hw1/client/main.go\<close>): start-up, the terminal commands, and one handler per
  server message. What the client prints and sends is recorded in its state; \<open>exited\<close> is the status
  of \<open>os.Exit\<close>, after which nothing more is handled; that \<open>main\<close> returns, with status 0, when the connection
  has ended is part of the session (\<open>process_status\<close> in \<open>GameSession\<close>). Diagnostics on stderr are left out.
\<close>

section \<open>State\<close>

record GameClient =
  playerPiece :: string
  clientID :: string
  initialCol :: int
  firstMoveAcked :: bool
  printed :: "string list"
  sent :: "json list"
  exited :: "int option"

definition client_print :: "GameClient \<Rightarrow> string \<Rightarrow> GameClient" where
  "client_print c t = c\<lparr>printed := printed c @ [t]\<rparr>"

definition client_send :: "GameClient \<Rightarrow> json \<Rightarrow> GameClient" where
  "client_send c j = c\<lparr>sent := sent c @ [j]\<rparr>"

definition client_exit :: "GameClient \<Rightarrow> int \<Rightarrow> GameClient" where
  "client_exit c n = c\<lparr>exited := Some n\<rparr>"

definition signalFirstMoveAcked :: "GameClient \<Rightarrow> GameClient" where
  "signalFirstMoveAcked c = c\<lparr>firstMoveAcked := True\<rparr>"

text \<open>
  The start of \<open>main\<close>: \<open>os.Args\<close> has the program first; \<open>dial\<close> gives the local address of the connection
  to a server, \<open>None\<close> if the dialling fails.
\<close>

definition client_start :: "string list \<Rightarrow> (string \<Rightarrow> string option) \<Rightarrow> GameClient" where
  "client_start args dial =
     (let c = \<lparr>playerPiece = '''', clientID = '''', initialCol = 0, firstMoveAcked = False, printed = [],
               sent = [], exited = None\<rparr>
      in if length args < 4 then client_exit c 1
         else
           let c = c\<lparr>playerPiece := args ! 1\<rparr>
           in if playerPiece c \<noteq> ''X'' \<and> playerPiece c \<noteq> ''O'' then client_exit (client_print c ''INVALID'') 1
              else case Atoi (args ! 2) of
                None \<Rightarrow> client_exit (client_print c ''INVALID'') 1
              | Some col \<Rightarrow>
                  let c = c\<lparr>initialCol := col\<rparr>
                  in (case dial (args ! 3) of
                       None \<Rightarrow> client_exit c 1
                     | Some localAddr \<Rightarrow>
                         let c = c\<lparr>clientID := localAddr\<rparr>
                         in client_send c (sendConnect (playerPiece c) (clientID c))))"

section \<open>Terminal input\<close>

definition send_column :: "GameClient \<Rightarrow> string \<Rightarrow> GameClient" where
  "send_column c word =
     (case Atoi word of None \<Rightarrow> c | Some col \<Rightarrow> client_send c (sendMove (clientID c) col))"

definition parseAndSend :: "GameClient \<Rightarrow> string \<Rightarrow> GameClient" where
  "parseAndSend c line =
     (let line = TrimSpace line
      in if line = '''' then c
         else case Fields line of
           [] \<Rightarrow> c
         | cmd # rest \<Rightarrow>
             if ToLower cmd = ''connect'' then
               (case rest of [] \<Rightarrow> c | piece # _ \<Rightarrow> client_send c (sendConnect piece (clientID c)))
             else if ToLower cmd = ''move'' then (case rest of [] \<Rightarrow> c | col # _ \<Rightarrow> send_column c col)
             else send_column c cmd)"

text \<open>The goroutine that reads the terminal; after the last line it waits for \<open>firstMoveAcked\<close>.\<close>

fun client_stdin :: "GameClient \<Rightarrow> string list \<Rightarrow> GameClient" where
  "client_stdin c [] = c"
| "client_stdin c (line # lines) = client_stdin (parseAndSend c line) lines"

section \<open>Messages from the server\<close>

definition handleAckConnect :: "GameClient \<Rightarrow> json option \<Rightarrow> GameClient" where
  "handleAckConnect c data =
     (case ack_connect_payload data of
        None \<Rightarrow> client_exit c 1
      | Some (success, player, reason) \<Rightarrow>
          if \<not> success then client_exit (client_print c ''INVALID'') 1
          else client_send c (sendMove (clientID c) (initialCol c)))"

definition handleNotifyStart :: "GameClient \<Rightarrow> json option \<Rightarrow> GameClient" where
  "handleNotifyStart c data = c"

definition handleAckMove :: "GameClient \<Rightarrow> json option \<Rightarrow> GameClient" where
  "handleAckMove c data =
     (case ack_move_payload data of
        None \<Rightarrow> c
      | Some (st, next, b) \<Rightarrow>
          let c = signalFirstMoveAcked c
          in if st = ''OK'' then client_print c (''OK NEXT '' @ next @ [CHR 0x0A] @ b)
             else if st = ''DRAW'' then client_exit (client_print c (''OK DRAW'' @ [CHR 0x0A] @ b)) 0
             else c)"

definition handleNotifyWin :: "GameClient \<Rightarrow> json option \<Rightarrow> GameClient" where
  "handleNotifyWin c data =
     (case win_payload data of
        None \<Rightarrow> c
      | Some (winner, b) \<Rightarrow>
          client_exit (client_print (signalFirstMoveAcked c) (''OK WIN '' @ winner @ [CHR 0x0A] @ b)) 0)"

definition handleAckInvalid :: "GameClient \<Rightarrow> json option \<Rightarrow> GameClient" where
  "handleAckInvalid c data =
     (case reason_payload data of
        None \<Rightarrow> c
      | Some reason \<Rightarrow>
          let c = signalFirstMoveAcked c
          in if reason = ''game is already over''
             then client_exit (client_print c ''ERROR game is already over, restart the server to play again'') 1
             else client_print c ''INVALID'')"

definition handleNotifyError :: "GameClient \<Rightarrow> json option \<Rightarrow> GameClient" where
  "handleNotifyError c data =
     (case reason_payload data of
        None \<Rightarrow> client_exit c 1
      | Some reason \<Rightarrow> client_exit (client_print c (''ERROR '' @ reason)) 1)"

definition client_dispatch :: "GameClient \<Rightarrow> Message \<Rightarrow> GameClient" where
  "client_dispatch c m =
     (if msg_Type m = ''sc_ack_connect'' then handleAckConnect c (msg_Data m)
      else if msg_Type m = ''sc_notify_start'' then handleNotifyStart c (msg_Data m)
      else if msg_Type m = ''sc_ack_move'' then handleAckMove c (msg_Data m)
      else if msg_Type m = ''sc_notify_win'' then handleNotifyWin c (msg_Data m)
      else if msg_Type m = ''sc_ack_invalid'' then handleAckInvalid c (msg_Data m)
      else if msg_Type m = ''sc_notify_error'' then handleNotifyError c (msg_Data m)
      else c)"

text \<open>\<open>handleMessages\<close>, one line at a time, until the process exits.\<close>

fun client_messages :: "GameClient \<Rightarrow> json option list \<Rightarrow> GameClient" where
  "client_messages c [] = c"
| "client_messages c (line # lines) =
     (if exited c \<noteq> None then c
      else case then_do line decode_message of
        None \<Rightarrow> client_messages c lines
      | Some m \<Rightarrow> client_messages (client_dispatch c m) lines)"

section \<open>The client against the server's messages\<close>

lemma client_receives:
  assumes "arrives j t parse p" and "exited c = None"
  shows "\<exists>d. parse d = Some p \<and>
    client_messages c [Some j] = client_dispatch c \<lparr>msg_Type = t, msg_Data = d\<rparr>"
  using assms by (auto simp: arrives_def)

text \<open>What the user sees for each message the server may send.\<close>

lemma client_shows:
  assumes "exited c = None"
  shows "client_messages c [Some (sendAckMove ''OK'' n b)] =
      client_print (signalFirstMoveAcked c) (''OK NEXT '' @ n @ [CHR 0x0A] @ b)"
    and "client_messages c [Some (sendAckMove ''DRAW'' n b)] =
      client_exit (client_print (signalFirstMoveAcked c) (''OK DRAW'' @ [CHR 0x0A] @ b)) 0"
    and "client_messages c [Some (sendNotifyWin w b)] =
      client_exit (client_print (signalFirstMoveAcked c) (''OK WIN '' @ w @ [CHR 0x0A] @ b)) 0"
    and "client_messages c [Some (sendAckConnect True p r)] = client_send c (sendMove (clientID c) (initialCol c))"
    and "client_messages c [Some (sendAckConnect False p r)] = client_exit (client_print c ''INVALID'') 1"
    and "r \<noteq> ''game is already over'' \<Longrightarrow> client_messages c [Some (sendAckInvalid r)] =
      client_print (signalFirstMoveAcked c) ''INVALID''"
  using client_receives [OF to_client_roundtrips(2) assms, of "''OK''" n b]
    client_receives [OF to_client_roundtrips(2) assms, of "''DRAW''" n b]
    client_receives [OF to_client_roundtrips(3) assms, of w b]
    client_receives [OF to_client_roundtrips(1) assms, of True p r]
    client_receives [OF to_client_roundtrips(1) assms, of False p r]
    client_receives [OF to_client_roundtrips(4) assms, of r]
  by (auto simp: client_dispatch_def handleAckMove_def handleNotifyWin_def handleAckConnect_def
      handleAckInvalid_def Let_def)

text \<open>Splitting a trimmed line that is not empty gives at least one word.\<close>

lemma fields_nonempty: "(\<exists>x \<in> set line. \<not> ascii_space x) \<Longrightarrow> Fields line \<noteq> []"
  using FieldsFunc_concat [of ascii_space line] filter_empty_conv [of "\<lambda>x. \<not> ascii_space x" line]
  by (metis Fields_def concat.simps(1))

lemma TrimSpace_last:
  assumes "TrimSpace s \<noteq> []"
  shows "\<not> ascii_space (last (TrimSpace s))"
proof -
  let ?d = "dropWhile ascii_space (rev (dropWhile ascii_space s))"
  have "?d \<noteq> []" using assms by (simp add: TrimSpace_def)
  then have "\<not> ascii_space (hd ?d)" by (rule hd_dropWhile)
  then show ?thesis by (simp add: TrimSpace_def last_rev)
qed

lemma command_line_words: "TrimSpace s \<noteq> [] \<Longrightarrow> Fields (TrimSpace s) \<noteq> []"
  using fields_nonempty TrimSpace_last last_in_set by blast

end
