(* ===== verification/GameSession.thy ===== *)
theory GameSession
  imports GameServerTheorems GameClient "HOL-Library.Sublist"
begin

text \<open>
  A session of Connect-M: the server, any number of client processes, and the lines in flight between
  them. A connection carries the lines of a client to the server in order. The lines to a client may
  overtake each other, because the server broadcasts after it has released the mutex. A client ends with
  \<open>os.Exit\<close>, or because its \<open>main\<close> returns: when its terminal input has ended it closes its connection
  itself, and at any time the connection may break or bring a line the scanner does not take.
\<close>

section \<open>State and events\<close>

text \<open>
  \<open>ss_eof\<close>: the terminal input has ended; \<open>ss_hung\<close>: \<open>handleMessages\<close> has ended, \<open>main\<close> has returned and the
  connection is closed.
\<close>

record session =
  ss_server :: GameServer
  ss_client :: "conn \<Rightarrow> GameClient option"
  ss_up :: "conn \<Rightarrow> json list"
  ss_down :: "(conn \<times> json) list"
  ss_eof :: "conn set"
  ss_hung :: "conn set"
  ss_gone :: "conn set"

datatype session_event =
    Joins conn "string list" string
  | Types conn string
  | InputEnds conn
  | HangsUp conn
  | LosesServer conn
  | Reads conn
  | Hears conn nat
  | Notices conn string

definition session_start :: "int \<Rightarrow> int \<Rightarrow> int \<Rightarrow> session" where
  "session_start rows cols m =
     \<lparr>ss_server = server_start rows cols m, ss_client = (\<lambda>_. None), ss_up = (\<lambda>_. []), ss_down = [],
      ss_eof = {}, ss_hung = {}, ss_gone = {}\<rparr>"

text \<open>The client process of a connection, while it runs.\<close>

definition active :: "session \<Rightarrow> conn \<Rightarrow> GameClient option" where
  "active s c =
     (case ss_client s c of
        None \<Rightarrow> None
      | Some cl \<Rightarrow> if exited cl = None \<and> c \<notin> ss_hung s then Some cl else None)"

text \<open>The exit status of a client process: that of \<open>os.Exit\<close>, or 0 when \<open>main\<close> has returned.\<close>

definition process_status :: "session \<Rightarrow> conn \<Rightarrow> int option" where
  "process_status s c =
     (case ss_client s c of
        None \<Rightarrow> None
      | Some cl \<Rightarrow> if exited cl = None \<and> c \<in> ss_hung s then Some 0 else exited cl)"

text \<open>A step of a client: what it has sent since goes on the wire.\<close>

definition client_acts :: "session \<Rightarrow> conn \<Rightarrow> GameClient \<Rightarrow> GameClient \<Rightarrow> session" where
  "client_acts s c cl cl' =
     s\<lparr>ss_client := (ss_client s)(c \<mapsto> cl'),
       ss_up := (ss_up s)(c := ss_up s c @ drop (length (sent cl)) (sent cl'))\<rparr>"

text \<open>\<open>None\<close>: the event cannot happen, or it makes the server panic.\<close>

fun session_fire :: "session \<Rightarrow> session_event \<Rightarrow> session option" where
  "session_fire s (Joins c args addr) =
     (if ss_client s c \<noteq> None then None
      else let cl = client_start args (\<lambda>_. Some addr)
           in Some (s\<lparr>ss_client := (ss_client s)(c \<mapsto> cl), ss_up := (ss_up s)(c := sent cl)\<rparr>))"
| "session_fire s (Types c line) =
     (if c \<in> ss_eof s then None
      else then_do (active s c) (\<lambda>cl. Some (client_acts s c cl (parseAndSend cl line))))"
| "session_fire s (InputEnds c) = then_do (active s c) (\<lambda>cl. Some (s\<lparr>ss_eof := insert c (ss_eof s)\<rparr>))"
| "session_fire s (HangsUp c) =
     then_do (active s c) (\<lambda>cl.
       if c \<in> ss_eof s \<and> firstMoveAcked cl then Some (s\<lparr>ss_hung := insert c (ss_hung s)\<rparr>) else None)"
| "session_fire s (LosesServer c) = then_do (active s c) (\<lambda>cl. Some (s\<lparr>ss_hung := insert c (ss_hung s)\<rparr>))"
| "session_fire s (Reads c) =
     (case ss_up s c of
        [] \<Rightarrow> None
      | j # js \<Rightarrow>
          then_do (server_step (ss_server s) (Line c (Some j))) (\<lambda>(srv, out).
            Some (s\<lparr>ss_server := srv, ss_up := (ss_up s)(c := js), ss_down := ss_down s @ out\<rparr>)))"
| "session_fire s (Hears c k) =
     then_do (active s c) (\<lambda>cl.
       if k < length (ss_down s) \<and> fst (ss_down s ! k) = c then
         Some ((client_acts s c cl (client_messages cl [Some (snd (ss_down s ! k))]))
           \<lparr>ss_down := take k (ss_down s) @ drop (Suc k) (ss_down s)\<rparr>)
       else None)"
| "session_fire s (Notices c piece) =
     (if ss_client s c = None \<or> active s c \<noteq> None \<or> ss_up s c \<noteq> [] \<or> c \<in> ss_gone s then None
      else
        let ev = (if playerConns (ss_server s) ''X'' \<noteq> Some c \<and> playerConns (ss_server s) ''O'' \<noteq> Some c
                  then ClosedIdle c else Closed c piece)
        in if \<not> server_enabled (ss_server s) ev then None
           else then_do (server_step (ss_server s) ev) (\<lambda>(srv, out).
             Some (s\<lparr>ss_server := srv, ss_gone := insert c (ss_gone s)\<rparr>)))"

inductive session_reachable :: "int \<Rightarrow> int \<Rightarrow> int \<Rightarrow> session \<Rightarrow> bool" for rows cols m where
  session_boot: "session_reachable rows cols m (session_start rows cols m)"
| session_next: "session_reachable rows cols m s \<Longrightarrow> session_fire s ev = Some s' \<Longrightarrow> session_reachable rows cols m s'"

fun session_run :: "session \<Rightarrow> session_event list \<Rightarrow> session option" where
  "session_run s [] = Some s"
| "session_run s (ev # evs) = then_do (session_fire s ev) (\<lambda>s'. session_run s' evs)"

lemma session_run_reachable:
  "session_run s evs = Some s' \<Longrightarrow> session_reachable rows cols m s \<Longrightarrow> session_reachable rows cols m s'"
  by (induction evs arbitrary: s) (auto split: bind_splits intro: session_next)

text \<open>
  The arguments are not checked further: with a negative number of rows the server starts, and the first
  player to connect makes it panic; with none, every move is refused.
\<close>

definition first_connect :: "session_event list" where
  "first_connect = [Joins 1 [''client'', ''X'', ''1'', ''addr''] ''a'', Reads 1]"

lemma negative_rows_panic:
  "map_sum id (\<lambda>(srv, banner). (boardRows srv, session_run (session_start (boardRows srv) 2 2) first_connect = None))
     (server_main (\<lambda>_. None) [''server'', ''8080'', ''-1'', ''2'', ''2'']) = Inr (-1, True)"
  by code_simp

lemma no_rows_refuse:
  "map_option (\<lambda>s. ss_down s) (session_run (session_start 0 2 2) (first_connect @ [Hears 1 0, Reads 1])) =
     Some [(1, sendAckInvalid ''column is full'')]"
  by code_simp

section \<open>The outcome of a game\<close>

text \<open>What a client has to print at the end, by the rule of the game on the server's board.\<close>

definition outcome_line :: "Board \<Rightarrow> string \<Rightarrow> string" where
  "outcome_line b t =
     (if has_line b Player1 then ''OK WIN X'' @ [CHR 0x0A] @ t
      else if has_line b Player2 then ''OK WIN O'' @ [CHR 0x0A] @ t
      else ''OK DRAW'' @ [CHR 0x0A] @ t)"

definition decided :: "GameServer \<Rightarrow> string \<Rightarrow> bool" where
  "decided srv l \<longleftrightarrow>
     gameOver srv \<and> (\<exists>b t. board srv = Some b \<and> Board_String b = Some t \<and> l = outcome_line b t)"

text \<open>The messages of the server; those that end the game tell its outcome.\<close>

definition truthful :: "GameServer \<Rightarrow> json \<Rightarrow> bool" where
  "truthful srv j \<longleftrightarrow>
     (\<exists>ok p r. j = sendAckConnect ok p r) \<or> (\<exists>q t b. j = sendNotifyStart q t b) \<or>
     (\<exists>n b. j = sendAckMove ''OK'' n b) \<or> (\<exists>r. j = sendAckInvalid r) \<or>
     (\<exists>b. j = sendAckMove ''DRAW'' '''' b \<and> decided srv (''OK DRAW'' @ [CHR 0x0A] @ b)) \<or>
     (\<exists>w b. j = sendNotifyWin w b \<and> decided srv (''OK WIN '' @ w @ [CHR 0x0A] @ b))"

lemma truthful_plain [simp]:
  "truthful srv (sendAckConnect ok p r)" "truthful srv (sendNotifyStart q t b)"
  "truthful srv (sendAckMove ''OK'' n b)" "truthful srv (sendAckInvalid r)"
  unfolding truthful_def by blast+

lemma truthful_draw: "decided srv (''OK DRAW'' @ [CHR 0x0A] @ b) \<Longrightarrow> truthful srv (sendAckMove ''DRAW'' '''' b)"
  unfolding truthful_def by blast

lemma truthful_win: "decided srv (''OK WIN '' @ w @ [CHR 0x0A] @ b) \<Longrightarrow> truthful srv (sendNotifyWin w b)"
  unfolding truthful_def by blast

lemma decided_stays: "server_step srv ev = Some (srv', out) \<Longrightarrow> decided srv l \<Longrightarrow> decided srv' l"
  unfolding decided_def using over_stays by blast

lemma truthful_stays: "server_step srv ev = Some (srv', out) \<Longrightarrow> truthful srv j \<Longrightarrow> truthful srv' j"
  unfolding truthful_def using decided_stays by blast

section \<open>What the server sends\<close>

lemma connect_truthful:
  "handleSendConnect srv c data = Some (srv', out) \<Longrightarrow> (d, j) \<in> set out \<Longrightarrow> truthful srv' j"
  by (auto simp: handleSendConnect_def notify_start_def
      split: if_splits option.splits bind_splits prod.splits)

lemma broadcast_set: "(c, j) \<in> set (broadcast msg conns) \<Longrightarrow> j = msg"
  by (auto simp: broadcast_def)

lemma winner_line:
  assumes "currentTurn srv = ''X'' \<or> currentTurn srv = ''O''" and "has_line b (pieceToPlayer (currentTurn srv))"
    and "\<not> has_line b (Player1 + Player2 - pieceToPlayer (currentTurn srv))"
  shows "outcome_line b t = ''OK WIN '' @ currentTurn srv @ [CHR 0x0A] @ t"
  using assms by (auto simp: outcome_line_def pieceToPlayer_def player_defs)

lemma draw_line:
  assumes "p \<in> {Player1, Player2}" and "\<not> has_line b p" and "\<not> has_line b (Player1 + Player2 - p)"
  shows "outcome_line b t = ''OK DRAW'' @ [CHR 0x0A] @ t"
  using assms by (auto simp: outcome_line_def player_defs)

lemma after_move_truthful:
  assumes inv: "server_inv rows cols m srv" and b: "board srv = Some b" and over: "\<not> gameOver srv"
    and mv: "MakeMove b col (pieceToPlayer (currentTurn srv)) = Some (b', Inr row)"
    and am: "after_move (srv\<lparr>board := Some b'\<rparr>) b' (currentTurn srv) = Some (srv', out)" and j: "(c, j) \<in> set out"
  shows "truthful srv' j"
proof -
  let ?p = "pieceToPlayer (currentTurn srv)"
  obtain s o' where mvs: "after_move (srv\<lparr>board := Some b'\<rparr>) b' (currentTurn srv) = Some (s, o')"
    "server_inv rows cols m s" "board s = Some b'" "gameOver s = (has_line b' ?p \<or> board_full b')"
    using move_step [OF inv b over mv] by blast
  have ok: "game_ok b (pieceToPlayer (firstPlayer srv)) ?p False"
    and turn: "currentTurn srv = ''X'' \<or> currentTurn srv = ''O''"
    using inv b over by (auto simp: server_inv_def)
  note g = move_game_ok [OF ok mv]
  obtain t where t: "Board_String b' = Some t" using am by (auto simp: after_move_def split: bind_splits)
  have pp: "?p \<in> {Player1, Player2}" using pieceToPlayer_cases [OF turn] by auto
  have none: "\<not> has_line b' (Player1 + Player2 - ?p)" if "has_line b' ?p \<or> board_full b'"
    using g(3) [OF that] by (simp add: game_ok_def)
  show ?thesis
  proof (cases "has_line b' ?p")
    case True
    then have r: "srv' = srv\<lparr>board := Some b', gameOver := True\<rparr>" "j = sendNotifyWin (currentTurn srv) t"
      using am t g(1) j broadcast_set by (auto simp: after_move_def Let_def)
    have "decided srv' (''OK WIN '' @ currentTurn srv @ [CHR 0x0A] @ t)"
      using r(1) t winner_line [OF turn True none] True by (auto simp: decided_def)
    then show ?thesis using r(2) truthful_win by simp
  next
    case nl: False
    show ?thesis
    proof (cases "board_full b'")
      case True
      then have r: "srv' = srv\<lparr>board := Some b', gameOver := True\<rparr>" "j = sendAckMove ''DRAW'' '''' t"
        using am t g(1,2) j nl broadcast_set by (auto simp: after_move_def Let_def)
      have "decided srv' (''OK DRAW'' @ [CHR 0x0A] @ t)"
        using r(1) t draw_line [OF pp nl none] True by (auto simp: decided_def)
      then show ?thesis using r(2) truthful_draw by simp
    next
      case False
      then have "j = sendAckMove ''OK'' (other_piece (currentTurn srv)) t"
        using am t g(1,2) j nl broadcast_set by (auto simp: after_move_def Let_def)
      then show ?thesis by simp

    qed
  qed
qed

lemma move_truthful:
  assumes inv: "server_inv rows cols m srv" and h: "handleSendMove srv c data = Some (srv', out)"
    and j: "(d, j) \<in> set out"
  shows "truthful srv' j"
proof (cases "\<exists>r. j = sendAckInvalid r")
  case True
  then show ?thesis by auto
next
  case False
  obtain b b' col row where b: "board srv = Some b" "\<not> gameOver srv"
    "MakeMove b col (pieceToPlayer (currentTurn srv)) = Some (b', Inr row)"
    "after_move (srv\<lparr>board := Some b'\<rparr>) b' (currentTurn srv) = Some (srv', out)"
    using h j False
    by (auto simp: handleSendMove_def split: if_splits option.splits bind_splits prod.splits sum.splits)
  show ?thesis by (rule after_move_truthful [OF inv b j])
qed

lemma step_truthful:
  assumes "server_inv rows cols m srv" and "server_step srv ev = Some (srv', out)" and "(d, j) \<in> set out"
  shows "truthful srv' j"
  using assms connect_truthful [of srv _ _ srv' out d j] move_truthful [OF assms(1), of _ _ srv' out d j]
  by (cases ev) (auto simp: server_step_def handle_line_def split: option.splits if_splits)

section \<open>What the clients print\<close>

text \<open>The terminal neither prints an outcome nor ends the process.\<close>

lemma parseAndSend_frame: "exited (parseAndSend cl line) = exited cl \<and> printed (parseAndSend cl line) = printed cl"
  by (auto simp: parseAndSend_def send_column_def client_send_def Let_def split: list.splits option.splits)

text \<open>
  A client that the end of the game makes exit has just printed the outcome; no client has printed one
  without exiting.
\<close>

definition tells_outcome :: "string \<Rightarrow> bool" where
  "tells_outcome l \<longleftrightarrow> prefix ''OK WIN '' l \<or> prefix ''OK DRAW'' l"

definition quiet :: "string list \<Rightarrow> bool" where
  "quiet ls \<longleftrightarrow> (\<forall>l \<in> set ls. \<not> tells_outcome l)"

lemma quiet_simps [simp]:
  "quiet []" "quiet (ls @ [l]) = (quiet ls \<and> \<not> tells_outcome l)"
  by (auto simp: quiet_def)

lemma tells_outcome_simps [simp]:
  "tells_outcome (''OK WIN '' @ t)" "tells_outcome (''OK DRAW'' @ t)" "\<not> tells_outcome (''OK NEXT '' @ t)"
  "\<not> tells_outcome ''INVALID''" "\<not> tells_outcome (''ERROR '' @ t)"
  by (simp_all add: tells_outcome_def)

lemma outcome_line_tells: "tells_outcome (outcome_line b t)"
  by (simp add: outcome_line_def tells_outcome_def)

definition reports :: "GameServer \<Rightarrow> GameClient \<Rightarrow> bool" where
  "reports srv cl \<longleftrightarrow>
     (if exited cl = Some 0
      then printed cl \<noteq> [] \<and> decided srv (last (printed cl)) \<and> quiet (butlast (printed cl))
      else quiet (printed cl))"

lemma reports_running: "exited cl = None \<Longrightarrow> reports srv cl = quiet (printed cl)"
  by (simp add: reports_def)

lemma start_reports: "reports srv (client_start args (\<lambda>_. Some addr))"
  by (auto simp: reports_def client_start_def client_exit_def client_print_def client_send_def quiet_def
      tells_outcome_def Let_def split: option.splits)

lemma start_is_silent:
  assumes "exited cl = None"
  shows "client_messages cl [Some (sendNotifyStart q t b)] = cl"
  using client_receives [OF to_client_roundtrips(6) assms, of t q b] assms
  by (auto simp: client_dispatch_def handleNotifyStart_def simp del: client_messages.simps)

lemma invalid_reports:
  assumes "exited cl = None" and "quiet (printed cl)"
  shows "reports srv (client_messages cl [Some (sendAckInvalid r)])"
  using client_receives [OF to_client_roundtrips(4) assms(1), of r] assms
  by (auto simp: client_dispatch_def handleAckInvalid_def client_exit_def client_print_def reports_def
      tells_outcome_def signalFirstMoveAcked_def Let_def simp del: client_messages.simps split: if_splits)

lemma hears_reports:
  assumes "exited cl = None" and "truthful srv j" and "reports srv cl"
  shows "reports srv (client_messages cl [Some j])"
proof -
  have q: "quiet (printed cl)" using assms(1,3) by (simp add: reports_running)
  note sh = client_shows [OF assms(1)] client_exit_def client_print_def client_send_def signalFirstMoveAcked_def
  consider ok p r where "j = sendAckConnect ok p r" | q t b where "j = sendNotifyStart q t b"
    | n b where "j = sendAckMove ''OK'' n b" | r where "j = sendAckInvalid r"
    | b where "j = sendAckMove ''DRAW'' '''' b" "decided srv (''OK DRAW'' @ [CHR 0x0A] @ b)"
    | w b where "j = sendNotifyWin w b" "decided srv (''OK WIN '' @ w @ [CHR 0x0A] @ b)"
    using assms(2) unfolding truthful_def by blast
  then show ?thesis
  proof cases
    case (1 ok p r)
    then show ?thesis using q assms(1)
      by (cases ok) (simp_all add: sh reports_def tells_outcome_def del: client_messages.simps)
  qed (use q assms(1,3) invalid_reports [OF assms(1) q] start_is_silent [OF assms(1)] in
    \<open>simp_all add: sh reports_def tells_outcome_def del: client_messages.simps\<close>)
qed

section \<open>The invariant of a session\<close>

definition session_inv :: "int \<Rightarrow> int \<Rightarrow> int \<Rightarrow> session \<Rightarrow> bool" where
  "session_inv rows cols m s \<longleftrightarrow>
     server_inv rows cols m (ss_server s) \<and> (\<forall>(c, j) \<in> set (ss_down s). truthful (ss_server s) j) \<and>
     (\<forall>c cl. ss_client s c = Some cl \<longrightarrow> reports (ss_server s) cl) \<and>
     (\<forall>c \<in> ss_hung s. \<exists>cl. ss_client s c = Some cl \<and> exited cl = None)"

lemma server_moves_session:
  assumes "session_inv rows cols m s" and "0 < rows" "0 < cols" "0 < m"
    and "server_step (ss_server s) ev = Some (srv, out)"
  shows "session_inv rows cols m (s\<lparr>ss_server := srv, ss_down := ss_down s @ out\<rparr>)"
proof -
  have inv: "server_inv rows cols m (ss_server s)" using assms(1) by (simp add: session_inv_def)
  have "server_inv rows cols m srv" using server_step_inv [OF inv assms(2-4), of ev] assms(5) by auto
  moreover have "\<And>c j. (c, j) \<in> set (ss_down s) \<Longrightarrow> truthful srv j"
    using assms(1) truthful_stays [OF assms(5)] by (auto simp: session_inv_def)
  moreover have "\<And>c cl. ss_client s c = Some cl \<Longrightarrow> reports srv cl"
    using assms(1) decided_stays [OF assms(5)] by (auto simp: session_inv_def reports_def split: if_splits)
  moreover have "\<And>c. c \<in> ss_hung s \<Longrightarrow> \<exists>cl. ss_client s c = Some cl \<and> exited cl = None"
    using assms(1) by (simp add: session_inv_def)
  ultimately show ?thesis using step_truthful [OF inv assms(5)] by (auto simp: session_inv_def)
qed

lemma session_inv_clients:
  assumes "session_inv rows cols m s" and "reports (ss_server s) cl" and "c \<notin> ss_hung s" and "set down \<subseteq> set (ss_down s)"
  shows "session_inv rows cols m (s\<lparr>ss_client := (ss_client s)(c \<mapsto> cl), ss_up := up, ss_down := down\<rparr>)"
  using assms by (auto simp: session_inv_def)

lemma session_inv_frame:
  assumes "session_inv rows cols m s" and "ss_server s' = ss_server s" and "ss_down s' = ss_down s"
    and "ss_client s' = ss_client s" and "ss_hung s' = ss_hung s"
  shows "session_inv rows cols m s'"
  using assms by (simp add: session_inv_def)

lemma session_inv_hung:
  assumes "session_inv rows cols m s" and "active s c = Some cl"
  shows "session_inv rows cols m (s\<lparr>ss_hung := insert c (ss_hung s)\<rparr>)"
  using assms by (auto simp: session_inv_def active_def split: option.splits if_splits)

lemma active_client: "active s c = Some cl \<Longrightarrow> ss_client s c = Some cl \<and> exited cl = None \<and> c \<notin> ss_hung s"
  by (auto simp: active_def split: option.splits if_splits)

lemma session_fire_inv:
  assumes inv: "session_inv rows cols m s" and pos: "0 < rows" "0 < cols" "0 < m"
    and f: "session_fire s ev = Some s'"
  shows "session_inv rows cols m s'"
proof (cases ev)
  case (Joins c args addr)
  then have "ss_client s c = None" using f by (auto split: if_splits)
  then have "c \<notin> ss_hung s" using inv by (auto simp: session_inv_def)
  from session_inv_clients [OF inv start_reports this, of "ss_down s"] show ?thesis
    using f Joins by (auto simp: Let_def split: if_splits)
next
  case (Types c line)
  then obtain cl where cl: "active s c = Some cl" "s' = client_acts s c cl (parseAndSend cl line)"
    using f by (auto split: if_splits bind_splits)
  have "reports (ss_server s) (parseAndSend cl line)"
    using active_client [OF cl(1)] inv by (auto simp: reports_def session_inv_def parseAndSend_frame)
  from session_inv_clients [OF inv this, of c "ss_down s"] show ?thesis
    using active_client [OF cl(1)] cl(2) by (simp add: client_acts_def)
next
  case (InputEnds c)
  then show ?thesis using f by (auto intro!: session_inv_frame [OF inv] split: bind_splits)
next
  case (HangsUp c)
  then show ?thesis using f by (auto intro: session_inv_hung [OF inv] split: bind_splits if_splits)
next
  case (LosesServer c)
  then show ?thesis using f by (auto intro: session_inv_hung [OF inv] split: bind_splits)
next
  case (Reads c)
  then obtain j js srv out where r: "server_step (ss_server s) (Line c (Some j)) = Some (srv, out)"
    "s' = s\<lparr>ss_server := srv, ss_up := (ss_up s)(c := js), ss_down := ss_down s @ out\<rparr>"
    using f by (auto split: bind_splits list.splits)
  from server_moves_session [OF inv pos r(1)] show ?thesis
    by (rule session_inv_frame) (simp_all add: r(2))
next
  case (Hears c k)
  then obtain cl where cl: "active s c = Some cl" "k < length (ss_down s)"
    "s' = (client_acts s c cl (client_messages cl [Some (snd (ss_down s ! k))]))
      \<lparr>ss_down := take k (ss_down s) @ drop (Suc k) (ss_down s)\<rparr>"
    using f by (auto split: bind_splits if_splits)
  have "truthful (ss_server s) (snd (ss_down s ! k))"
    using inv nth_mem [OF cl(2)] by (fastforce simp: session_inv_def case_prod_beta)
  with active_client [OF cl(1)] have "reports (ss_server s) (client_messages cl [Some (snd (ss_down s ! k))])"
    using inv by (intro hears_reports) (auto simp: session_inv_def)
  from session_inv_clients [OF inv this, of c "take k (ss_down s) @ drop (Suc k) (ss_down s)"] show ?thesis
    using active_client [OF cl(1)] cl(3) set_take_subset [of k "ss_down s"] set_drop_subset [of "Suc k" "ss_down s"]
    by (simp add: client_acts_def)
next
  case (Notices c piece)
  define ev' where "ev' = (if playerConns (ss_server s) ''X'' \<noteq> Some c \<and> playerConns (ss_server s) ''O'' \<noteq> Some c
    then ClosedIdle c else Closed c piece)"
  obtain srv out where r: "server_step (ss_server s) ev' = Some (srv, out)"
    "s' = s\<lparr>ss_server := srv, ss_gone := insert c (ss_gone s)\<rparr>"
    using f unfolding Notices session_fire.simps Let_def ev'_def [symmetric] by (auto split: if_splits bind_splits)
  then have "out = []" by (auto simp: server_step_def ev'_def split: if_splits)
  from server_moves_session [OF inv pos r(1)] show ?thesis
    by (rule session_inv_frame) (simp_all add: r(2) \<open>out = []\<close>)
qed

lemma session_reachable_inv:
  assumes "0 < rows" "0 < cols" "0 < m"
  shows "session_reachable rows cols m s \<Longrightarrow> session_inv rows cols m s"
proof (induction rule: session_reachable.induct)
  case session_boot
  show ?case by (simp add: session_inv_def session_start_def server_inv_def server_start_def maps_ok_def)
next
  case (session_next s ev s')
  show ?case by (rule session_fire_inv [OF session_next.IH assms session_next.hyps(2)])
qed

text \<open>Who has told an outcome, and which.\<close>

lemma decided_unique: "decided srv l \<Longrightarrow> decided srv l' \<Longrightarrow> l = l'"
  by (auto simp: decided_def)

lemma telling:
  assumes "reports srv cl" and "l \<in> set (printed cl)" and "tells_outcome l"
  shows "exited cl = Some 0 \<and> quiet (butlast (printed cl)) \<and> l = last (printed cl) \<and> decided srv l"
proof -
  have ex: "exited cl = Some 0" using assms by (auto simp: reports_def quiet_def split: if_splits)
  then have "l \<notin> set (butlast (printed cl))" "printed cl \<noteq> []" using assms by (auto simp: reports_def quiet_def)
  then have "l = last (printed cl)"
    using assms(2) by (metis append_butlast_last_id in_set_conv_decomp_last rotate1.simps(2) set_ConsD set_rotate1)
  then show ?thesis using ex assms(1) by (simp add: reports_def)
qed

lemma exited_tells:
  assumes "reports srv cl" and "exited cl = Some 0"
  shows "\<exists>l \<in> set (printed cl). tells_outcome l"
  using assms last_in_set outcome_line_tells by (force simp: reports_def decided_def)

section \<open>Properties\<close>

text \<open>
  C27. The players are told the truth, whatever is typed, however the lines are delayed or overtake each
  other and whenever clients leave or lose their connection, on a server with a positive number of rows
  and columns and a positive \<open>M\<close>. A client process that ends with status 0 has told an outcome, unless it
  ended because \<open>main\<close> returned: its user's input had ended, or the connection broke. Only a process that
  \<open>os.Exit(0)\<close> has ended has told one, once and as its last line, the game is then over on the server,
  and the line is the outcome by the rule of the game with the server's final board; so every other
  client that has told an outcome has told the same.
\<close>

theorem clients_agree_on_outcome:
  assumes "0 < rows" and "0 < cols" and "0 < m" and "session_reachable rows cols m s"
    and "ss_client s c = Some cl"
  shows "(process_status s c = Some 0 \<longrightarrow>
       c \<in> ss_hung s \<and> exited cl = None \<or> (\<exists>l \<in> set (printed cl). tells_outcome l)) \<and>
    (\<forall>l \<in> set (printed cl). tells_outcome l \<longrightarrow>
       exited cl = Some 0 \<and> c \<notin> ss_hung s \<and> quiet (butlast (printed cl)) \<and> l = last (printed cl) \<and>
       gameOver (ss_server s) \<and>
       (\<exists>b t. board (ss_server s) = Some b \<and> Board_String b = Some t \<and>
          (has_line b Player1 \<or> has_line b Player2 \<or> board_full b) \<and> l = outcome_line b t) \<and>
       (\<forall>c' cl'. ss_client s c' = Some cl' \<longrightarrow> (\<forall>l' \<in> set (printed cl'). tells_outcome l' \<longrightarrow> l' = l)))"
proof -
  have inv: "session_inv rows cols m s" by (rule session_reachable_inv [OF assms(1-4)])
  have told: "exited cl' = Some 0 \<and> quiet (butlast (printed cl')) \<and> l = last (printed cl') \<and> decided (ss_server s) l"
    if "ss_client s c' = Some cl'" "l \<in> set (printed cl')" "tells_outcome l" for c' cl' l
    using inv that by (intro telling) (auto simp: session_inv_def)
  have silent: "\<exists>l \<in> set (printed cl). tells_outcome l" if "exited cl = Some 0"
    using inv that assms(5) by (intro exited_tells) (auto simp: session_inv_def)
  have hung: "c \<in> ss_hung s \<Longrightarrow> exited cl = None" using inv assms(5) by (auto simp: session_inv_def)
  have over: "has_line b Player1 \<or> has_line b Player2 \<or> board_full b"
    if "gameOver (ss_server s)" "board (ss_server s) = Some b" for b
    using inv that by (auto simp: session_inv_def server_inv_def game_ok_def)
  show ?thesis
  proof (intro conjI impI ballI)
    show "c \<in> ss_hung s \<and> exited cl = None \<or> (\<exists>l \<in> set (printed cl). tells_outcome l)"
      if "process_status s c = Some 0"
      using that silent assms(5) by (auto simp: process_status_def split: if_splits)
  next
    fix l assume l: "l \<in> set (printed cl)" "tells_outcome l"
    note t = told [OF assms(5) l]
    then show "exited cl = Some 0" "c \<notin> ss_hung s" "quiet (butlast (printed cl))" "l = last (printed cl)"
      "gameOver (ss_server s)" using hung by (auto simp: decided_def)
    show "\<exists>b t. board (ss_server s) = Some b \<and> Board_String b = Some t \<and>
        (has_line b Player1 \<or> has_line b Player2 \<or> board_full b) \<and> l = outcome_line b t"
      using t over unfolding decided_def by blast
    show "\<forall>c' cl'. ss_client s c' = Some cl' \<longrightarrow> (\<forall>l' \<in> set (printed cl'). tells_outcome l' \<longrightarrow> l' = l)"
      using t told decided_unique by blast
  qed
qed

section \<open>Sessions\<close>

text \<open>
  Two clients play on a board of two by two with connect-2. X moves first and last, O in between; both
  hear the end.
\<close>

definition two_players :: "session_event list" where
  "two_players =
     [Joins 1 [''client'', ''X'', ''1'', ''addr''] ''a'', Reads 1, Hears 1 0, Reads 1, Hears 1 0,
      Joins 2 [''client'', ''O'', ''2'', ''addr''] ''b'', Reads 2, Hears 2 0, Reads 2,
      Hears 1 0, Hears 2 0, Hears 1 0, Hears 2 0, Types 1 ''1'', Reads 1, Hears 2 1, Hears 1 0]"

definition told :: "session \<Rightarrow> conn \<Rightarrow> (string list \<times> int option) option" where
  "told s c = map_option (\<lambda>cl. (printed cl, exited cl)) (ss_client s c)"

definition well_played :: session where
  "well_played = the (session_run (session_start 2 2 2) two_players)"

theorem clients_agree_on_outcome_witness:
  "\<exists>b t. board (ss_server well_played) = Some b \<and> Board_String b = Some t \<and>
     map_option (\<lambda>cl. last (printed cl)) (ss_client well_played 2) = Some (outcome_line b t)"
proof -
  have run: "map_option (\<lambda>s. map_option snd (told s 2)) (session_run (session_start 2 2 2) two_players) =
    Some (Some (Some 0))" by code_simp
  then obtain cl where cl: "ss_client well_played 2 = Some cl" "exited cl = Some 0"
    by (auto simp: well_played_def told_def)
  have reach: "session_reachable 2 2 2 well_played"
    using run session_run_reachable [of "session_start 2 2 2" two_players _ 2 2 2, OF _ session_boot] by (auto simp: well_played_def)
  have st: "process_status well_played 2 = Some 0" using cl by (simp add: process_status_def)
  have pos: "0 < (2::int)" by simp
  note told = clients_agree_on_outcome [OF pos pos pos reach cl(1)]
  obtain l where l: "l \<in> set (printed cl)" "tells_outcome l"
    using conjunct1 [OF told] st cl(2) by (metis option.distinct(1))
  then have "l = last (printed cl) \<and> (\<exists>b t. board (ss_server well_played) = Some b \<and> Board_String b = Some t \<and>
      l = outcome_line b t)"
    using conjunct2 [OF told] by blast
  then show ?thesis unfolding cl(1) by auto
qed

text \<open>
  The terminal input of O is empty. O hears of X's move, which counts as the response to its own first
  move, and hangs up: its move is made all the same, nothing tells it so, and the status is 0.
\<close>

definition early :: "session_event list" where
  "early =
     [Joins 1 [''client'', ''X'', ''1'', ''addr''] ''a'', Reads 1, Hears 1 0,
      Joins 2 [''client'', ''O'', ''2'', ''addr''] ''b'', InputEnds 2, Reads 2, Hears 2 0, Reads 1,
      Hears 2 1, Hears 2 2, HangsUp 2, Reads 2]"

text \<open>The pieces of O on the server's board.\<close>

definition O_pieces :: "session \<Rightarrow> int" where
  "O_pieces s = (case board (ss_server s) of None \<Rightarrow> 0 | Some b \<Rightarrow>
     int (length (filter (\<lambda>(r, c). cell_at b r c = Player2) (List.product [0..Rows b - 1] [0..Cols b - 1]))))"

lemma hangs_up_early:
  "map_option (\<lambda>s. (map_option (\<lambda>p. (length (fst p), snd p)) (told s 2), O_pieces s, process_status s 2))
     (session_run (session_start 2 2 2) early) = Some (Some (1, None), 1, Some 0)"
  by code_simp

end
