(* ===== verification/JsonText.thy ===== *)
theory JsonText
  imports Json
begin

text \<open>
  JSON as text and lines on a stream: what \<open>json.Marshal\<close> writes (compact, with the package's escapes),
  what \<open>json.Unmarshal\<close> reads (white space, escapes and surrogates included), and how \<open>bufio.Scanner\<close>
  cuts a stream into lines, with its limit of 64 KiB. Strings are valid UTF-8 without the separators
  U+2028 and U+2029; characters from 128 on are the bytes of such text and pass as they are.
\<close>

section \<open>Writing\<close>

definition quote_char :: char where
  "quote_char = CHR 0x22"

definition backslash :: char where
  "backslash = CHR 0x5C"

definition hex_char :: "nat \<Rightarrow> char" where
  "hex_char n = (if n < 10 then char_of (48 + n) else char_of (87 + n))"

definition esc_char :: "char \<Rightarrow> string" where
  "esc_char c =
     (if c = quote_char \<or> c = backslash then [backslash, c]
      else if c = CHR 0x0A then [backslash, CHR ''n'']
      else if c = CHR 0x0D then [backslash, CHR ''r'']
      else if c = CHR 0x09 then [backslash, CHR ''t'']
      else if of_char c < (32 :: nat) \<or> c \<in> {CHR ''<'', CHR ''>'', CHR ''&''} then
        [backslash, CHR ''u'', CHR ''0'', CHR ''0'', hex_char (of_char c div 16), hex_char (of_char c mod 16)]
      else [c])"

definition str_text :: "string \<Rightarrow> string" where
  "str_text s = quote_char # concat (map esc_char s) @ [quote_char]"

fun json_text :: "json \<Rightarrow> string" where
  "json_text JNull = ''null''"
| "json_text (JBool b) = (if b then ''true'' else ''false'')"
| "json_text (JInt i) = Itoa i"
| "json_text (JReal lit) = lit"
| "json_text (JStr s) = str_text s"
| "json_text (JArr js) = ''['' @ Join (map json_text js) '','' @ '']''"
| "json_text (JObj kvs) = ''{'' @ Join (map (\<lambda>(k, v). str_text k @ '':'' @ json_text v) kvs) '','' @ ''}''"

section \<open>Reading\<close>

definition json_space :: "char \<Rightarrow> bool" where
  "json_space c \<longleftrightarrow> c = CHR '' '' \<or> c = CHR 0x09 \<or> c = CHR 0x0A \<or> c = CHR 0x0D"

definition skip_space :: "string \<Rightarrow> string" where
  "skip_space s = dropWhile json_space s"

definition hex_digit :: "char \<Rightarrow> nat option" where
  "hex_digit c =
     (if is_digit c then Some (of_char c - 48)
      else if CHR ''a'' \<le> c \<and> c \<le> CHR ''f'' then Some (of_char c - 87)
      else if CHR ''A'' \<le> c \<and> c \<le> CHR ''F'' then Some (of_char c - 55) else None)"

definition hex4 :: "char \<Rightarrow> char \<Rightarrow> char \<Rightarrow> char \<Rightarrow> nat option" where
  "hex4 a b c d =
     then_do (hex_digit a) (\<lambda>w. then_do (hex_digit b) (\<lambda>x. then_do (hex_digit c) (\<lambda>y.
       map_option (\<lambda>z. ((w * 16 + x) * 16 + y) * 16 + z) (hex_digit d))))"

definition utf8 :: "nat \<Rightarrow> string" where
  "utf8 n =
     (if n < 0x80 then [char_of n]
      else if n < 0x800 then [char_of (0xC0 + n div 64), char_of (0x80 + n mod 64)]
      else if n < 0x10000 then
        [char_of (0xE0 + n div 4096), char_of (0x80 + n div 64 mod 64), char_of (0x80 + n mod 64)]
      else [char_of (0xF0 + n div 262144), char_of (0x80 + n div 4096 mod 64),
            char_of (0x80 + n div 64 mod 64), char_of (0x80 + n mod 64)])"

text \<open>The character of an escape other than \<open>u\<close>.\<close>

definition escaped :: "char \<Rightarrow> char option" where
  "escaped c =
     (if c = quote_char \<or> c = backslash \<or> c = CHR ''/'' then Some c
      else if c = CHR ''b'' then Some (CHR 0x08) else if c = CHR ''f'' then Some (CHR 0x0C)
      else if c = CHR ''n'' then Some (CHR 0x0A) else if c = CHR ''r'' then Some (CHR 0x0D)
      else if c = CHR ''t'' then Some (CHR 0x09) else None)"

text \<open>The second half of a surrogate pair, if one follows, with the text after it.\<close>

definition low_half :: "string \<Rightarrow> (nat \<times> string) option" where
  "low_half s =
     (case s of
        x # u # a # b # c # d # rest \<Rightarrow>
          if x = backslash \<and> u = CHR ''u'' then
            (case hex4 a b c d of
               None \<Rightarrow> None
             | Some n \<Rightarrow> if 0xDC00 \<le> n \<and> n < 0xE000 then Some (n, rest) else None)
          else None
      | _ \<Rightarrow> None)"

lemma low_half_shorter: "low_half s = Some (n, rest) \<Longrightarrow> length rest < length s"
  by (auto simp: low_half_def split: list.splits if_splits option.splits)

text \<open>The rest of a string after its opening quote, up to the closing one.\<close>

function parse_str :: "string \<Rightarrow> (string \<times> string) option" where
  "parse_str s =
     (case s of
        [] \<Rightarrow> None
      | c # cs \<Rightarrow>
          if c = quote_char then Some ('''', cs)
          else if of_char c < (32 :: nat) then None
          else if c \<noteq> backslash then map_option (apfst ((#) c)) (parse_str cs)
          else (case cs of
            [] \<Rightarrow> None
          | e # ds \<Rightarrow>
              if e \<noteq> CHR ''u'' then
                then_do (escaped e) (\<lambda>x. map_option (apfst ((#) x)) (parse_str ds))
              else (case ds of
                a # b # x # y # es \<Rightarrow>
                  then_do (hex4 a b x y) (\<lambda>n.
                    if n < 0xD800 \<or> 0xE000 \<le> n then map_option (apfst ((@) (utf8 n))) (parse_str es)
                    else if 0xDC00 \<le> n then map_option (apfst ((@) (utf8 0xFFFD))) (parse_str es)
                    else (case low_half es of
                      None \<Rightarrow> map_option (apfst ((@) (utf8 0xFFFD))) (parse_str es)
                    | Some (l, fs) \<Rightarrow>
                        map_option (apfst ((@) (utf8 (0x10000 + (n - 0xD800) * 1024 + (l - 0xDC00)))))
                          (parse_str fs)))
              | _ \<Rightarrow> None)))"
  by pat_completeness auto
termination
  by (relation "measure length") (auto dest: low_half_shorter)

declare parse_str.simps [simp del]

text \<open>The grammar of numbers: sign, integer part, fraction, exponent.\<close>

definition number_char :: "char \<Rightarrow> bool" where
  "number_char c \<longleftrightarrow> is_digit c \<or> c \<in> {CHR ''-'', CHR ''+'', CHR ''.'', CHR ''e'', CHR ''E''}"

definition strip_sign :: "char set \<Rightarrow> string \<Rightarrow> string" where
  "strip_sign signs s = (case s of c # cs \<Rightarrow> if c \<in> signs then cs else s | [] \<Rightarrow> s)"

definition valid_number :: "string \<Rightarrow> bool" where
  "valid_number lit =
     (let s = strip_sign {CHR ''-''} lit;
          whole = takeWhile is_digit s;
          s1 = dropWhile is_digit s;
          (frac_ok, s2) =
            (case s1 of
               c # cs \<Rightarrow> if c = CHR ''.'' then (takeWhile is_digit cs \<noteq> [], dropWhile is_digit cs) else (True, s1)
             | [] \<Rightarrow> (True, s1));
          exp_ok =
            (case s2 of
               [] \<Rightarrow> True
             | c # cs \<Rightarrow>
                 (c = CHR ''e'' \<or> c = CHR ''E'') \<and>
                 (let ds = strip_sign {CHR ''+'', CHR ''-''} cs in ds \<noteq> [] \<and> list_all is_digit ds))
      in whole \<noteq> [] \<and> (hd whole = CHR ''0'' \<longrightarrow> length whole = 1) \<and> frac_ok \<and> exp_ok)"

text \<open>A number of digits only is an integer; \<open>-0\<close>, which a \<open>float32\<close> may be, is kept as a real.\<close>

definition whole_number :: "string \<Rightarrow> bool" where
  "whole_number lit \<longleftrightarrow> list_all is_digit (strip_sign {CHR ''-''} lit) \<and> lit \<noteq> ''-0''"

definition parse_number :: "string \<Rightarrow> (json \<times> string) option" where
  "parse_number s =
     (let lit = takeWhile number_char s; rest = dropWhile number_char s
      in if \<not> valid_number lit then None
         else if whole_number lit then
           map_option (\<lambda>n. (JInt (if hd lit = CHR ''-'' then - n else n), rest))
             (digits_loop 0 (strip_sign {CHR ''-''} lit))
         else Some (JReal lit, rest))"

text \<open>A literal name at the start of the text.\<close>

definition after_prefix :: "string \<Rightarrow> string \<Rightarrow> string option" where
  "after_prefix p s = (if take (length p) s = p then Some (drop (length p) s) else None)"

definition parse_atom :: "string \<Rightarrow> (json \<times> string) option" where
  "parse_atom s =
     (case after_prefix ''null'' s of
        Some r \<Rightarrow> Some (JNull, r)
      | None \<Rightarrow>
          (case after_prefix ''true'' s of
             Some r \<Rightarrow> Some (JBool True, r)
           | None \<Rightarrow>
               (case after_prefix ''false'' s of
                  Some r \<Rightarrow> Some (JBool False, r)
                | None \<Rightarrow> parse_number s)))"

text \<open>
  The first argument bounds the depth of the calls; every other call consumes a character, so twice the
  length of the text is always enough.
\<close>

fun parse_value :: "nat \<Rightarrow> string \<Rightarrow> (json \<times> string) option"
  and parse_elems :: "nat \<Rightarrow> string \<Rightarrow> (json list \<times> string) option"
  and parse_members :: "nat \<Rightarrow> string \<Rightarrow> ((string \<times> json) list \<times> string) option" where
  "parse_value 0 s = None"
| "parse_value (Suc n) s =
     (case skip_space s of
        [] \<Rightarrow> None
      | c # cs \<Rightarrow>
          if c = quote_char then map_option (apfst JStr) (parse_str cs)
          else if c = CHR ''['' then
            (case skip_space cs of
               [] \<Rightarrow> None
             | d # ds \<Rightarrow> if d = CHR '']'' then Some (JArr [], ds)
                 else map_option (apfst JArr) (parse_elems n (d # ds)))
          else if c = CHR ''{'' then
            (case skip_space cs of
               [] \<Rightarrow> None
             | d # ds \<Rightarrow> if d = CHR ''}'' then Some (JObj [], ds)
                 else map_option (apfst JObj) (parse_members n (d # ds)))
          else parse_atom (c # cs))"
| "parse_elems 0 s = None"
| "parse_elems (Suc n) s =
     then_do (parse_value n s) (\<lambda>(v, r).
       case skip_space r of
         [] \<Rightarrow> None
       | c # cs \<Rightarrow>
           if c = CHR '']'' then Some ([v], cs)
           else if c = CHR '','' then map_option (apfst ((#) v)) (parse_elems n cs)
           else None)"
| "parse_members 0 s = None"
| "parse_members (Suc n) s =
     (case skip_space s of
        [] \<Rightarrow> None
      | q # qs \<Rightarrow>
          if q \<noteq> quote_char then None
          else then_do (parse_str qs) (\<lambda>(k, r).
            case skip_space r of
              [] \<Rightarrow> None
            | c # cs \<Rightarrow>
                if c \<noteq> CHR '':'' then None
                else then_do (parse_value n cs) (\<lambda>(v, r2).
                  case skip_space r2 of
                    [] \<Rightarrow> None
                  | d # ds \<Rightarrow>
                      if d = CHR ''}'' then Some ([(k, v)], ds)
                      else if d = CHR '','' then map_option (apfst ((#) (k, v))) (parse_members n ds)
                      else None)))"

definition json_parse :: "string \<Rightarrow> json option" where
  "json_parse s =
     (case parse_value (2 * length s + 2) s of
        None \<Rightarrow> None
      | Some (j, r) \<Rightarrow> if skip_space r = [] then Some j else None)"

section \<open>Lines\<close>

text \<open>
  \<open>bufio.Scanner\<close> with \<open>ScanLines\<close>: a line ends at a newline or at the end of the stream and loses a
  carriage return at its end; at a line that does not fit into the buffer with its newline, scanning
  stops for good.
\<close>

definition MaxScanTokenSize :: nat where
  "MaxScanTokenSize = 65536"

definition drop_cr :: "string \<Rightarrow> string" where
  "drop_cr l = (if l \<noteq> [] \<and> last l = CHR 0x0D then butlast l else l)"

lemma dropWhile_rest_shorter: "dropWhile P s = x # r \<Longrightarrow> length r < length s"
  using length_dropWhile_le [of P s] by simp

function scan_lines :: "string \<Rightarrow> string list" where
  "scan_lines s =
     (if s = [] then []
      else
        let l = takeWhile (\<lambda>c. c \<noteq> CHR 0x0A) s; rest = dropWhile (\<lambda>c. c \<noteq> CHR 0x0A) s
        in if MaxScanTokenSize \<le> length l then []
           else drop_cr l # (case rest of [] \<Rightarrow> [] | _ # r \<Rightarrow> scan_lines r))"
  by pat_completeness auto
termination
  by (relation "measure length") (auto dest: dropWhile_rest_shorter [OF sym])

declare scan_lines.simps [simp del]

text \<open>Messages on a stream: each as a line, and back; \<open>None\<close> is a line that is not JSON.\<close>

definition write_lines :: "json list \<Rightarrow> string" where
  "write_lines js = concat (map (\<lambda>j. json_text j @ [CHR 0x0A]) js)"

definition read_lines :: "string \<Rightarrow> json option list" where
  "read_lines s = map json_parse (scan_lines s)"

section \<open>Strings come back\<close>

lemma hex_digit_char: "n < 16 \<Longrightarrow> hex_digit (hex_char n) = Some n"
  by (auto simp: hex_digit_def hex_char_def is_digit_def less_eq_char_def)

lemma hex_digit_zero: "hex_digit CHR ''0'' = Some 0"
  by code_simp

lemma hex4_escape: "hex4 CHR ''0'' CHR ''0'' (hex_char (of_char c div 16)) (hex_char (of_char c mod 16)) = Some (of_char c)"
proof -
  have "of_char c div 16 < (16 :: nat)" using nat_of_char_less_256 [of c] by (simp add: div_less_iff_less_mult)
  then show ?thesis by (simp add: hex4_def hex_digit_zero hex_digit_char)
qed

lemma escape_names [simp]:
  "escaped quote_char = Some quote_char" "escaped backslash = Some backslash" "escaped CHR ''n'' = Some (CHR 0x0A)"
  "escaped CHR ''r'' = Some (CHR 0x0D)" "escaped CHR ''t'' = Some (CHR 0x09)"
  "quote_char \<noteq> CHR ''u''" "backslash \<noteq> CHR ''u''" "backslash \<noteq> quote_char" "quote_char \<noteq> backslash"
  "of_char backslash = (92 :: nat)" "of_char quote_char = (34 :: nat)"
  by code_simp+

lemma esc_cases:
  obtains "esc_char c = [backslash, c]" "c = quote_char \<or> c = backslash"
    | "esc_char c = [backslash, CHR ''n'']" "c = CHR 0x0A"
    | "esc_char c = [backslash, CHR ''r'']" "c = CHR 0x0D"
    | "esc_char c = [backslash, CHR ''t'']" "c = CHR 0x09"
    | "esc_char c = [backslash, CHR ''u'', CHR ''0'', CHR ''0'', hex_char (of_char c div 16), hex_char (of_char c mod 16)]"
      "of_char c < (128 :: nat)"
    | "esc_char c = [c]" "\<not> of_char c < (32 :: nat)" "c \<noteq> quote_char" "c \<noteq> backslash"
proof (cases "c = quote_char \<or> c = backslash \<or> c = CHR 0x0A \<or> c = CHR 0x0D \<or> c = CHR 0x09")
  case True
  then show ?thesis using that(1-4) by (auto simp: esc_char_def quote_char_def backslash_def)
next
  case no: False
  show ?thesis
  proof (cases "of_char c < (32 :: nat) \<or> c \<in> {CHR ''<'', CHR ''>'', CHR ''&''}")
    case True
    then have "of_char c < (128 :: nat)" by auto
    then show ?thesis using that(5) no True by (simp add: esc_char_def)
  next
    case False
    then show ?thesis using that(6) no by (simp add: esc_char_def)
  qed
qed

lemma parse_esc_char: "parse_str (esc_char c @ t) = map_option (apfst ((#) c)) (parse_str t)"
proof (cases rule: esc_cases [of c])
  case 1
  then show ?thesis by (subst parse_str.simps) auto
next
  case 2
  then show ?thesis by (subst parse_str.simps) simp
next
  case 3
  then show ?thesis by (subst parse_str.simps) simp
next
  case 4
  then show ?thesis by (subst parse_str.simps) simp
next
  case 5
  have "utf8 (of_char c) = [c]" "of_char c < (0xD800 :: nat)" "(@) [c] = (#) c" using 5(2) by (auto simp: utf8_def)
  then show ?thesis by (subst parse_str.simps) (simp add: 5(1) hex4_escape)
next
  case 6
  then show ?thesis by (subst parse_str.simps) simp
qed

lemma parse_str_text: "parse_str (concat (map esc_char s) @ quote_char # r) = Some (s, r)"
proof (induction s)
  case Nil
  show ?case by (subst parse_str.simps) simp
next
  case (Cons c s)
  then show ?case by (simp add: parse_esc_char)
qed

section \<open>Numbers come back\<close>

definition ends_number :: "string \<Rightarrow> bool" where
  "ends_number r \<longleftrightarrow> (r = [] \<or> \<not> number_char (hd r))"

lemma number_span:
  assumes "\<And>c. c \<in> set lit \<Longrightarrow> number_char c" and "ends_number r"
  shows "takeWhile number_char (lit @ r) = lit" "dropWhile number_char (lit @ r) = r"
  using assms by (cases r; simp add: ends_number_def)+

lemma digit_number: "is_digit c \<Longrightarrow> number_char c" and minus_number: "number_char CHR ''-''"
  by (simp_all add: number_char_def)

lemma minus_no_digit: "\<not> is_digit CHR ''-''"
  by (simp add: is_digit_def)

lemma whole_digits: "ds \<noteq> [] \<Longrightarrow> list_all is_digit ds \<Longrightarrow> takeWhile is_digit ds = ds \<and> dropWhile is_digit ds = []"
  by (auto simp: list_all_iff)

lemma digits_valid:
  assumes "0 < n \<or> \<not> neg"
  defines "lit \<equiv> (if neg then CHR ''-'' # nat_digits n else nat_digits n)"
  shows "valid_number lit" "whole_number lit" "strip_sign {CHR ''-''} lit = nat_digits n"
    "hd lit = CHR ''-'' \<longleftrightarrow> neg" "\<And>c. c \<in> set lit \<Longrightarrow> number_char c"
proof -
  have d: "list_all is_digit (nat_digits n)" using nat_digits_digits by (auto simp: list_all_iff)
  have ne: "nat_digits n \<noteq> []" by (rule nat_digits_nonempty)
  have h: "hd (nat_digits n) \<noteq> CHR ''-''" using nat_digits_no_sign ne by (cases "nat_digits n") auto
  show strip: "strip_sign {CHR ''-''} lit = nat_digits n"
    using h ne by (auto simp: lit_def strip_sign_def split: list.splits)
  show "hd lit = CHR ''-'' \<longleftrightarrow> neg" using h by (simp add: lit_def)
  show "number_char c" if "c \<in> set lit" for c
    using that nat_digits_digits digit_number minus_number by (auto simp: lit_def split: if_splits)
  have zero: "hd (nat_digits n) = CHR ''0'' \<longrightarrow> length (nat_digits n) = 1"
    using nat_digits_hd [of n] by (cases "n = 0") (auto simp: nat_digits.simps [of 0])
  show "valid_number lit"
    unfolding valid_number_def Let_def strip whole_digits [OF ne d, THEN conjunct1] whole_digits [OF ne d, THEN conjunct2]
    using zero ne by simp
  have "lit \<noteq> ''-0''" using assms(1) nat_digits_hd [of n] h by (auto simp: lit_def)
  then show "whole_number lit" using strip d by (simp add: whole_number_def)
qed

lemma parse_number_int:
  assumes "ends_number r"
  shows "parse_number (Itoa i @ r) = Some (JInt i, r)"
proof -
  define lit where "lit = (if i < 0 then CHR ''-'' # nat_digits (nat (- i)) else nat_digits (nat i))"
  have i: "Itoa i = lit" by (simp add: Itoa_def lit_def)
  let ?n = "nat (if i < 0 then - i else i)"
  have eq: "lit = (if i < 0 then CHR ''-'' # nat_digits ?n else nat_digits ?n)" by (simp add: lit_def)
  have "0 < ?n \<or> \<not> i < 0" by auto
  note D = digits_valid [OF this, folded eq]
  note S = number_span [OF D(5) assms]
  show ?thesis
    unfolding i using D(1-4) S digits_loop_nat [of ?n] by (simp add: parse_number_def Let_def)
qed

definition real_literal :: "string \<Rightarrow> bool" where
  "real_literal lit \<longleftrightarrow> valid_number lit \<and> \<not> whole_number lit \<and> list_all number_char lit"

lemma parse_number_real: "real_literal lit \<Longrightarrow> ends_number r \<Longrightarrow> parse_number (lit @ r) = Some (JReal lit, r)"
  using number_span [of lit r] by (auto simp: real_literal_def parse_number_def list_all_iff Let_def)

text \<open>A number starts with a digit or a sign, so it is none of the other values.\<close>

lemma valid_number_start:
  assumes "valid_number lit"
  shows "\<exists>c cs. lit = c # cs \<and> (is_digit c \<or> c = CHR ''-'')"
proof (cases lit)
  case Nil
  then show ?thesis using assms by (simp add: valid_number_def strip_sign_def Let_def)
next
  case (Cons c cs)
  then have "takeWhile is_digit (strip_sign {CHR ''-''} (c # cs)) \<noteq> []"
    using assms by (auto simp: valid_number_def Let_def split: list.splits if_splits)
  then show ?thesis using Cons by (auto simp: strip_sign_def split: if_splits)
qed

lemma number_start_distinct:
  assumes "is_digit c \<or> c = CHR ''-''"
  shows "\<not> json_space c" "c \<noteq> quote_char" "c \<noteq> CHR ''[''" "c \<noteq> CHR ''{''" "c \<noteq> CHR ''n''" "c \<noteq> CHR ''t''" "c \<noteq> CHR ''f''"
  using assms by (auto simp: is_digit_def json_space_def quote_char_def)

lemma parse_number_value:
  assumes "parse_number (lit @ r) = Some (j, r)" and "lit = c # cs" and "is_digit c \<or> c = CHR ''-''"
  shows "parse_value (Suc n) (lit @ r) = Some (j, r)"
  using assms number_start_distinct [OF assms(3)]
  by (simp add: skip_space_def parse_atom_def after_prefix_def)

section \<open>Values come back\<close>

text \<open>Values that a program can write: a real is a literal that is no integer.\<close>

fun writable :: "json \<Rightarrow> bool" where
  "writable (JReal lit) = real_literal lit"
| "writable (JArr js) = list_all writable js"
| "writable (JObj kvs) = list_all (\<lambda>(k, v). writable v) kvs"
| "writable _ = True"

text \<open>The first character of a value is no space and does not close an array.\<close>

lemma Itoa_start: "\<exists>c cs. Itoa i = c # cs \<and> (is_digit c \<or> c = CHR ''-'')"
proof (cases "i < 0")
  case False
  then show ?thesis
    using nat_digits_nonempty [of "nat i"] nat_digits_digits [of _ "nat i"]
    by (cases "nat_digits (nat i)") (auto simp: Itoa_def)
qed (simp add: Itoa_def)

lemma number_start:
  assumes "is_digit c \<or> c = CHR ''-''"
  shows "\<not> json_space c \<and> c \<noteq> CHR '']''"
  using assms by (auto simp: is_digit_def json_space_def)

lemma json_text_start:
  assumes "writable j"
  shows "\<exists>c cs. json_text j = c # cs \<and> \<not> json_space c \<and> c \<noteq> CHR '']''"
proof (cases j)
  case (JInt i)
  obtain c cs where "Itoa i = c # cs" "is_digit c \<or> c = CHR ''-''" using Itoa_start by blast
  then show ?thesis using JInt number_start by simp
next
  case (JReal lit)
  then have "valid_number lit" using assms by (simp add: real_literal_def)
  then obtain c cs where "lit = c # cs" "is_digit c \<or> c = CHR ''-''" using valid_number_start by blast
  then show ?thesis using JReal number_start by simp
qed (simp_all add: str_text_def json_space_def quote_char_def)

lemma skip_text:
  "writable j \<Longrightarrow> skip_space (json_text j @ r) = json_text j @ r"
  using json_text_start [of j] by (auto simp: skip_space_def)

lemma skip_char: "\<not> json_space c \<Longrightarrow> skip_space (c # r) = c # r"
  by (simp add: skip_space_def)

lemma punctuation [simp]:
  "\<not> json_space CHR '']''" "\<not> json_space CHR ''}''" "\<not> json_space CHR '',''" "\<not> json_space CHR '':''"
  "\<not> json_space CHR ''[''" "\<not> json_space CHR ''{''" "\<not> json_space quote_char"
  "\<not> number_char CHR '']''" "\<not> number_char CHR ''}''" "\<not> number_char CHR '',''"
  "CHR ''['' \<noteq> quote_char" "CHR ''{'' \<noteq> quote_char" "quote_char \<noteq> CHR ''}''"
  by (simp_all add: json_space_def number_char_def is_digit_def quote_char_def)

text \<open>What has to hold of a value for the induction.\<close>

definition comes_back :: "json \<Rightarrow> bool" where
  "comes_back j \<longleftrightarrow>
     (\<forall>n r. 2 * length (json_text j) < n \<longrightarrow> ends_number r \<longrightarrow> parse_value n (json_text j @ r) = Some (j, r))"

lemma elems_come_back:
  assumes "js \<noteq> []" and "\<And>j. j \<in> set js \<Longrightarrow> comes_back j"
    and "2 * length (Join (map json_text js) '','') + 1 < n"
  shows "parse_elems n (Join (map json_text js) '','' @ CHR '']'' # r) = Some (js, r)"
  using assms
proof (induction js arbitrary: n)
  case (Cons j js)
  obtain m where m: "n = Suc m" using Cons.prems(3) by (cases n) auto
  show ?case
  proof (cases js)
    case Nil
    have "parse_value m (json_text j @ CHR '']'' # r) = Some (j, CHR '']'' # r)"
      using Cons.prems(2,3) Nil m by (simp add: comes_back_def ends_number_def)
    then show ?thesis using Nil m by (simp add: skip_char)
  next
    case more: (Cons i more)
    let ?rest = "Join (map json_text js) '','' @ CHR '']'' # r"
    have j: "comes_back j" using Cons.prems(2) by simp
    have e: "Join (map json_text (j # js)) '','' @ CHR '']'' # r = json_text j @ CHR '','' # ?rest"
      using more by simp
    have "parse_value m (json_text j @ CHR '','' # ?rest) = Some (j, CHR '','' # ?rest)"
      using j Cons.prems(3) m more by (simp add: comes_back_def ends_number_def)
    moreover have "parse_elems m ?rest = Some (js, r)"
      using Cons.IH [of m] Cons.prems more m by simp
    ultimately show ?thesis unfolding e m by (simp add: skip_char)
  qed
qed simp

definition member_text :: "string \<times> json \<Rightarrow> string" where
  "member_text kv = str_text (fst kv) @ '':'' @ json_text (snd kv)"

lemma json_text_obj: "json_text (JObj kvs) = ''{'' @ Join (map member_text kvs) '','' @ ''}''"
  by (simp add: member_text_def case_prod_beta cong: map_cong)

lemma str_text_cons: "str_text s @ r = quote_char # concat (map esc_char s) @ quote_char # r"
  by (simp add: str_text_def)

lemma members_come_back:
  assumes "kvs \<noteq> []" and "\<And>kv. kv \<in> set kvs \<Longrightarrow> comes_back (snd kv)"
    and "2 * length (Join (map member_text kvs) '','') + 1 < n"
  shows "parse_members n (Join (map member_text kvs) '','' @ CHR ''}'' # r) = Some (kvs, r)"
  using assms
proof (induction kvs arbitrary: n)
  case (Cons kv kvs)
  obtain k v where kv: "kv = (k, v)" by (cases kv)
  obtain m where m: "n = Suc m" using Cons.prems(3) by (cases n) auto
  have v: "comes_back v" using Cons.prems(2) [of kv] kv by simp
  have key: "parse_str (concat (map esc_char k) @ quote_char # CHR '':'' # t) = Some (k, CHR '':'' # t)" for t
    by (rule parse_str_text)
  show ?case
  proof (cases kvs)
    case Nil
    have e: "Join (map member_text (kv # kvs)) '','' @ CHR ''}'' # r =
        quote_char # concat (map esc_char k) @ quote_char # CHR '':'' # json_text v @ CHR ''}'' # r"
      using Nil kv by (simp add: member_text_def str_text_def)
    have "parse_value m (json_text v @ CHR ''}'' # r) = Some (v, CHR ''}'' # r)"
      using v Cons.prems(3) Nil m kv by (simp add: comes_back_def ends_number_def member_text_def)
    then show ?thesis unfolding e m using Nil kv by (simp add: skip_char key)
  next
    case more: (Cons kv2 more)
    let ?rest = "Join (map member_text kvs) '','' @ CHR ''}'' # r"
    have e: "Join (map member_text (kv # kvs)) '','' @ CHR ''}'' # r =
        quote_char # concat (map esc_char k) @ quote_char # CHR '':'' # json_text v @ CHR '','' # ?rest"
      using more kv by (simp add: member_text_def str_text_def)
    have "parse_value m (json_text v @ CHR '','' # ?rest) = Some (v, CHR '','' # ?rest)"
      using v Cons.prems(3) m more kv by (simp add: comes_back_def ends_number_def member_text_def)
    moreover have "parse_members m ?rest = Some (kvs, r)"
      using Cons.IH [of m] Cons.prems more m by simp
    ultimately show ?thesis unfolding e m using kv by (simp add: skip_char key)
  qed
qed simp

lemma atom_names [simp]:
  "parse_atom (''null'' @ r) = Some (JNull, r)" "parse_atom (''true'' @ r) = Some (JBool True, r)"
  "parse_atom (''false'' @ r) = Some (JBool False, r)"
  by (simp_all add: parse_atom_def after_prefix_def)

lemma atom_value:
  assumes "parse_atom (c # cs) = Some (j, r)" and "\<not> json_space c" and "c \<notin> {quote_char, CHR ''['', CHR ''{''}"
  shows "parse_value (Suc n) (c # cs) = Some (j, r)"
  using assms by (simp add: skip_char)

lemma json_comes_back: "writable j \<Longrightarrow> comes_back j"
proof (induction j)
  case JNull
  have "parse_value (Suc n) (CHR ''n'' # ''ull'' @ r) = Some (JNull, r)" for n r
    using atom_names(1) [of r] by (intro atom_value) (simp_all add: json_space_def quote_char_def)
  then show ?case unfolding comes_back_def by (auto simp del: parse_value.simps elim!: less_natE)
next
  case (JBool b)
  have "parse_value (Suc n) (CHR ''t'' # ''rue'' @ r) = Some (JBool True, r)"
    "parse_value (Suc n) (CHR ''f'' # ''alse'' @ r) = Some (JBool False, r)" for n r
    using atom_names(2,3) [of r] by (intro atom_value; simp add: json_space_def quote_char_def)+
  then show ?case unfolding comes_back_def by (auto simp del: parse_value.simps elim!: less_natE)
next
  case (JInt i)
  obtain c cs where c: "Itoa i = c # cs" "is_digit c \<or> c = CHR ''-''" using Itoa_start by blast
  show ?case unfolding comes_back_def
    using parse_number_value [OF parse_number_int c] by (auto simp del: parse_value.simps elim!: less_natE)
next
  case (JReal lit)
  then have lit: "real_literal lit" by simp
  then have "valid_number lit" by (simp add: real_literal_def)
  then obtain c cs where c: "lit = c # cs" "is_digit c \<or> c = CHR ''-''" using valid_number_start by blast
  show ?case unfolding comes_back_def
    using parse_number_value [OF parse_number_real [OF lit] c] by (auto simp del: parse_value.simps elim!: less_natE)
next
  case (JStr s)
  then show ?case unfolding comes_back_def
    by (auto simp: str_text_def skip_char parse_str_text elim!: less_natE)
next
  case (JArr js)
  then have all: "\<And>j. j \<in> set js \<Longrightarrow> comes_back j" by (auto simp: list_all_iff)
  show ?case
  proof (cases js)
    case Nil
    have "parse_value (Suc n) (CHR ''['' # CHR '']'' # r) = Some (JArr [], r)" for n r by (simp add: skip_char)
    then show ?thesis unfolding comes_back_def using Nil by (auto simp del: parse_value.simps elim!: less_natE)
  next
    case (Cons j more)
    have "writable j" using JArr.prems Cons by simp
    then obtain c cs where start: "json_text j = c # cs" "\<not> json_space c" "c \<noteq> CHR '']''"
      using json_text_start by blast
    then obtain cs' where t: "Join (map json_text js) '','' = c # cs'" using Cons by (cases more) auto
    have "parse_elems n (c # cs' @ CHR '']'' # r) = Some (js, r)" if "2 * length (c # cs') + 1 < n" for n r
    proof -
      have "parse_elems n (Join (map json_text js) '','' @ CHR '']'' # r) = Some (js, r)"
        by (rule elems_come_back [OF _ all]) (use that t Cons in auto)
      then show ?thesis unfolding t by simp
    qed
    then show ?thesis
      unfolding comes_back_def json_text.simps t using start
      by (auto simp: skip_char simp del: parse_elems.simps elim!: less_natE)
  qed
next
  case (JObj kvs)
  then have all: "\<And>kv. kv \<in> set kvs \<Longrightarrow> comes_back (snd kv)" by (fastforce simp: list_all_iff)
  show ?case
  proof (cases kvs)
    case Nil
    have "parse_value (Suc n) (CHR ''{'' # CHR ''}'' # r) = Some (JObj [], r)" for n r by (simp add: skip_char)
    then show ?thesis unfolding comes_back_def using Nil by (auto simp del: parse_value.simps elim!: less_natE)
  next
    case (Cons kv more)
    then obtain cs' where t: "Join (map member_text kvs) '','' = quote_char # cs'"
      by (cases more) (auto simp: member_text_def str_text_def)
    have "parse_members n (quote_char # cs' @ CHR ''}'' # r) = Some (kvs, r)"
      if "2 * length (quote_char # cs') + 1 < n" for n r
    proof -
      have "parse_members n (Join (map member_text kvs) '','' @ CHR ''}'' # r) = Some (kvs, r)"
        by (rule members_come_back [OF _ all]) (use that t Cons in auto)
      then show ?thesis unfolding t by simp
    qed
    then show ?thesis
      unfolding comes_back_def json_text_obj t
      by (auto simp: skip_char simp del: parse_members.simps elim!: less_natE)
  qed
qed

text \<open>Every value comes back from its text.\<close>

lemma json_parse_text: "writable j \<Longrightarrow> json_parse (json_text j) = Some j"
  using json_comes_back [of j] unfolding comes_back_def json_parse_def
  by (auto simp: ends_number_def skip_space_def dest: spec [of _ "2 * length (json_text j) + 2"])

section \<open>Lines come back\<close>

definition control :: "char \<Rightarrow> bool" where
  "control c \<longleftrightarrow> of_char c < (32 :: nat)"

lemma plain_chars [simp]:
  "\<not> control quote_char" "\<not> control backslash" "\<not> control CHR ''n''" "\<not> control CHR ''r''" "\<not> control CHR ''t''"
  "\<not> control CHR ''u''" "\<not> control CHR ''0''" "\<not> control CHR '',''" "\<not> control CHR '':''" "\<not> control CHR ''-''"
  "\<not> control CHR ''[''" "\<not> control CHR '']''" "\<not> control CHR ''{''" "\<not> control CHR ''}''"
  by (simp_all add: control_def)

lemma hex_char_plain: "n < 16 \<Longrightarrow> \<not> control (hex_char n)"
  by (auto simp: hex_char_def control_def)

lemma digit_plain: "is_digit c \<Longrightarrow> \<not> control c"
  by (simp add: is_digit_def control_def)

lemma number_plain: "number_char c \<Longrightarrow> \<not> control c"
  by (auto simp: number_char_def control_def is_digit_def)

lemma esc_char_plain: "x \<in> set (esc_char c) \<Longrightarrow> \<not> control x"
proof -
  have "of_char c div 16 < (16 :: nat)" "of_char c mod 16 < (16 :: nat)"
    using nat_of_char_less_256 [of c] by (simp_all add: div_less_iff_less_mult)
  then have "\<not> control (hex_char (of_char c div 16))" "\<not> control (hex_char (of_char c mod 16))"
    using hex_char_plain by blast+
  then show "x \<in> set (esc_char c) \<Longrightarrow> \<not> control x"
    by (cases rule: esc_cases [of c]) (auto simp: control_def [of c])
qed

lemma str_text_plain: "x \<in> set (str_text s) \<Longrightarrow> \<not> control x"
  using esc_char_plain by (auto simp: str_text_def)

lemma Join_set: "set (Join ws sep) \<subseteq> set sep \<union> (\<Union>w \<in> set ws. set w)"
  by (induction ws sep rule: Join.induct) auto

lemma Join_plain:
  assumes "\<And>w. w \<in> set ws \<Longrightarrow> x \<in> set w \<Longrightarrow> \<not> control x" and "x \<in> set (Join ws '','')"
  shows "\<not> control x"
proof -
  have "x \<in> set '','' \<or> (\<exists>w \<in> set ws. x \<in> set w)" using assms(2) Join_set [of ws "'',''"] by blast
  then show ?thesis using assms(1) by auto
qed

text \<open>The text of a value has no control characters, so it is one line: those in strings are escaped.\<close>

lemma json_text_plain: "writable j \<Longrightarrow> x \<in> set (json_text j) \<Longrightarrow> \<not> control x"
proof (induction j arbitrary: x)
  case JNull
  then show ?case by (auto simp: control_def)
next
  case (JBool b)
  then show ?case by (auto simp: control_def split: if_splits)
next
  case (JInt i)
  then show ?case using nat_digits_digits digit_plain by (auto simp: Itoa_def split: if_splits)
next
  case (JReal lit)
  then show ?case using number_plain by (auto simp: real_literal_def list_all_iff)
next
  case (JStr s)
  then show ?case using str_text_plain by simp
next
  case (JArr js)
  then have "\<And>w. w \<in> set (map json_text js) \<Longrightarrow> x \<in> set w \<Longrightarrow> \<not> control x" by (auto simp: list_all_iff)
  then have "x \<in> set (Join (map json_text js) '','') \<Longrightarrow> \<not> control x" by (rule Join_plain)
  then show ?case using JArr.prems(2) by auto
next
  case (JObj kvs)
  then have "\<And>w. w \<in> set (map member_text kvs) \<Longrightarrow> x \<in> set w \<Longrightarrow> \<not> control x"
    using str_text_plain by (fastforce simp: list_all_iff member_text_def)
  then have "x \<in> set (Join (map member_text kvs) '','') \<Longrightarrow> \<not> control x" by (rule Join_plain)
  then show ?case using JObj.prems(2) unfolding json_text_obj by auto
qed

lemma json_text_one_line: "writable j \<Longrightarrow> CHR 0x0A \<notin> set (json_text j)"
  using json_text_plain [of j "CHR 0x0A"] by (auto simp: control_def)

lemma json_text_no_cr_end: "writable j \<Longrightarrow> drop_cr (json_text j) = json_text j"
  using json_text_plain [of j "last (json_text j)"] last_in_set [of "json_text j"]
  by (cases "json_text j = []") (auto simp: drop_cr_def control_def)

lemma scan_line:
  assumes "CHR 0x0A \<notin> set l" and "length l < MaxScanTokenSize"
  shows "scan_lines (l @ CHR 0x0A # s) = drop_cr l # scan_lines s"
proof -
  have "takeWhile (\<lambda>c. c \<noteq> CHR 0x0A) (l @ CHR 0x0A # s) = l" "dropWhile (\<lambda>c. c \<noteq> CHR 0x0A) (l @ CHR 0x0A # s) = CHR 0x0A # s"
    using assms(1) by (induction l) auto
  then show ?thesis using assms(2) by (subst scan_lines.simps) simp
qed

text \<open>A line that is too long ends the scan; nothing after it is seen.\<close>

lemma scan_too_long:
  assumes "CHR 0x0A \<notin> set l" and "MaxScanTokenSize \<le> length l"
  shows "scan_lines (l @ s) = []"
proof -
  have "takeWhile (\<lambda>c. c \<noteq> CHR 0x0A) (l @ s) = l @ takeWhile (\<lambda>c. c \<noteq> CHR 0x0A) s"
    using assms(1) by (induction l) auto
  then show ?thesis using assms(2) by (subst scan_lines.simps) simp
qed

definition fits :: "json \<Rightarrow> bool" where
  "fits j \<longleftrightarrow> length (json_text j) < MaxScanTokenSize"

lemma read_write:
  assumes "list_all writable js" and "list_all fits js"
  shows "read_lines (write_lines js @ s) = map Some js @ read_lines s"
  using assms
proof (induction js)
  case (Cons j js)
  then have j: "writable j" "fits j" by auto
  have "scan_lines (json_text j @ CHR 0x0A # t) = json_text j # scan_lines t" for t
    using scan_line [OF json_text_one_line [OF j(1)]] j(2) json_text_no_cr_end [OF j(1)] by (simp add: fits_def)
  then show ?case
    using Cons json_parse_text [OF j(1)] by (simp add: read_lines_def write_lines_def)
qed (simp add: write_lines_def)

section \<open>The depth is enough\<close>

lemma skip_space_le: "length (skip_space s) \<le> length s"
  by (simp add: skip_space_def length_dropWhile_le)

lemma skip_space_shorter: "skip_space s = c # cs \<Longrightarrow> length cs < length s"
  using skip_space_le [of s] by simp

lemma parse_str_shorter: "parse_str s = Some (k, r) \<Longrightarrow> length r < length s"
proof (induction s arbitrary: k r rule: length_induct)
  case (1 s)
  have sub: "length r < length s" if "length u < length s" "map_option (apfst f) (parse_str u) = Some (k, r)" for u f
    using 1(1) that by fastforce
  note eq = 1(2) [unfolded parse_str.simps [of s]]
  show ?case
  proof (cases s)
    case (Cons c cs)
    consider "c = quote_char" | "c \<noteq> quote_char" "\<not> of_char c < (32 :: nat)" "c \<noteq> backslash" | "c = backslash"
      using eq Cons by (auto split: if_splits)
    then show ?thesis
    proof cases
      case 3
      obtain e ds where cs: "cs = e # ds" using eq Cons 3 by (cases cs) auto
      show ?thesis
      proof (cases "e = CHR ''u''")
        case True
        obtain a b x y es n where u: "ds = a # b # x # y # es" "hex4 a b x y = Some n"
          using eq Cons 3 cs True by (auto split: list.splits bind_splits)
        show ?thesis
        proof (cases "low_half es")
          case None
          then show ?thesis using eq Cons 3 cs True u sub [of es] by (auto split: if_splits)
        next
          case (Some lf)
          obtain l fs where lf: "lf = (l, fs)" by (cases lf)
          then have "length fs < length s" using low_half_shorter Some Cons cs u by fastforce
          then show ?thesis
            using eq Cons 3 cs True u Some lf sub [of es] sub [of fs] by (auto split: if_splits)
        qed
      next
        case False
        then show ?thesis using eq Cons 3 cs sub [of ds] by (auto split: bind_splits)
      qed
    qed (use eq Cons sub [of cs] in auto)
  qed (use eq in simp)
qed

lemma parse_number_shorter: "parse_number s = Some (j, r) \<Longrightarrow> length r < length s"
proof -
  assume p: "parse_number s = Some (j, r)"
  then have "valid_number (takeWhile number_char s)" "r = dropWhile number_char s"
    by (auto simp: parse_number_def Let_def split: if_splits)
  then have "takeWhile number_char s \<noteq> []" using valid_number_start by fastforce
  moreover have "length s = length (takeWhile number_char s) + length (dropWhile number_char s)"
    by (metis length_append takeWhile_dropWhile_id)
  ultimately show ?thesis using \<open>r = dropWhile number_char s\<close> by simp
qed

lemma after_prefix_shorter: "after_prefix p s = Some r \<Longrightarrow> p \<noteq> [] \<Longrightarrow> length r < length s"
  by (cases s) (auto simp: after_prefix_def split: if_splits)

lemma parse_atom_shorter: "parse_atom s = Some (j, r) \<Longrightarrow> length r < length s"
  unfolding parse_atom_def
  by (auto split: option.splits dest: after_prefix_shorter parse_number_shorter)

lemma value_step_shorter:
  assumes "parse_value (Suc n) s = Some (j, r)"
    and E: "\<And>s js r. parse_elems n s = Some (js, r) \<Longrightarrow> length r < length s"
    and M: "\<And>s kvs r. parse_members n s = Some (kvs, r) \<Longrightarrow> length r < length s"
  shows "length r < length s"
proof -
  obtain c cs where c: "skip_space s = c # cs" using assms(1) by (auto split: list.splits)
  have cs: "length cs < length s" by (rule skip_space_shorter [OF c])
  have sk: "length (d # ds) < length s" if "skip_space cs = d # ds" for d ds
    using skip_space_le [of cs] that cs by simp
  consider "c = quote_char" | "c = CHR ''[''" | "c = CHR ''{''" | "c \<notin> {quote_char, CHR ''['', CHR ''{''}" by auto
  then show ?thesis
  proof cases
    case 1
    then show ?thesis using assms(1) c cs parse_str_shorter [of cs] by fastforce
  next
    case 2
    then show ?thesis using assms(1) c sk E by (fastforce split: list.splits if_splits)
  next
    case 3
    then show ?thesis using assms(1) c sk M by (fastforce split: list.splits if_splits)
  next
    case 4
    then show ?thesis using assms(1) c parse_atom_shorter [of "c # cs"] skip_space_le [of s] by auto
  qed
qed

lemma elems_step_shorter:
  assumes p: "parse_elems (Suc n) s = Some (js, r)"
    and V: "\<And>s j r. parse_value n s = Some (j, r) \<Longrightarrow> length r < length s"
    and E: "\<And>s js r. parse_elems n s = Some (js, r) \<Longrightarrow> length r < length s"
  shows "length r < length s"
proof -
  obtain v r1 where v: "parse_value n s = Some (v, r1)" using p by (auto split: bind_splits)
  obtain c cs where c: "skip_space r1 = c # cs" using p v by (auto split: list.splits)
  have "length cs < length s" using skip_space_shorter [OF c] V [OF v] by simp
  then show ?thesis using p v c E [of cs] by (fastforce split: if_splits)
qed

lemma members_step_shorter:
  assumes p: "parse_members (Suc n) s = Some (kvs, r)"
    and V: "\<And>s j r. parse_value n s = Some (j, r) \<Longrightarrow> length r < length s"
    and M: "\<And>s kvs r. parse_members n s = Some (kvs, r) \<Longrightarrow> length r < length s"
  shows "length r < length s"
proof -
  obtain qs k r1 cs v r2 d ds where a: "skip_space s = quote_char # qs" "parse_str qs = Some (k, r1)"
    "skip_space r1 = CHR '':'' # cs" "parse_value n cs = Some (v, r2)" "skip_space r2 = d # ds"
    using p by (auto split: list.splits if_splits bind_splits)
  have "length ds < length s"
    using skip_space_shorter [OF a(1)] parse_str_shorter [OF a(2)] skip_space_shorter [OF a(3)] V [OF a(4)]
      skip_space_shorter [OF a(5)] by simp
  then show ?thesis using p a M [of ds] by (fastforce split: if_splits)
qed

lemma parse_shorter:
  "(\<forall>s j r. parse_value n s = Some (j, r) \<longrightarrow> length r < length s) \<and>
   (\<forall>s js r. parse_elems n s = Some (js, r) \<longrightarrow> length r < length s) \<and>
   (\<forall>s kvs r. parse_members n s = Some (kvs, r) \<longrightarrow> length r < length s)"
proof (induction n)
  case (Suc n)
  then show ?case
    using value_step_shorter [of n] elems_step_shorter [of n] members_step_shorter [of n]
    by (simp del: parse_value.simps parse_elems.simps parse_members.simps)
qed simp

lemmas value_shorter = parse_shorter [THEN conjunct1, rule_format]

text \<open>More depth changes nothing.\<close>

lemma more_depth:
  "(\<forall>s. 2 * length s < n \<longrightarrow> parse_value (Suc n) s = parse_value n s) \<and>
   (\<forall>s. 2 * length s + 1 < n \<longrightarrow> parse_elems (Suc n) s = parse_elems n s) \<and>
   (\<forall>s. 2 * length s + 1 < n \<longrightarrow> parse_members (Suc n) s = parse_members n s)"
proof (induction n)
  case (Suc n)
  then have V: "\<And>s. 2 * length s < n \<Longrightarrow> parse_value (Suc n) s = parse_value n s"
    and E: "\<And>s. 2 * length s + 1 < n \<Longrightarrow> parse_elems (Suc n) s = parse_elems n s"
    and M: "\<And>s. 2 * length s + 1 < n \<Longrightarrow> parse_members (Suc n) s = parse_members n s"
    by auto
  have "parse_value (Suc (Suc n)) s = parse_value (Suc n) s" if n: "2 * length s < Suc n" for s
  proof (cases "skip_space s")
    case (Cons c cs)
    have "2 * length (d # ds) + 1 < n" if "skip_space cs = d # ds" for d ds
      using skip_space_le [of cs] skip_space_shorter [OF Cons] that n by simp
    then show ?thesis using E M Cons
      by (simp del: parse_elems.simps parse_members.simps split: list.split)
  qed simp
  moreover have "parse_elems (Suc (Suc n)) s = parse_elems (Suc n) s" if n: "2 * length s + 1 < Suc n" for s
  proof -
    have v: "parse_value (Suc n) s = parse_value n s" using n by (intro V) simp
    show ?thesis
    proof (cases "parse_value n s")
      case (Some vr)
      obtain j r where vr: "vr = (j, r)" by (cases vr)
      have "2 * length cs + 1 < n" if "skip_space r = c # cs" for c cs
        using skip_space_shorter [OF that] value_shorter [of n s j r] Some vr n by simp
      then show ?thesis using E v Some vr unfolding parse_elems.simps v
        by (simp del: parse_value.simps parse_elems.simps split: list.split)
    qed (simp add: v del: parse_value.simps)
  qed
  moreover have "parse_members (Suc (Suc n)) s = parse_members (Suc n) s" if n: "2 * length s + 1 < Suc n" for s
  proof -
    note eqs = parse_members.simps(2) [of "Suc n" s] parse_members.simps(2) [of n s]
    note del = parse_value.simps parse_members.simps
    consider "skip_space s = []" | q qs where "skip_space s = q # qs" "q \<noteq> quote_char \<or> parse_str qs = None"
      | qs k r where "skip_space s = quote_char # qs" "parse_str qs = Some (k, r)"
      by (metis neq_Nil_conv option.exhaust prod.exhaust)
    then show ?thesis
    proof cases
      case (3 qs k r)
      show ?thesis
      proof (cases "skip_space r")
        case (Cons c cs)
        have cs: "length cs < length s"
          using skip_space_shorter [OF 3(1)] parse_str_shorter [OF 3(2)] skip_space_shorter [OF Cons] by simp
        have v: "parse_value (Suc n) cs = parse_value n cs" using n cs by (intro V) simp
        show ?thesis
        proof (cases "parse_value n cs")
          case None
          then show ?thesis unfolding eqs using 3 Cons v by (simp del: del)
        next
          case (Some vr)
          obtain j r2 where vr: "vr = (j, r2)" by (cases vr)
          have "2 * length ds + 1 < n" if "skip_space r2 = d # ds" for d ds
            using skip_space_shorter [OF that] value_shorter [of n cs j r2] Some vr n cs by simp
          then show ?thesis unfolding eqs using M v Some vr 3 Cons
            by (cases "skip_space r2") (simp_all del: del)
        qed
      qed (unfold eqs, use 3 in \<open>simp del: del\<close>)
    qed (unfold eqs, auto simp del: del)
  qed
  ultimately show ?case by blast
qed simp

text \<open>Twice the length of the text is enough, whatever the text.\<close>

lemma depth_is_enough: "2 * length s < n \<Longrightarrow> parse_value n s = parse_value (2 * length s + 2) s"
proof (induction n)
  case (Suc n)
  have more: "\<And>m. 2 * length s < m \<Longrightarrow> parse_value (Suc m) s = parse_value m s" using more_depth by blast
  show ?case
  proof (cases "2 * length s < n")
    case False
    then have "Suc n = 2 * length s + 1" using Suc.prems by simp
    then show ?thesis using more [of "2 * length s + 1"] by (simp del: parse_value.simps)
  qed (use Suc.IH more in \<open>simp del: parse_value.simps\<close>)
qed simp

end
