(* ===== verification/GameLines.thy ===== *)
theory GameLines
  imports GameSession JsonText
begin

text \<open>
  The messages of Connect-M as lines of text: every message the programs send comes back from its line,
  if the line fits into the buffer of \<open>bufio.Scanner\<close>; and for which boards it does.
\<close>

section \<open>What the programs send can be written\<close>

lemma messages_writable [simp]:
  "writable (sendConnect p i)" "writable (sendMove i c)" "writable (sendAckConnect ok p r)"
  "writable (sendNotifyStart q f t)" "writable (sendAckMove st n t)" "writable (sendNotifyWin w t)"
  "writable (sendAckInvalid r)" "writable (sendNotifyError r)"
  by (simp_all add: sendConnect_def sendMove_def sendAckConnect_def sendNotifyStart_def sendAckMove_def
      sendNotifyWin_def sendAckInvalid_def sendNotifyError_def encode_message_def)

section \<open>The length of a line\<close>

definition text_size :: "string \<Rightarrow> nat" where
  "text_size s = length (concat (map esc_char s))"

lemma text_size_append [simp]: "text_size (s @ t) = text_size s + text_size t"
  by (simp add: text_size_def)

lemma text_size_Nil [simp]: "text_size [] = 0"
  by (simp add: text_size_def)

lemma text_size_concat: "text_size (concat ss) = sum_list (map text_size ss)"
  by (induction ss) simp_all

lemma str_text_length: "length (str_text s) = text_size s + 2"
  by (simp add: str_text_def text_size_def)

lemma text_size_ge: "length s \<le> text_size s"
proof (induction s)
  case (Cons c s)
  have "1 \<le> length (esc_char c)" by (cases rule: esc_cases [of c]) auto
  then show ?case using Cons by (simp add: text_size_def)
qed simp

lemma text_size_Cons [simp]: "text_size (c # s) = length (esc_char c) + text_size s"
  by (simp add: text_size_def)

text \<open>The characters of a board take one place each, but a newline takes two.\<close>

lemma esc_sizes [simp]:
  "length (esc_char CHR '' '') = 1" "length (esc_char CHR ''+'') = 1" "length (esc_char CHR ''-'') = 1"
  "length (esc_char CHR ''|'') = 1" "length (esc_char CHR ''.'') = 1" "length (esc_char CHR ''X'') = 1"
  "length (esc_char CHR ''O'') = 1" "length (esc_char CHR ''K'') = 1" "length (esc_char CHR ''D'') = 1"
  "length (esc_char CHR ''R'') = 1" "length (esc_char CHR ''A'') = 1" "length (esc_char CHR ''W'') = 1"
  by code_simp+

lemma text_size_newline [simp]: "text_size newline = 2"
  by code_simp

lemma digit_size: "is_digit c \<Longrightarrow> length (esc_char c) = 1"
proof -
  assume d: "is_digit c"
  then have "c \<noteq> quote_char" "c \<noteq> backslash" "c \<noteq> CHR 0x0A" "c \<noteq> CHR 0x0D" "c \<noteq> CHR 0x09"
    "c \<noteq> CHR ''<''" "c \<noteq> CHR ''>''" "c \<noteq> CHR ''&''" "\<not> of_char c < (32 :: nat)"
    by (auto simp: is_digit_def)
  then show ?thesis by (simp add: esc_char_def)
qed

lemma digits_size: "(\<And>c. c \<in> set s \<Longrightarrow> is_digit c) \<Longrightarrow> text_size s = length s"
  by (induction s) (simp_all add: digit_size)

lemma nat_digits_length: "n < 10 ^ k \<Longrightarrow> 0 < k \<Longrightarrow> length (nat_digits n) \<le> k"
proof (induction k arbitrary: n)
  case (Suc k)
  show ?case
  proof (cases "n < 10")
    case False
    then have "0 < k" using Suc.prems by (cases k) auto
    moreover have "n div 10 < 10 ^ k" using Suc.prems(1) by (simp add: div_less_iff_less_mult mult.commute)
    ultimately show ?thesis using Suc.IH [of "n div 10"] False by (subst nat_digits.simps) simp
  qed (subst nat_digits.simps, simp)
qed simp

lemma border_size: "0 \<le> Cols b \<Longrightarrow> text_size (border b) = 2 * nat (Cols b) + 5"
  by (simp add: border_def text_size_concat o_def sum_list_triv)

lemma header_size:
  assumes "0 \<le> col" and "col < 99999"
  shows "text_size (header_cell b col) \<le> 6"
proof -
  have "length (nat_digits (nat (col + 1))) \<le> 5" using assms by (intro nat_digits_length) auto
  then show ?thesis
    using assms digits_size [of "nat_digits (nat (col + 1))"] nat_digits_digits by (simp add: header_cell_def Itoa_def)
qed

lemma cells_size:
  assumes "wf_board b" and "0 \<le> row" and "row < Rows b"
    and "\<And>c. c \<in> set cols \<Longrightarrow> 0 \<le> c \<and> c < Cols b" and "cells_text b row cols = Some t"
  shows "text_size t = 2 * length cols"
  using assms(4,5)
proof (induction cols arbitrary: t)
  case (Cons c cols)
  have v: "isValid b row c" using Cons.prems(1) assms(2,3) by (simp add: isValid_def)
  have p: "cell b row c = Some (cell_at b row c)" "cell_at b row c \<in> {Empty, Player1, Player2}"
    using v assms(1) cell_valid [of b row c] by (auto simp: wf_board_def)
  obtain t' where t': "cells_text b row cols = Some t'" "t = piece_text (cell_at b row c) @ t'"
    using Cons.prems(2) p(1) by (auto split: bind_splits)
  have "text_size (piece_text (cell_at b row c)) = 2" using p(2) by (auto simp: piece_text_def player_defs)
  then show ?case using Cons.IH [OF Cons.prems(1) t'(1)] t'(2) by simp
qed simp

lemma rows_size:
  assumes "wf_board b" and "\<And>r. r \<in> set rows \<Longrightarrow> 0 \<le> r \<and> r < Rows b" and "rows_text b rows = Some t"
  shows "text_size t = length rows * (2 * nat (Cols b) + 5)"
  using assms(2,3)
proof (induction rows arbitrary: t)
  case (Cons r rows)
  obtain u t' where u: "cells_text b r [0..Cols b - 1] = Some u" "rows_text b rows = Some t'"
    "t = '' |'' @ u @ ''|'' @ newline @ t'"
    using Cons.prems(2) by (auto split: bind_splits)
  have "text_size u = 2 * nat (Cols b)" using cells_size [OF assms(1) _ _ _ u(1)] Cons.prems(1) by simp
  then show ?case using Cons.IH [OF Cons.prems(1) u(2)] u(3) by simp
qed simp

lemma board_size:
  assumes "wf_board b" and "Board_String b = Some t"
  shows "text_size t = 4 + text_size (concat (map (header_cell b) [0..Cols b - 1])) +
    (nat (Rows b) + 2) * (2 * nat (Cols b) + 5)"
proof -
  obtain rs where rs: "rows_text b [0..Rows b - 1] = Some rs"
    "t = ''  '' @ concat (map (header_cell b) [0..Cols b - 1]) @ newline @ border b @ rs @ border b"
    using assms(2) by (auto simp: Board_String_def)
  have "0 \<le> Cols b" "0 \<le> Rows b" using assms(1) by (simp_all add: wf_board_def shaped_def)
  then show ?thesis
    using rows_size [OF assms(1) _ rs(1)] border_size [of b] rs(2) by (simp add: algebra_simps)
qed

section \<open>Which boards fit\<close>

lemma esc_lower [simp]:
  "length (esc_char CHR ''a'') = 1" "length (esc_char CHR ''b'') = 1" "length (esc_char CHR ''c'') = 1"
  "length (esc_char CHR ''d'') = 1" "length (esc_char CHR ''e'') = 1" "length (esc_char CHR ''f'') = 1"
  "length (esc_char CHR ''g'') = 1" "length (esc_char CHR ''h'') = 1" "length (esc_char CHR ''i'') = 1"
  "length (esc_char CHR ''j'') = 1" "length (esc_char CHR ''k'') = 1" "length (esc_char CHR ''l'') = 1"
  "length (esc_char CHR ''m'') = 1" "length (esc_char CHR ''n'') = 1" "length (esc_char CHR ''o'') = 1"
  "length (esc_char CHR ''p'') = 1" "length (esc_char CHR ''q'') = 1" "length (esc_char CHR ''r'') = 1"
  "length (esc_char CHR ''s'') = 1" "length (esc_char CHR ''t'') = 1" "length (esc_char CHR ''u'') = 1"
  "length (esc_char CHR ''v'') = 1" "length (esc_char CHR ''w'') = 1" "length (esc_char CHR ''x'') = 1"
  "length (esc_char CHR ''y'') = 1" "length (esc_char CHR ''z'') = 1" "length (esc_char CHR ''_'') = 1"
  by code_simp+

lemma win_length: "length (json_text (sendNotifyWin w t)) = text_size w + text_size t + 56"
  by (simp add: sendNotifyWin_def encode_message_def str_text_length)

lemma ack_length: "length (json_text (sendAckMove st n t)) = text_size st + text_size n + text_size t + 64"
  by (simp add: sendAckMove_def encode_message_def str_text_length)

lemma start_length: "length (json_text (sendNotifyStart q f t)) = text_size q + text_size f + text_size t + 76"
  by (simp add: sendNotifyStart_def encode_message_def str_text_length)

lemma sum_list_le_length: "(\<And>x. x \<in> set xs \<Longrightarrow> f x \<le> (k :: nat)) \<Longrightarrow> sum_list (map f xs) \<le> k * length xs"
  by (induction xs) (auto simp: add_mono)

lemma board_size_le:
  assumes "wf_board b" and "Board_String b = Some t" and "(Rows b + 5) * (2 * Cols b + 6) \<le> 65000"
  shows "text_size t \<le> 65000"
proof -
  have c: "0 \<le> Cols b" "0 \<le> Rows b" using assms(1) by (simp_all add: wf_board_def shaped_def)
  then have "5 * (2 * Cols b + 6) \<le> (Rows b + 5) * (2 * Cols b + 6)" by (intro mult_right_mono) auto
  then have "Cols b \<le> 9999" using assms(3) by simp
  then have "text_size x \<le> 6" if "x \<in> set (map (header_cell b) [0..Cols b - 1])" for x
    using that header_size by auto
  then have "text_size (concat (map (header_cell b) [0..Cols b - 1])) \<le> 6 * length (map (header_cell b) [0..Cols b - 1])"
    unfolding text_size_concat by (rule sum_list_le_length)
  then have "text_size (concat (map (header_cell b) [0..Cols b - 1])) \<le> 6 * nat (Cols b)" by simp
  then have "text_size t \<le> 4 + 6 * nat (Cols b) + (nat (Rows b) + 2) * (2 * nat (Cols b) + 5)"
    using board_size [OF assms(1,2)] by simp
  also have "\<dots> \<le> (nat (Rows b) + 5) * (2 * nat (Cols b) + 6)" by (simp add: algebra_simps)
  also have "\<dots> = nat ((Rows b + 5) * (2 * Cols b + 6))" using c by (simp add: nat_mult_distrib nat_add_distrib)
  finally show ?thesis using assms(3) by simp
qed

lemma board_size_ge:
  assumes "wf_board b" and "Board_String b = Some t"
  shows "2 * Rows b * Cols b \<le> int (text_size t)"
proof -
  have c: "0 \<le> Cols b" "0 \<le> Rows b" using assms(1) by (simp_all add: wf_board_def shaped_def)
  have "nat (Rows b) * (2 * nat (Cols b)) \<le> (nat (Rows b) + 2) * (2 * nat (Cols b) + 5)" by (intro mult_mono) auto
  then have "nat (Rows b) * (2 * nat (Cols b)) \<le> text_size t" using board_size [OF assms] by linarith
  then have "int (nat (Rows b) * (2 * nat (Cols b))) \<le> int (text_size t)" by linarith
  then show ?thesis using c by (simp add: mult.commute mult.left_commute)
qed

section \<open>Properties\<close>

text \<open>
  C25. Messages survive the wire: whatever sequence of messages is written to a connection, by the
  server or a client, the reader gets exactly these messages, each from its own line, if none is longer
  than the scanner's buffer, and what follows them on the stream is not touched.
\<close>

theorem messages_survive:
  assumes "\<And>j. j \<in> set js \<Longrightarrow> writable j \<and> fits j"
  shows "read_lines (write_lines js @ rest) = map Some js @ read_lines rest"
  using assms by (intro read_write) (auto simp: list_all_iff)

theorem messages_survive_witness:
  "read_lines (write_lines [sendConnect ''X'' ''a<b'', sendMove ''a<b'' (-3)] @ ''{'') =
     [Some (sendConnect ''X'' ''a<b''), Some (sendMove ''a<b'' (-3)), None]"
proof -
  have "Itoa (-3) = ''-3''" "length (esc_char CHR ''<'') = 6" by code_simp+
  then have f: "fits (sendConnect ''X'' ''a<b'')" "fits (sendMove ''a<b'' (-3))"
    by (simp_all add: fits_def MaxScanTokenSize_def sendConnect_def sendMove_def encode_message_def str_text_length)
  have "json_parse ''{'' = None" by code_simp
  then have "read_lines ''{'' = [None]"
    unfolding read_lines_def by (subst scan_lines.simps) (simp add: MaxScanTokenSize_def drop_cr_def)
  moreover have "read_lines (write_lines [sendConnect ''X'' ''a<b'', sendMove ''a<b'' (-3)] @ ''{'') =
      map Some [sendConnect ''X'' ''a<b'', sendMove ''a<b'' (-3)] @ read_lines ''{''"
    by (rule messages_survive) (use f in auto)
  ultimately show ?thesis by simp
qed

text \<open>
  C26. The size of a board decides whether its players see it: up to a size of about 65000 characters,
  every message with the board fits and arrives; from 65536 characters of cells on, none does, and the
  client reads nothing that comes after it either, so it never learns of the move or of the end.
\<close>

theorem boards_that_fit:
  assumes "wf_board b" and "Board_String b = Some t" and "{p, q} \<subseteq> {'''', ''X'', ''O''}" and "st \<in> {''OK'', ''DRAW''}"
  defines "msgs \<equiv> {sendAckMove st p t, sendNotifyWin p t, sendNotifyStart q p t}"
  shows "((Rows b + 5) * (2 * Cols b + 6) \<le> 65000 \<longrightarrow>
      (\<forall>j \<in> msgs. read_lines (write_lines [j] @ rest) = Some j # read_lines rest)) \<and>
    (65536 \<le> 2 * Rows b * Cols b \<longrightarrow>
      (\<forall>j \<in> msgs. client_messages cl (read_lines (write_lines [j] @ rest)) = cl))"
proof (intro conjI impI ballI)
  have sz: "text_size p \<le> 1" "text_size q \<le> 1" "text_size st \<le> 4" using assms(3,4) by auto
  have w: "writable j" if "j \<in> msgs" for j using that by (auto simp: msgs_def)
  show "read_lines (write_lines [j] @ rest) = Some j # read_lines rest"
    if "(Rows b + 5) * (2 * Cols b + 6) \<le> 65000" "j \<in> msgs" for j
  proof -
    have "fits j" using that(2) sz board_size_le [OF assms(1,2) that(1)]
      by (auto simp: msgs_def fits_def MaxScanTokenSize_def win_length ack_length start_length)
    then show ?thesis using read_write [of "[j]" rest] w [OF that(2)] by simp
  qed
  show "client_messages cl (read_lines (write_lines [j] @ rest)) = cl"
    if "65536 \<le> 2 * Rows b * Cols b" "j \<in> msgs" for j
  proof -
    have "65536 \<le> text_size t" using board_size_ge [OF assms(1,2)] that(1) by linarith
    then have "MaxScanTokenSize \<le> length (json_text j)"
      using that(2) by (auto simp: msgs_def MaxScanTokenSize_def win_length ack_length start_length)
    then have "scan_lines (json_text j @ CHR 0x0A # rest) = []"
      using scan_too_long json_text_one_line [OF w [OF that(2)]] by simp
    then show ?thesis by (simp add: read_lines_def write_lines_def)
  qed
qed

text \<open>The board of 6 rows and 7 columns, and one of 200 by 200.\<close>

theorem boards_that_fit_witness:
  "(\<exists>b t. NewBoard 6 7 4 = Some b \<and> Board_String b = Some t \<and>
      read_lines (write_lines [sendNotifyWin ''X'' t] @ ''x'') = Some (sendNotifyWin ''X'' t) # read_lines ''x'') \<and>
   (\<exists>b t. NewBoard 200 200 4 = Some b \<and> Board_String b = Some t \<and>
      client_messages (client_start [''client'', ''O'', ''1'', ''srv''] (\<lambda>_. Some ''c'')) (read_lines (write_lines [sendNotifyWin ''X'' t] @ ''x'')) =
      client_start [''client'', ''O'', ''1'', ''srv''] (\<lambda>_. Some ''c''))"
proof -
  have board: "\<exists>b t. NewBoard rows cols 4 = Some b \<and> wf_board b \<and> Rows b = rows \<and> Cols b = cols \<and> Board_String b = Some t"
    if "0 < rows" "0 < cols" for rows cols
    using NewBoard_wf [of rows cols 4] that Board_String_Some by (fastforce simp: wf_board_def)
  obtain b t where b: "NewBoard 6 7 4 = Some b" "wf_board b" "Rows b = 6" "Cols b = 7" "Board_String b = Some t"
    using board [of 6 7] by auto
  obtain b' t' where b': "NewBoard 200 200 4 = Some b'" "wf_board b'" "Rows b' = 200" "Cols b' = 200" "Board_String b' = Some t'"
    using board [of 200 200] by auto
  have p: "{''X'', ''''} \<subseteq> {'''', ''X'', ''O''}" "''OK'' \<in> {''OK'', ''DRAW''}" by auto
  have "read_lines (write_lines [sendNotifyWin ''X'' t] @ ''x'') = Some (sendNotifyWin ''X'' t) # read_lines ''x''"
    using boards_that_fit [OF b(2,5) p, of "''x''"] b(3,4) by auto
  moreover have "client_messages (client_start [''client'', ''O'', ''1'', ''srv''] (\<lambda>_. Some ''c'')) (read_lines (write_lines [sendNotifyWin ''X'' t'] @ ''x'')) =
      client_start [''client'', ''O'', ''1'', ''srv''] (\<lambda>_. Some ''c'')"
    using boards_that_fit [OF b'(2,5) p, of "''x''"] b'(3,4) by auto
  ultimately show ?thesis using b b' by blast
qed

end
