(* ===== verification/GameTui.thy ===== *)
theory GameTui
  imports GameRules
begin

text \<open>
  The terminal game for two players at one keyboard (\<open>hw1/tui/main.go\<close>). Input is the list of lines that
  will be typed; running out of lines is the program waiting for ever (it asks again after a read
  error), the outcome \<open>Waiting\<close>. Prompts and messages on the screen are left out.
\<close>

section \<open>State\<close>

record GameState =
  gs_Board :: Board
  CurrentPlayer :: Player

definition NewGame :: "int \<Rightarrow> int \<Rightarrow> int \<Rightarrow> GameState go" where
  "NewGame rows cols m = map_option (\<lambda>b. \<lparr>gs_Board = b, CurrentPlayer = Player1\<rparr>) (NewBoard rows cols m)"

definition SwitchPlayer :: "GameState \<Rightarrow> GameState" where
  "SwitchPlayer g = g\<lparr>CurrentPlayer := (if CurrentPlayer g = Player1 then Player2 else Player1)\<rparr>"

definition GetPlayerSymbol :: "Player \<Rightarrow> string" where
  "GetPlayerSymbol p = (if p = Player1 then ''X'' else ''O'')"

definition GetPlayerName :: "Player \<Rightarrow> string" where
  "GetPlayerName p = (if p = Player1 then ''Player 1'' else ''Player 2'')"

text \<open>\<open>RenderBoard\<close> clears the screen and prints the board.\<close>

definition RenderBoard :: "Board \<Rightarrow> string go" where
  "RenderBoard b =
     then_do (Board_String b) (\<lambda>t.
       Some ([CHR 0x1B] @ ''[H'' @ [CHR 0x1B] @ ''[2J'' @ newline @ ''=== Connect-M ==='' @ newline @
         ''(Connect '' @ Itoa (bd_M b) @ '' to win)'' @ newline @ newline @ t))"

section \<open>Input\<close>

text \<open>
  \<open>GetPlayerInput\<close>: the column (from 0), or \<open>-1\<close> to quit, with the lines left; \<open>None\<close> if no line
  decides. The outer option is the panic.
\<close>

fun GetPlayerInput :: "Board \<Rightarrow> string list \<Rightarrow> (int \<times> string list) option go" where
  "GetPlayerInput b [] = Some None"
| "GetPlayerInput b (line # lines) =
     (let input = TrimSpace line
      in if ToLower input = ''q'' then Some (Some (- 1, lines))
         else case Atoi input of
           None \<Rightarrow> GetPlayerInput b lines
         | Some n \<Rightarrow>
             let col = n - 1
             in if col < 0 \<or> col \<ge> Cols b then GetPlayerInput b lines
                else then_do (IsColumnFull b col) (\<lambda>full.
                  if full then GetPlayerInput b lines else Some (Some (col, lines))))"

text \<open>
  The configuration loops of \<open>main\<close>: the default on an empty line, which is also what the end of the
  input gives, otherwise a number in range.
\<close>

fun read_number :: "int \<Rightarrow> (int \<Rightarrow> bool) \<Rightarrow> string list \<Rightarrow> int \<times> string list" where
  "read_number dflt ok [] = (dflt, [])"
| "read_number dflt ok (line # lines) =
     (let input = TrimSpace line
      in if input = '''' then (dflt, lines)
         else case Atoi input of
           None \<Rightarrow> read_number dflt ok lines
         | Some n \<Rightarrow> if ok n then (n, lines) else read_number dflt ok lines)"

definition read_config :: "string list \<Rightarrow> (int \<times> int \<times> int) \<times> string list" where
  "read_config lines =
     (let (rows, lines) = read_number 6 (\<lambda>n. \<not> n < 4) lines;
          (cols, lines) = read_number 7 (\<lambda>n. \<not> n < 4) lines;
          (m, lines) = read_number 4 (\<lambda>n. \<not> (n < 3 \<or> n > rows \<or> n > cols)) lines
      in ((rows, cols, m), lines))"

section \<open>The game loop\<close>

datatype outcome = Quit GameState | Wins Player GameState | Draw GameState | Waiting GameState

text \<open>
  One turn: the outcome if the game stops, or the next state with the lines left. When \<open>MakeMove\<close>
  fails the player presses Enter, which consumes a line.
\<close>

definition play_turn :: "GameState \<Rightarrow> string list \<Rightarrow> (outcome + (GameState \<times> string list)) go" where
  "play_turn g lines =
     then_do (RenderBoard (gs_Board g)) (\<lambda>screen. then_do (GetPlayerInput (gs_Board g) lines) (\<lambda>inp.
       case inp of
         None \<Rightarrow> Some (Inl (Waiting g))
       | Some (col, lines) \<Rightarrow>
           if col = -1 then Some (Inl (Quit g))
           else then_do (MakeMove (gs_Board g) col (CurrentPlayer g)) (\<lambda>(b, res).
             let g = g\<lparr>gs_Board := b\<rparr>
             in case res of
                  Inl e \<Rightarrow> Some (Inr (g, drop 1 lines))
                | Inr row \<Rightarrow>
                    then_do (CheckWin b) (\<lambda>won.
                      if won then map_option (\<lambda>screen. Inl (Wins (CurrentPlayer g) g)) (RenderBoard b)
                      else then_do (IsFull b) (\<lambda>full.
                        if full then map_option (\<lambda>screen. Inl (Draw g)) (RenderBoard b)
                        else Some (Inr (SwitchPlayer g, lines)))))))"

lemma RenderBoard_Some: "wf_board b \<Longrightarrow> \<exists>t. RenderBoard b = Some t"
  using Board_String_Some [of b] by (auto simp: RenderBoard_def wf_board_def)

lemma GetPlayerInput_shorter: "GetPlayerInput b lines = Some (Some (col, rest)) \<Longrightarrow> length rest < length lines"
proof (induction lines)
  case (Cons line lines)
  then show ?case
    by (auto simp: Let_def less_SucI split: if_splits option.splits bind_splits)
qed simp

lemma play_turn_shorter: "play_turn g lines = Some (Inr (g', rest)) \<Longrightarrow> length rest < length lines"
  by (auto simp: play_turn_def Let_def split: if_splits option.splits bind_splits sum.splits prod.splits
      dest!: GetPlayerInput_shorter)

function play_loop :: "GameState \<Rightarrow> string list \<Rightarrow> outcome go" where
  "play_loop g lines =
     then_do (play_turn g lines) (\<lambda>r. case r of Inl out \<Rightarrow> Some out | Inr (g', rest) \<Rightarrow> play_loop g' rest)"
  by pat_completeness auto
termination
  by (relation "measure (\<lambda>(g, lines). length lines)") (auto dest: play_turn_shorter)

declare play_loop.simps [simp del]

definition PlayGame :: "int \<Rightarrow> int \<Rightarrow> int \<Rightarrow> string list \<Rightarrow> outcome go" where
  "PlayGame rows cols m lines = then_do (NewGame rows cols m) (\<lambda>g. play_loop g lines)"

text \<open>\<open>main\<close>, with the line that waits for Enter.\<close>

definition tui_main :: "string list \<Rightarrow> outcome go" where
  "tui_main lines = (case read_config lines of ((rows, cols, m), lines) \<Rightarrow> PlayGame rows cols m (drop 1 lines))"

section \<open>Facts\<close>

text \<open>The column the player is asked for can be played: the error branch of \<open>PlayGame\<close> is never taken.\<close>

lemma column_full:
  assumes "wf_board b" and "0 < Rows b" and "0 \<le> col" and "col < Cols b"
  shows "IsColumnFull b col = Some (cell_at b 0 col \<noteq> Empty)"
  using assms cell_valid [of b 0 col] by (simp add: IsColumnFull_def wf_board_def isValid_def)

lemma GetPlayerInput_ok:
  assumes wf: "wf_board b" "0 < Rows b"
  shows "\<exists>r. GetPlayerInput b lines = Some r \<and>
    (\<forall>col rest. r = Some (col, rest) \<longrightarrow> col = -1 \<or> 0 \<le> col \<and> col < Cols b \<and> cell_at b 0 col = Empty)"
proof (induction lines)
  case (Cons line lines)
  show ?case
  proof (cases "Atoi (TrimSpace line)")
    case (Some n)
    then show ?thesis
      using Cons column_full [OF wf, of "n - 1"] by (cases "n - 1 < 0 \<or> Cols b \<le> n - 1") (auto simp: Let_def)
  qed (use Cons in \<open>auto simp: Let_def\<close>)
qed simp

text \<open>A running game: the board is well formed, nobody has won, and it is a player's turn.\<close>

definition playing :: "GameState \<Rightarrow> bool" where
  "playing g \<longleftrightarrow>
     wf_board (gs_Board g) \<and> 0 < Rows (gs_Board g) \<and> CurrentPlayer g \<in> {Player1, Player2} \<and>
     \<not> has_line (gs_Board g) Player1 \<and> \<not> has_line (gs_Board g) Player2"

lemma play_turn_ok:
  assumes g: "playing g"
  shows "\<exists>r. play_turn g lines = Some r \<and>
    (case r of
       Inl (Wins p g') \<Rightarrow> p = CurrentPlayer g \<and> has_line (gs_Board g') p
     | Inl (Draw g') \<Rightarrow> (\<forall>x c. isValid (gs_Board g') x c \<longrightarrow> cell_at (gs_Board g') x c \<noteq> Empty)
     | Inl _ \<Rightarrow> True
     | Inr (g', rest) \<Rightarrow> playing g' \<and> CurrentPlayer g' \<noteq> CurrentPlayer g)"
proof -
  let ?b = "gs_Board g" and ?p = "CurrentPlayer g"
  have wf: "wf_board ?b" "0 < Rows ?b" and p: "?p = Player1 \<or> ?p = Player2" using g by (auto simp: playing_def)
  obtain r where r: "GetPlayerInput ?b lines = Some r"
    "\<And>col rest. r = Some (col, rest) \<Longrightarrow> col = -1 \<or> 0 \<le> col \<and> col < Cols ?b \<and> cell_at ?b 0 col = Empty"
    using GetPlayerInput_ok [OF wf] by blast
  consider "r = None" | rest where "r = Some (-1, rest)"
    | col rest where "r = Some (col, rest)" "col \<noteq> -1" "0 \<le> col" "col < Cols ?b" "cell_at ?b 0 col = Empty"
    using r(2) by (cases r) force+
  then show ?thesis
  proof cases
    case (3 col rest)
    have "move_error ?b col ?p = None" using 3 p wf by (auto simp: move_error_def)
    then obtain b' row where mv: "MakeMove ?b col ?p = Some (b', Inr row)" using MakeMove_ok [OF wf(1)] by blast
    note m = MakeMove_Inr [OF wf(1) mv]
    have e: "cell_at ?b row col = Empty" using m(3,5) by (auto simp: isValid_def)
    have rows: "0 < Rows b'" using m(2) wf(2) by (simp add: placed_def)
    let ?q = "if ?p = Player1 then Player2 else Player1"
    have q: "?q \<noteq> ?p" "?q \<noteq> Empty" "?p \<noteq> Empty" using p by (auto simp: player_defs)
    have other: "\<not> has_line b' ?q" using other_lines [OF m(2) q(1) e q(2)] g by (auto simp: playing_def)
    obtain t t' where screens: "RenderBoard ?b = Some t" "RenderBoard b' = Some t'"
      using RenderBoard_Some [OF wf(1)] RenderBoard_Some [OF m(1)] by blast
    have win: "CheckWin b' = Some (has_line b' ?p)"
      by (rule CheckWin_has_line [OF m(1,2)]) (use g p in \<open>auto simp: playing_def\<close>)
    show ?thesis
      using screens mv r(1) 3 win IsFull_result [OF m(1) rows] m(1) rows p other
      by (auto simp: play_turn_def Let_def playing_def SwitchPlayer_def player_defs split: if_splits)
  qed (use RenderBoard_Some [OF wf(1)] in \<open>auto simp: play_turn_def r(1)\<close>)
qed

text \<open>The game never panics and ends only as the rules say.\<close>

lemma play_loop_ok:
  "playing g \<Longrightarrow> \<exists>out. play_loop g lines = Some out \<and>
     (case out of Wins p g' \<Rightarrow> has_line (gs_Board g') p
      | Draw g' \<Rightarrow> (\<forall>x c. isValid (gs_Board g') x c \<longrightarrow> cell_at (gs_Board g') x c \<noteq> Empty) | _ \<Rightarrow> True)"
proof (induction lines arbitrary: g rule: length_induct)
  case (1 lines)
  obtain r where r: "play_turn g lines = Some r" and ok: "case r of
       Inl (Wins p g') \<Rightarrow> p = CurrentPlayer g \<and> has_line (gs_Board g') p
     | Inl (Draw g') \<Rightarrow> (\<forall>x c. isValid (gs_Board g') x c \<longrightarrow> cell_at (gs_Board g') x c \<noteq> Empty)
     | Inl _ \<Rightarrow> True
     | Inr (g', rest) \<Rightarrow> playing g' \<and> CurrentPlayer g' \<noteq> CurrentPlayer g"
    using play_turn_ok [OF 1(2)] by blast
  show ?case
  proof (cases r)
    case (Inl out)
    then show ?thesis using r ok by (subst play_loop.simps) (auto split: outcome.splits)
  next
    case (Inr gr)
    obtain g' rest where gr: "gr = (g', rest)" by (cases gr)
    have "length rest < length lines" using play_turn_shorter r Inr gr by blast
    then show ?thesis using 1(1) r ok Inr gr by (subst play_loop.simps) auto
  qed
qed

lemma PlayGame_ok:
  assumes "0 < rows" "0 \<le> cols" "0 < m"
  shows "\<exists>out. PlayGame rows cols m lines = Some out"
proof -
  obtain b where b: "NewBoard rows cols m = Some b" "wf_board b" "Rows b = rows" "bd_M b = m"
    "\<And>r c. isValid b r c \<Longrightarrow> cell_at b r c = Empty" using NewBoard_wf [of rows cols m] assms by auto
  have "playing \<lparr>gs_Board = b, CurrentPlayer = Player1\<rparr>"
    using b assms empty_no_line [OF b(5)] by (auto simp: playing_def player_defs)
  then show ?thesis using play_loop_ok b(1) by (fastforce simp: PlayGame_def NewGame_def)
qed

end
