(* ===== verification/GameAgreement.thy ===== *)
theory GameAgreement
  imports GameTui GameServerTheorems
begin

text \<open>
  The terminal game and the server play the same game, although they share only \<open>game.go\<close>: each drives
  the board with code of its own.
\<close>

section \<open>The server's version of a terminal game\<close>

text \<open>
  Two connections, one per player. The numbers among the typed lines, up to the line that quits, go to the
  server as they are, each from the player whose turn it is there: the server has to sort out by itself
  what is no column of the board and what is full.
\<close>

definition conn_of :: "string \<Rightarrow> conn" where
  "conn_of piece = (if piece = ''X'' then 1 else 2)"

definition join_both :: "server_event list" where
  "join_both = [Line 1 (Some (sendConnect ''X'' ''X'')), Line 2 (Some (sendConnect ''O'' ''O''))]"

definition move_line :: "string \<Rightarrow> int \<Rightarrow> server_event" where
  "move_line piece n = Line (conn_of piece) (Some (sendMove piece n))"

fun numbers_typed :: "string list \<Rightarrow> int list" where
  "numbers_typed [] = []"
| "numbers_typed (line # lines) =
     (let input = TrimSpace line
      in if ToLower input = ''q'' then []
         else case Atoi input of None \<Rightarrow> numbers_typed lines | Some n \<Rightarrow> n # numbers_typed lines)"

fun send_all :: "GameServer \<Rightarrow> int list \<Rightarrow> (GameServer \<times> sends) go" where
  "send_all srv [] = Some (srv, [])"
| "send_all srv (n # ns) =
     then_do (server_step srv (move_line (currentTurn srv) n)) (\<lambda>(srv1, out).
       map_option (\<lambda>(srv2, out'). (srv2, out @ out')) (send_all srv1 ns))"

text \<open>A running server and a running terminal game with the same position.\<close>

definition same_game :: "GameServer \<Rightarrow> GameState \<Rightarrow> bool" where
  "same_game srv g \<longleftrightarrow>
     board srv = Some (gs_Board g) \<and> currentTurn srv = GetPlayerSymbol (CurrentPlayer g) \<and> \<not> gameOver srv \<and>
     playerRegistry srv ''X'' = Some ''X'' \<and> playerRegistry srv ''O'' = Some ''O'' \<and>
     playerConns srv ''X'' = Some 1 \<and> playerConns srv ''O'' = Some 2"

fun position :: "outcome \<Rightarrow> GameState" where
  "position (Quit g) = g"
| "position (Wins p g) = g"
| "position (Draw g) = g"
| "position (Waiting g) = g"

text \<open>The server after the game that the terminal has ended or left.\<close>

definition same_outcome :: "GameServer \<Rightarrow> sends \<Rightarrow> outcome \<Rightarrow> bool" where
  "same_outcome srv sent out \<longleftrightarrow>
     board srv = Some (gs_Board (position out)) \<and>
     (case out of
        Wins p g \<Rightarrow> gameOver srv \<and>
          (\<exists>t. Board_String (gs_Board g) = Some t \<and>
             {(1, sendNotifyWin (GetPlayerSymbol p) t), (2, sendNotifyWin (GetPlayerSymbol p) t)} \<subseteq> set sent)
      | Draw g \<Rightarrow> gameOver srv \<and>
          (\<exists>t. Board_String (gs_Board g) = Some t \<and>
             {(1, sendAckMove ''DRAW'' '''' t), (2, sendAckMove ''DRAW'' '''' t)} \<subseteq> set sent)
      | _ \<Rightarrow> same_game srv (position out))"

section \<open>One turn\<close>

lemma symbol_player: "p = Player1 \<or> p = Player2 \<Longrightarrow> pieceToPlayer (GetPlayerSymbol p) = p"
  by (auto simp: pieceToPlayer_def GetPlayerSymbol_def player_defs)

lemma symbol_piece: "GetPlayerSymbol p = ''X'' \<or> GetPlayerSymbol p = ''O''"
  by (simp add: GetPlayerSymbol_def)

lemma Atoi_fits: "Atoi s = Some n \<Longrightarrow> - (2 ^ 63) \<le> n \<and> n < 2 ^ 63"
  by (auto simp: Atoi_def Let_def split: option.splits if_splits prod.splits)

lemma input_fits:
  "GetPlayerInput b lines = Some (Some (col, rest)) \<Longrightarrow> - (2 ^ 63) \<le> col + 1 \<and> col + 1 < 2 ^ 63"
proof (induction lines)
  case (Cons line lines)
  then show ?case using Atoi_fits by (auto simp: Let_def split: if_splits option.splits bind_splits)
qed simp

text \<open>The server handles the line of a move with the same calls on the board.\<close>

lemma server_move:
  assumes g: "same_game srv g" and p: "CurrentPlayer g = Player1 \<or> CurrentPlayer g = Player2"
    and n: "- (2 ^ 63) \<le> n" "n < 2 ^ 63" and mv: "MakeMove (gs_Board g) (n - 1) (CurrentPlayer g) = Some (b, res)"
  shows "server_step srv (move_line (currentTurn srv) n) =
    (case res of
       Inr row \<Rightarrow> after_move (srv\<lparr>board := Some b\<rparr>) b (currentTurn srv)
     | Inl e \<Rightarrow> Some (srv, [(conn_of (currentTurn srv), sendAckInvalid
         (if e = ''column out of bounds'' then ''column out of range'' else e))]))"
proof -
  let ?t = "currentTurn srv"
  obtain d where d: "decode_message (sendMove ?t n) = Some \<lparr>msg_Type = ''cs_send_move'', msg_Data = d\<rparr>"
    "move_payload d = Some (?t, n)"
    using to_server_roundtrips(2) [OF n, of ?t] by (auto simp: arrives_def)
  have t: "?t = GetPlayerSymbol (CurrentPlayer g)" using g by (simp add: same_game_def)
  have "playerRegistry srv ?t = Some ?t" using g symbol_piece [of "CurrentPlayer g"] by (auto simp: same_game_def)
  moreover have "pieceToPlayer ?t = CurrentPlayer g" using symbol_player [OF p] t by simp
  ultimately show ?thesis
    using g d mv
    by (cases res) (simp_all add: server_step_def move_line_def handle_line_def handleSendMove_def same_game_def)
qed

text \<open>What the terminal refuses, the server refuses, and the position stays.\<close>

lemma server_refuses:
  assumes g: "same_game srv g" "playing g" and n: "Atoi line = Some n"
    and bad: "n - 1 < 0 \<or> n - 1 \<ge> Cols (gs_Board g) \<or> cell_at (gs_Board g) 0 (n - 1) \<noteq> Empty"
  shows "\<exists>out. server_step srv (move_line (currentTurn srv) n) = Some (srv, out)"
proof -
  have wf: "wf_board (gs_Board g)" and p: "CurrentPlayer g = Player1 \<or> CurrentPlayer g = Player2"
    using g(2) by (auto simp: playing_def)
  have "\<exists>e. move_error (gs_Board g) (n - 1) (CurrentPlayer g) = Some e" using bad by (auto simp: move_error_def)
  then obtain e where "move_error (gs_Board g) (n - 1) (CurrentPlayer g) = Some e" by blast
  then have "MakeMove (gs_Board g) (n - 1) (CurrentPlayer g) = Some (gs_Board g, Inl e)" by (rule MakeMove_error [OF wf])
  from server_move [OF g(1) p _ _ this] show ?thesis using Atoi_fits [OF n] by auto
qed

text \<open>After the end every number is refused.\<close>

lemma numbers_fit: "n \<in> set (numbers_typed lines) \<Longrightarrow> - (2 ^ 63) \<le> n \<and> n < 2 ^ 63"
  by (induction lines) (auto simp: Let_def Atoi_fits split: if_splits option.splits dest: Atoi_fits)

lemma over_refuses:
  assumes "gameOver srv"
  shows "(\<And>n. n \<in> set ns \<Longrightarrow> - (2 ^ 63) \<le> n \<and> n < 2 ^ 63) \<Longrightarrow> \<exists>out. send_all srv ns = Some (srv, out)"
proof (induction ns)
  case (Cons n ns)
  obtain d where d: "decode_message (sendMove (currentTurn srv) n) = Some \<lparr>msg_Type = ''cs_send_move'', msg_Data = d\<rparr>"
    "move_payload d = Some (currentTurn srv, n)"
    using to_server_roundtrips(2) [of n "currentTurn srv"] Cons.prems [of n] by (auto simp: arrives_def)
  then have "\<exists>o1. server_step srv (move_line (currentTurn srv) n) = Some (srv, o1)"
    using assms
    by (auto simp: server_step_def move_line_def handle_line_def handleSendMove_def split: option.splits)
  then show ?case using Cons by auto
qed simp

text \<open>The lines that \<open>GetPlayerInput\<close> reads: all but the last number are refused by the server as well.\<close>

definition follows :: "GameServer \<Rightarrow> int list \<Rightarrow> GameServer \<Rightarrow> int list \<Rightarrow> bool" where
  "follows srv ns srv' ns' \<longleftrightarrow>
     (\<exists>o1. \<forall>srv2 o2. send_all srv' ns' = Some (srv2, o2) \<longrightarrow> send_all srv ns = Some (srv2, o1 @ o2))"

lemma follows_refl: "follows srv ns srv ns"
  unfolding follows_def by (intro exI [of _ "[]"]) simp

lemma follows_step: "server_step srv (move_line (currentTurn srv) n) = Some (srv', out) \<Longrightarrow> follows srv (n # ns) srv' ns"
  unfolding follows_def by (intro exI [of _ out]) auto

lemma follows_trans: "follows a xs b ys \<Longrightarrow> follows b ys c zs \<Longrightarrow> follows a xs c zs"
  unfolding follows_def by (metis append.assoc)

lemma input_agrees:
  assumes g: "same_game srv g" "playing g"
  shows "GetPlayerInput (gs_Board g) lines = Some inp \<Longrightarrow>
    follows srv (numbers_typed lines) srv
      (case inp of Some (col, rest) \<Rightarrow> if col = -1 then [] else (col + 1) # numbers_typed rest | None \<Rightarrow> [])"
proof (induction lines)
  case Nil
  then show ?case by (simp add: follows_refl)
next
  case (Cons line lines)
  have wf: "wf_board (gs_Board g)" "0 < Rows (gs_Board g)" using g(2) by (auto simp: playing_def)
  let ?in = "TrimSpace line"
  consider "ToLower ?in = ''q''" | "ToLower ?in \<noteq> ''q''" "Atoi ?in = None"
    | n where "ToLower ?in \<noteq> ''q''" "Atoi ?in = Some n"
    by (cases "Atoi ?in") auto
  then show ?case
  proof cases
    case (3 n)
    let ?bad = "n - 1 < 0 \<or> n - 1 \<ge> Cols (gs_Board g) \<or> cell_at (gs_Board g) 0 (n - 1) \<noteq> Empty"
    show ?thesis
    proof (cases ?bad)
      case True
      then have "GetPlayerInput (gs_Board g) lines = Some inp"
        using Cons.prems 3 column_full [OF wf, of "n - 1"] by (auto simp: Let_def split: if_splits)
      note rest = Cons.IH [OF this]
      obtain out where "server_step srv (move_line (currentTurn srv) n) = Some (srv, out)"
        using server_refuses [OF g 3(2) True] by blast
      from follows_trans [OF follows_step [OF this] rest] show ?thesis using 3 by simp
    next
      case False
      then have "inp = Some (n - 1, lines)"
        using Cons.prems 3 column_full [OF wf, of "n - 1"] by (auto simp: Let_def)
      then show ?thesis using 3 False by (auto simp: follows_refl)
    qed
  qed (use Cons follows_refl in \<open>auto simp: Let_def\<close>)
qed

text \<open>The number that \<open>GetPlayerInput\<close> takes is a move of the server.\<close>

lemma move_agrees:
  assumes g: "same_game srv g" "playing g" and pt: "play_turn g lines = Some r"
    and i: "GetPlayerInput (gs_Board g) lines = Some (Some (col, rest))" "col \<noteq> -1"
  shows "\<exists>srv' sent. server_step srv (move_line (currentTurn srv) (col + 1)) = Some (srv', sent) \<and>
    (case r of
      Inr (g', rest') \<Rightarrow> rest' = rest \<and> same_game srv' g'
    | Inl out \<Rightarrow> gameOver srv' \<and> same_outcome srv' sent out)"
proof -
  let ?b = "gs_Board g" and ?p = "CurrentPlayer g"
  have wf: "wf_board ?b" "0 < Rows ?b" and p: "?p = Player1 \<or> ?p = Player2" using g(2) by (auto simp: playing_def)
  obtain s where scr: "RenderBoard ?b = Some s" using pt by (auto simp: play_turn_def split: bind_splits)
  have "0 \<le> col" "col < Cols ?b" "cell_at ?b 0 col = Empty" using GetPlayerInput_ok [OF wf, of lines] i by auto
  then have "move_error ?b col ?p = None" using p wf by (auto simp: move_error_def)
  then obtain b row where mv: "MakeMove ?b col ?p = Some (b, Inr row)" using MakeMove_ok [OF wf(1)] by blast
  have srv: "server_step srv (move_line (currentTurn srv) (col + 1)) =
      after_move (srv\<lparr>board := Some b\<rparr>) b (currentTurn srv)"
    using server_move [OF g(1) p, of "col + 1" b "Inr row"] input_fits [OF i(1)] mv by simp
  have conns: "playerConns srv ''X'' = Some 1" "playerConns srv ''O'' = Some 2"
    "currentTurn srv = GetPlayerSymbol ?p" using g(1) by (auto simp: same_game_def)
  let ?g = "g\<lparr>gs_Board := b\<rparr>"
  obtain t where t: "Board_String b = Some t"
    using Board_String_Some [of b] MakeMove_Inr(1) [OF wf(1) mv] by (auto simp: wf_board_def)
  note pt = pt scr i mv
  obtain won where won: "CheckWin b = Some won" using pt by (auto simp: play_turn_def Let_def split: bind_splits)
  show ?thesis
  proof (cases won)
    case True
    then have "r = Inl (Wins ?p ?g)" using pt won by (auto simp: play_turn_def Let_def)
    moreover have "after_move (srv\<lparr>board := Some b\<rparr>) b (currentTurn srv) =
        Some (srv\<lparr>board := Some b, gameOver := True\<rparr>, broadcast (sendNotifyWin (currentTurn srv) t) [Some 1, Some 2])"
      using True won t conns by (simp add: after_move_def)
    ultimately show ?thesis using srv t conns(3) by (auto simp: same_outcome_def broadcast_def)
  next
    case no_win: False
    obtain full where full: "IsFull b = Some full"
      using pt won no_win by (auto simp: play_turn_def Let_def split: bind_splits)
    show ?thesis
    proof (cases full)
      case True
      then have "r = Inl (Draw ?g)" using pt won no_win full by (auto simp: play_turn_def Let_def)
      moreover have "after_move (srv\<lparr>board := Some b\<rparr>) b (currentTurn srv) =
          Some (srv\<lparr>board := Some b, gameOver := True\<rparr>, broadcast (sendAckMove ''DRAW'' '''' t) [Some 1, Some 2])"
        using True won no_win full t conns by (simp add: after_move_def)
      ultimately show ?thesis using srv t by (auto simp: same_outcome_def broadcast_def)
    next
      case False
      then have r: "r = Inr (SwitchPlayer ?g, rest)" using pt won no_win full by (auto simp: play_turn_def Let_def)
      have "after_move (srv\<lparr>board := Some b\<rparr>) b (currentTurn srv) =
          Some (srv\<lparr>board := Some b, currentTurn := other_piece (currentTurn srv)\<rparr>,
            broadcast (sendAckMove ''OK'' (other_piece (currentTurn srv)) t) [Some 1, Some 2])"
        using False won no_win full t conns by (simp add: after_move_def Let_def)
      moreover have "same_game (srv\<lparr>board := Some b, currentTurn := other_piece (currentTurn srv)\<rparr>) (SwitchPlayer ?g)"
        using g(1) p by (auto simp: same_game_def SwitchPlayer_def GetPlayerSymbol_def other_piece_def player_defs)
      ultimately show ?thesis using srv r by auto
    qed
  qed
qed

text \<open>A turn of the terminal, with all the lines it reads.\<close>

lemma more_sent: "same_outcome srv sent out \<Longrightarrow> set sent \<subseteq> set sent' \<Longrightarrow> same_outcome srv sent' out"
  by (auto simp: same_outcome_def split: outcome.splits)

lemma turn_agrees:
  assumes g: "same_game srv g" "playing g" and pt: "play_turn g lines = Some r"
  shows "case r of
      Inr (g', rest) \<Rightarrow> \<exists>srv'. same_game srv' g' \<and> follows srv (numbers_typed lines) srv' (numbers_typed rest)
    | Inl out \<Rightarrow> \<exists>srv' sent. send_all srv (numbers_typed lines) = Some (srv', sent) \<and> same_outcome srv' sent out"
proof -
  obtain s inp where inp: "RenderBoard (gs_Board g) = Some s" "GetPlayerInput (gs_Board g) lines = Some inp"
    using pt by (auto simp: play_turn_def split: bind_splits)
  note lines = input_agrees [OF g inp(2)]
  show ?thesis
  proof (cases "\<exists>col rest. inp = Some (col, rest) \<and> col \<noteq> -1")
    case False
    then obtain sent where "send_all srv (numbers_typed lines) = Some (srv, sent)"
      using lines by (auto simp: follows_def split: option.splits prod.splits)
    then show ?thesis
      using False pt inp g(1) by (auto simp: play_turn_def same_outcome_def same_game_def split: option.splits)
  next
    case True
    then obtain col rest where i: "inp = Some (col, rest)" "col \<noteq> -1" by blast
    obtain srv1 sent where m: "server_step srv (move_line (currentTurn srv) (col + 1)) = Some (srv1, sent)"
      "case r of Inr (g', rest') \<Rightarrow> rest' = rest \<and> same_game srv1 g'
       | Inl out \<Rightarrow> gameOver srv1 \<and> same_outcome srv1 sent out"
      using move_agrees [OF g pt _ i(2), of rest] inp(2) i(1) by blast
    have to1: "follows srv (numbers_typed lines) srv ((col + 1) # numbers_typed rest)" using lines i by simp
    show ?thesis
    proof (cases r)
      case (Inr gr)
      then show ?thesis using m follows_trans [OF to1 follows_step [OF m(1)]] by (cases gr) auto
    next
      case (Inl out)
      then obtain o2 where "send_all srv1 (numbers_typed rest) = Some (srv1, o2)" 
        using over_refuses [of srv1 "numbers_typed rest"] numbers_fit m(2) by auto
      then have "send_all srv ((col + 1) # numbers_typed rest) = Some (srv1, sent @ o2)" using m(1) by simp
      then obtain o1 where "send_all srv (numbers_typed lines) = Some (srv1, o1 @ sent @ o2)"
        using to1 unfolding follows_def by blast
      moreover have "same_outcome srv1 (o1 @ sent @ o2) out" using m(2) Inl by (auto intro: more_sent)
      ultimately show ?thesis using Inl by auto
    qed
  qed
qed

section \<open>The whole game\<close>

lemma play_turn_next: "playing g \<Longrightarrow> play_turn g lines = Some (Inr (g', rest)) \<Longrightarrow> playing g'"
  using play_turn_ok [of g lines] by auto

lemma loop_agrees:
  "playing g \<Longrightarrow> same_game srv g \<Longrightarrow>
     \<exists>out srv' sent. play_loop g lines = Some out \<and>
       send_all srv (numbers_typed lines) = Some (srv', sent) \<and> same_outcome srv' sent out"
proof (induction lines arbitrary: g srv rule: length_induct)
  case (1 lines)
  obtain r where r: "play_turn g lines = Some r" using play_turn_ok [OF 1(2), of lines] by blast
  note T = turn_agrees [OF 1(3,2) r]
  show ?case
  proof (cases r)
    case (Inl out)
    have "play_loop g lines = Some out" using r Inl by (subst play_loop.simps) simp
    then show ?thesis using T Inl by auto
  next
    case (Inr gr)
    obtain g' rest where gr: "gr = (g', rest)" by (cases gr)
    obtain srv1 where s: "same_game srv1 g'" "follows srv (numbers_typed lines) srv1 (numbers_typed rest)"
      using T Inr gr by auto
    have "length rest < length lines" using play_turn_shorter r Inr gr by blast
    then obtain out srv' sent where o: "play_loop g' rest = Some out"
      "send_all srv1 (numbers_typed rest) = Some (srv', sent)" "same_outcome srv' sent out"
      using 1(1) s(1) play_turn_next [OF 1(2)] r Inr gr by blast
    have "play_loop g lines = Some out" using r Inr gr o(1) by (subst play_loop.simps) simp
    moreover obtain o1 where "send_all srv (numbers_typed lines) = Some (srv', o1 @ sent)"
      using s(2) o(2) unfolding follows_def by blast
    ultimately show ?thesis using more_sent [OF o(3), of "o1 @ sent"] by auto
  qed
qed

lemma both_joined:
  assumes b: "NewBoard rows cols m = Some b" and "shaped b"
  shows "\<exists>srv sent. server_run (server_start rows cols m) join_both = Some (srv, sent) \<and>
    same_game srv \<lparr>gs_Board = b, CurrentPlayer = Player1\<rparr> \<and> currentTurn srv = ''X''"
proof -
  obtain t where t: "Board_String b = Some t" using Board_String_Some [OF assms(2)] by blast
  obtain d d' where "decode_message (sendConnect ''X'' ''X'') = Some \<lparr>msg_Type = ''cs_send_connect'', msg_Data = d\<rparr>"
    "connect_payload d = Some (''X'', ''X'')"
    "decode_message (sendConnect ''O'' ''O'') = Some \<lparr>msg_Type = ''cs_send_connect'', msg_Data = d'\<rparr>"
    "connect_payload d' = Some (''O'', ''O'')"
    using to_server_roundtrips(1) [of "''X''" "''X''"] to_server_roundtrips(1) [of "''O''" "''O''"]
    by (auto simp: arrives_def)
  then show ?thesis
    using b t by (simp add: join_both_def server_enabled_def server_step_def handle_line_def handleSendConnect_def
        register_player_def notify_start_def server_start_def same_game_def GetPlayerSymbol_def Let_def)
qed

text \<open>
  C30. The terminal game is the server's game, line by line, for every positive number of rows and columns
  and positive \<open>M\<close>: whatever is typed, the terminal game comes to an outcome; and a server of the same size,
  to which X and O connect, and to which then every number typed up to the line \<open>q\<close> is sent just as it is,
  by the player whose turn it is there, ends with the same board. Its game is over if the terminal game has a winner or is a draw, and then both
  clients were told so; otherwise it still runs, and it is the same player's turn.
\<close>

theorem terminal_game_is_server_game:
  assumes "0 < rows" and "0 < cols" and "0 < m"
  shows "\<exists>out srv0 sent0 srv sent. PlayGame rows cols m lines = Some out \<and>
    server_run (server_start rows cols m) join_both = Some (srv0, sent0) \<and>
    send_all srv0 (numbers_typed lines) = Some (srv, sent) \<and>
    same_outcome srv sent out"
proof -
  obtain b where b: "NewBoard rows cols m = Some b" "wf_board b" "Rows b = rows" "bd_M b = m"
    "\<And>r c. isValid b r c \<Longrightarrow> cell_at b r c = Empty" using NewBoard_wf [of rows cols m] assms by auto
  let ?g = "\<lparr>gs_Board = b, CurrentPlayer = Player1\<rparr>"
  have g: "playing ?g" using b assms empty_no_line [OF b(5)] by (auto simp: playing_def player_defs)
  obtain srv0 sent0 where j: "server_run (server_start rows cols m) join_both = Some (srv0, sent0)" "same_game srv0 ?g"
    using both_joined [OF b(1)] b(2) by (auto simp: wf_board_def)
  obtain out srv sent where l: "play_loop ?g lines = Some out"
    "send_all srv0 (numbers_typed lines) = Some (srv, sent)" "same_outcome srv sent out"
    using loop_agrees [OF g j(2), of lines] by blast
  have "PlayGame rows cols m lines = Some out" using b(1) l(1) by (simp add: PlayGame_def NewGame_def)
  then show ?thesis using j(1) l(2,3) by blast
qed

text \<open>
  Player 1 gets three in a column. The second line typed is not a number, the third no column, and after
  the end one more number is typed.
\<close>

definition typed_lines :: "string list" where
  "typed_lines = [''1'', ''nine'', ''9'', ''2'', '' 1'', ''2'', ''1'', ''3'', ''q'', ''4'']"

lemma typed_numbers: "numbers_typed typed_lines = [1, 9, 2, 1, 2, 1, 3]"
  by code_simp

theorem terminal_game_is_server_game_witness:
  "\<exists>g srv0 sent0 srv sent. PlayGame 4 4 3 typed_lines = Some (Wins Player1 g) \<and>
     server_run (server_start 4 4 3) join_both = Some (srv0, sent0) \<and>
     send_all srv0 [1, 9, 2, 1, 2, 1, 3] = Some (srv, sent) \<and> gameOver srv \<and> board srv = Some (gs_Board g)"
proof -
  have "(case PlayGame 4 4 3 typed_lines of Some (Wins p g) \<Rightarrow> p = Player1 | _ \<Rightarrow> False)" by code_simp
  then obtain g where "PlayGame 4 4 3 typed_lines = Some (Wins Player1 g)"
    by (auto split: option.splits outcome.splits)
  then show ?thesis
    using terminal_game_is_server_game [of 4 4 3 typed_lines] by (auto simp: same_outcome_def typed_numbers)
qed

end
