(* ===== verification/Broker.thy ===== *)
theory Broker
  imports Prelude "HOL-Library.Multiset"
begin

text \<open>
  The task broker of the embedding pipeline (\<open>hw4/broker/main.go\<close>). Payloads are opaque. The task id is
  made by the package \<open>uuid\<close>, so it is an argument of \<open>broker_Submit\<close>; time is in nanoseconds and an
  argument where the code reads the clock. What the workers and the producer rely on is the locale
  \<open>task_broker\<close>, interpreted on the operations.
\<close>

section \<open>Data\<close>

record 'p Task =
  t_Id :: string
  t_Payload :: 'p

record 'p inFlightEntry =
  if_task :: "'p Task"
  if_workerID :: string
  if_lastHeartbeat :: int

record 'p brokerServer =
  pending :: "'p Task list"
  inflight :: "string \<rightharpoonup> 'p inFlightEntry"
  errors :: "string \<rightharpoonup> string"
  br_done :: "string \<Rightarrow> bool"

definition TaskTimeout :: int where
  "TaskTimeout = 10 * 1000000000"

definition CheckInterval :: int where
  "CheckInterval = 5 * 1000000000"

definition newBrokerServer :: "'p brokerServer" where
  "newBrokerServer = \<lparr>pending = [], inflight = (\<lambda>_. None), errors = (\<lambda>_. None), br_done = (\<lambda>_. False)\<rparr>"

section \<open>Handlers\<close>

definition broker_Submit :: "'p brokerServer \<Rightarrow> string \<Rightarrow> 'p \<Rightarrow> 'p brokerServer \<times> string" where
  "broker_Submit s ident payload =
     (let task = \<lparr>t_Id = ident, t_Payload = payload\<rparr> in (s\<lparr>pending := pending s @ [task]\<rparr>, ident))"

text \<open>\<open>None\<close> is \<open>HasTask = false\<close>.\<close>

definition broker_Poll :: "'p brokerServer \<Rightarrow> string \<Rightarrow> int \<Rightarrow> 'p brokerServer \<times> 'p Task option" where
  "broker_Poll s worker now =
     (case pending s of
        [] \<Rightarrow> (s, None)
      | task # rest \<Rightarrow>
          (s\<lparr>pending := rest,
             inflight := (inflight s)(t_Id task \<mapsto>
               \<lparr>if_task = task, if_workerID = worker, if_lastHeartbeat = now\<rparr>)\<rparr>, Some task))"

definition broker_Complete :: "'p brokerServer \<Rightarrow> string \<Rightarrow> string \<Rightarrow> 'p brokerServer" where
  "broker_Complete s ident err =
     (case inflight s ident of
        None \<Rightarrow> s
      | Some e \<Rightarrow>
          s\<lparr>inflight := (inflight s)(ident := None), br_done := (br_done s)(ident := True),
            errors := (errors s)(ident \<mapsto> err)\<rparr>)"

text \<open>\<open>None\<close> is \<open>Done = false\<close>; otherwise the error, empty on success.\<close>

definition broker_GetResult :: "'p brokerServer \<Rightarrow> string \<Rightarrow> string option" where
  "broker_GetResult s ident =
     (if \<not> br_done s ident then None else Some (case errors s ident of None \<Rightarrow> '''' | Some e \<Rightarrow> e))"

definition broker_Heartbeat :: "'p brokerServer \<Rightarrow> string \<Rightarrow> int \<Rightarrow> 'p brokerServer" where
  "broker_Heartbeat s ident now =
     (case inflight s ident of
        None \<Rightarrow> s
      | Some e \<Rightarrow> s\<lparr>inflight := (inflight s)(ident \<mapsto> e\<lparr>if_lastHeartbeat := now\<rparr>)\<rparr>)"

text \<open>
  One tick of \<open>reEnqueueStalled\<close>: the loop over the map, in the order \<open>ids\<close> the iteration happens to
  take.
\<close>

fun requeue_loop :: "int \<Rightarrow> string list \<Rightarrow> 'p brokerServer \<Rightarrow> 'p brokerServer" where
  "requeue_loop now [] s = s"
| "requeue_loop now (ident # ids) s =
     requeue_loop now ids
       (case inflight s ident of
          None \<Rightarrow> s
        | Some e \<Rightarrow>
            if now - if_lastHeartbeat e > TaskTimeout
            then s\<lparr>pending := if_task e # pending s, inflight := (inflight s)(ident := None)\<rparr>
            else s)"

definition iteration_order :: "'p brokerServer \<Rightarrow> string list \<Rightarrow> bool" where
  "iteration_order s ids \<longleftrightarrow> distinct ids \<and> set ids = dom (inflight s)"

section \<open>What clients rely on\<close>

lemma mset_filter_remove:
  assumes "distinct xs"
  shows "mset (filter P xs) - {#x#} = mset (filter (\<lambda>y. P y \<and> y \<noteq> x) xs)"
proof -
  have "mset (filter P xs) - {#x#} = mset (remove1 x (filter P xs))" by simp
  also have "remove1 x (filter P xs) = removeAll x (filter P xs)"
    using assms by (simp add: distinct_remove1_removeAll)
  also have "\<dots> = filter (\<lambda>y. P y \<and> y \<noteq> x) xs" by (induction xs) auto
  finally show ?thesis .
qed

text \<open>
  \<open>todo\<close> is the bag of tasks not done yet, \<open>result\<close> the outcome of a task. Internal steps (heartbeats and
  re-enqueuing) and \<open>poll\<close> change neither.
\<close>

locale task_broker =
  fixes start :: 's
    and submit :: "'s \<Rightarrow> string \<Rightarrow> 'p \<Rightarrow> 's"
    and poll :: "'s \<Rightarrow> 'w \<Rightarrow> 's \<times> (string \<times> 'p) option"
    and complete :: "'s \<Rightarrow> string \<Rightarrow> string \<Rightarrow> 's"
    and internal :: "'s \<Rightarrow> 's \<Rightarrow> bool"
    and inv :: "'s \<Rightarrow> bool"
    and todo :: "'s \<Rightarrow> (string \<times> 'p) multiset"
    and result :: "'s \<Rightarrow> string \<Rightarrow> string option"
  assumes start_inv: "inv start" and start_todo: "todo start = {#}" and start_result: "result start i = None"
    and submit_inv: "inv s \<Longrightarrow> i \<notin> fst ` set_mset (todo s) \<Longrightarrow> result s i = None \<Longrightarrow> inv (submit s i p)"
    and submit_todo: "inv s \<Longrightarrow> todo (submit s i p) = todo s + {#(i, p)#}"
    and submit_result: "result (submit s i p) = result s"
    and poll_inv: "inv s \<Longrightarrow> inv (fst (poll s w))"
    and poll_todo: "inv s \<Longrightarrow> todo (fst (poll s w)) = todo s"
    and poll_result: "result (fst (poll s w)) = result s"
    and poll_gives: "inv s \<Longrightarrow> snd (poll s w) = Some x \<Longrightarrow> x \<in># todo s"
    and complete_inv: "inv s \<Longrightarrow> inv (complete s i e)"
    and complete_effect: "inv s \<Longrightarrow>
      complete s i e = s \<or>
      (\<exists>p. (i, p) \<in># todo s \<and> result s i = None \<and> todo (complete s i e) = todo s - {#(i, p)#} \<and>
           result (complete s i e) = (result s)(i \<mapsto> e))"
    and internal_inv: "inv s \<Longrightarrow> internal s s' \<Longrightarrow> inv s'"
    and internal_todo: "inv s \<Longrightarrow> internal s s' \<Longrightarrow> todo s' = todo s"
    and internal_result: "inv s \<Longrightarrow> internal s s' \<Longrightarrow> result s' = result s"
begin

text \<open>A result is final.\<close>

lemma result_final:
  assumes "inv s" and "result s i = Some e"
  shows "result (complete s j e') i = Some e"
  using complete_effect [OF assms(1), of j e'] assms(2) by auto

text \<open>
  Runs of any clients, with the history of submitted tasks. The freshness of ids is what the package
  \<open>uuid\<close> promises.
\<close>

inductive run :: "'s \<Rightarrow> (string \<times> 'p) list \<Rightarrow> bool" where
  run_start: "run start []"
| run_submit: "run s h \<Longrightarrow> i \<notin> fst ` set h \<Longrightarrow> run (submit s i p) (h @ [(i, p)])"
| run_poll: "run s h \<Longrightarrow> run (fst (poll s w)) h"
| run_complete: "run s h \<Longrightarrow> run (complete s i e) h"
| run_internal: "run s h \<Longrightarrow> internal s s' \<Longrightarrow> run s' h"

definition accounted :: "'s \<Rightarrow> (string \<times> 'p) list \<Rightarrow> bool" where
  "accounted s h \<longleftrightarrow>
     distinct (map fst h) \<and> todo s = mset (filter (\<lambda>x. result s (fst x) = None) h) \<and>
     (\<forall>i. result s i \<noteq> None \<longrightarrow> i \<in> fst ` set h)"

text \<open>Every submitted task is either still to do, once, or has a result: none is lost or duplicated.\<close>

lemma run_accounted: "run s h \<Longrightarrow> inv s \<and> accounted s h"
proof (induction rule: run.induct)
  case run_start
  then show ?case by (simp add: start_inv accounted_def start_todo start_result)
next
  case (run_submit s h i p)
  then have inv: "inv s" and acc: "accounted s h" by auto
  have none: "result s i = None" using acc run_submit.hyps(2) by (auto simp: accounted_def)
  have "i \<notin> fst ` set_mset (todo s)" using acc run_submit.hyps(2) by (auto simp: accounted_def)
  then have "inv (submit s i p)" by (rule submit_inv [OF inv _ none])
  then show ?case using acc run_submit.hyps(2) none
    by (auto simp: accounted_def submit_todo [OF inv] submit_result)
next
  case (run_poll s h w)
  then show ?case by (simp add: poll_inv accounted_def poll_todo poll_result)
next
  case (run_complete s h i e)
  then have inv: "inv s" and acc: "accounted s h" by auto
  consider "complete s i e = s"
    | p where "(i, p) \<in># todo s" "result s i = None" "todo (complete s i e) = todo s - {#(i, p)#}"
        "result (complete s i e) = (result s)(i \<mapsto> e)" using complete_effect [OF inv] by blast
  then show ?case
  proof cases
    case 1
    then show ?thesis using run_complete.IH by simp
  next
    case (2 p)
    have mem: "(i, p) \<in> set h" and dist: "distinct (map fst h)" using 2(1) acc by (auto simp: accounted_def)
    have "todo s - {#(i, p)#} = mset (filter (\<lambda>x. ((result s)(i \<mapsto> e)) (fst x) = None) h)"
    proof -
      have only: "x = (i, p)" if "x \<in> set h" "fst x = i" for x
        using eq_key_imp_eq_value [OF dist, of i "snd x" p] mem that by (cases x) simp
      have "filter (\<lambda>x. ((result s)(i \<mapsto> e)) (fst x) = None) h =
          filter (\<lambda>x. result s (fst x) = None \<and> x \<noteq> (i, p)) h"
      proof (rule filter_cong [OF refl])
        fix x assume x: "x \<in> set h"
        show "(((result s)(i \<mapsto> e)) (fst x) = None) = (result s (fst x) = None \<and> x \<noteq> (i, p))"
          using only [OF x] by (cases "fst x = i") auto
      qed
      moreover have "todo s = mset (filter (\<lambda>x. result s (fst x) = None) h)" using acc by (simp add: accounted_def)
      moreover have "distinct h" using dist by (simp add: distinct_map)
      ultimately show ?thesis using mset_filter_remove by simp
    qed
    then show ?thesis using 2 acc mem complete_inv [OF inv] by (force simp: accounted_def)
  qed
next
  case (run_internal s h s')
  then have inv: "inv s" by blast
  note i = internal_inv [OF inv run_internal.hyps(2)] internal_todo [OF inv run_internal.hyps(2)]
    internal_result [OF inv run_internal.hyps(2)]
  show ?case using run_internal.IH i by (simp add: accounted_def)
qed

end

section \<open>The broker provides it\<close>

definition task_pair :: "'p Task \<Rightarrow> string \<times> 'p" where
  "task_pair t = (t_Id t, t_Payload t)"

definition broker_todo :: "'p brokerServer \<Rightarrow> (string \<times> 'p) multiset" where
  "broker_todo s =
     mset (map task_pair (pending s)) +
     image_mset (\<lambda>i. task_pair (if_task (the (inflight s i)))) (mset_set (dom (inflight s)))"

text \<open>A poll by worker \<open>w\<close> at time \<open>now\<close>, as the interface sees it.\<close>

definition poll_pair :: "'p brokerServer \<Rightarrow> string \<times> int \<Rightarrow> 'p brokerServer \<times> (string \<times> 'p) option" where
  "poll_pair s w =
     (fst (broker_Poll s (fst w) (snd w)), map_option task_pair (snd (broker_Poll s (fst w) (snd w))))"

text \<open>A task id is in one place: pending, in flight, or done.\<close>

definition broker_ok :: "'p brokerServer \<Rightarrow> bool" where
  "broker_ok s \<longleftrightarrow>
     distinct (map t_Id (pending s)) \<and> finite (dom (inflight s)) \<and>
     (\<forall>i e. inflight s i = Some e \<longrightarrow> t_Id (if_task e) = i) \<and>
     t_Id ` set (pending s) \<inter> dom (inflight s) = {} \<and>
     t_Id ` set (pending s) \<inter> {i. br_done s i} = {} \<and> dom (inflight s) \<inter> {i. br_done s i} = {}"

definition broker_internal :: "'p brokerServer \<Rightarrow> 'p brokerServer \<Rightarrow> bool" where
  "broker_internal s s' \<longleftrightarrow>
     (\<exists>i now. s' = broker_Heartbeat s i now) \<or> (\<exists>now ids. iteration_order s ids \<and> s' = requeue_loop now ids s)"

lemma broker_okD:
  assumes "broker_ok s"
  shows "distinct (map t_Id (pending s))" and "finite (dom (inflight s))"
    and "inflight s i = Some e \<Longrightarrow> t_Id (if_task e) = i"
    and "t \<in> set (pending s) \<Longrightarrow> inflight s (t_Id t) = None" and "t \<in> set (pending s) \<Longrightarrow> \<not> br_done s (t_Id t)"
    and "inflight s i = Some e \<Longrightarrow> \<not> br_done s i"
  using assms by (auto simp: broker_ok_def)

text \<open>Adding and removing one entry in flight.\<close>

lemma flights_insert:
  assumes "finite (dom f)" and "f i = None"
  shows "image_mset (\<lambda>j. g (the ((f(i \<mapsto> e)) j))) (mset_set (dom (f(i \<mapsto> e)))) =
    image_mset (\<lambda>j. g (the (f j))) (mset_set (dom f)) + {#g e#}"
proof -
  have "image_mset (\<lambda>j. g (the ((f(i \<mapsto> e)) j))) (mset_set (dom f)) = image_mset (\<lambda>j. g (the (f j))) (mset_set (dom f))"
    by (rule image_mset_cong) (use assms in auto)
  then show ?thesis using assms by (simp add: domIff)
qed

lemma flights_remove:
  assumes "finite (dom f)" and "f i = Some e"
  shows "image_mset (\<lambda>j. g (the (f j))) (mset_set (dom f)) =
    image_mset (\<lambda>j. g (the ((f(i := None)) j))) (mset_set (dom (f(i := None)))) + {#g e#}"
proof -
  have "(f(i := None))(i \<mapsto> e) = f" using assms(2) by auto
  then show ?thesis using flights_insert [of "f(i := None)" i g e] assms(1) by simp
qed

lemma flights_update:
  assumes "finite (dom f)" and "f i = Some e" and "g e' = g e"
  shows "image_mset (\<lambda>j. g (the ((f(i \<mapsto> e')) j))) (mset_set (dom (f(i \<mapsto> e')))) =
    image_mset (\<lambda>j. g (the (f j))) (mset_set (dom f))"
proof -
  have "dom (f(i \<mapsto> e')) = dom f" using assms(2) by auto
  then show ?thesis using assms by (auto intro!: image_mset_cong)
qed

lemma submit_broker:
  assumes "broker_ok s"
  shows "broker_todo (fst (broker_Submit s i p)) = broker_todo s + {#(i, p)#}"
    and "i \<notin> fst ` set_mset (broker_todo s) \<Longrightarrow> broker_GetResult s i = None \<Longrightarrow> broker_ok (fst (broker_Submit s i p))"
proof -
  show "broker_todo (fst (broker_Submit s i p)) = broker_todo s + {#(i, p)#}"
    by (simp add: broker_Submit_def broker_todo_def task_pair_def Let_def)
  assume a: "i \<notin> fst ` set_mset (broker_todo s)" "broker_GetResult s i = None"
  have "i \<notin> t_Id ` set (pending s)"
  proof
    assume "i \<in> t_Id ` set (pending s)"
    then obtain t where "t \<in> set (pending s)" "i = t_Id t" by blast
    then have "(i, t_Payload t) \<in># broker_todo s" by (force simp: broker_todo_def task_pair_def)
    then show False using a(1) by force
  qed
  moreover have "inflight s i = None"
  proof (cases "inflight s i")
    case (Some e)
    then have "(i, t_Payload (if_task e)) \<in># broker_todo s"
      using broker_okD(2,3) [OF assms] by (force simp: broker_todo_def task_pair_def)
    then show ?thesis using a(1) by force
  qed
  moreover have "\<not> br_done s i" using a(2) by (simp add: broker_GetResult_def split: if_splits)
  ultimately show "broker_ok (fst (broker_Submit s i p))"
    using assms by (auto simp: broker_ok_def broker_Submit_def Let_def)
qed

lemma poll_broker:
  assumes "broker_ok s"
  shows "broker_ok (fst (broker_Poll s w now))" and "broker_todo (fst (broker_Poll s w now)) = broker_todo s"
    and "snd (broker_Poll s w now) = Some t \<Longrightarrow> task_pair t \<in># broker_todo s"
proof -
  note D = broker_okD [OF assms]
  show "broker_ok (fst (broker_Poll s w now))"
    using assms D(4,5) by (auto simp: broker_ok_def broker_Poll_def split: list.splits)
  show "broker_todo (fst (broker_Poll s w now)) = broker_todo s"
  proof (cases "pending s")
    case (Cons t ts)
    have "inflight s (t_Id t) = None" using D(4) Cons by simp
    then show ?thesis
      using flights_insert [OF D(2), of "t_Id t" "\<lambda>e. task_pair (if_task e)"] Cons
      by (simp add: broker_Poll_def broker_todo_def)
  qed (simp add: broker_Poll_def)
  show "snd (broker_Poll s w now) = Some t \<Longrightarrow> task_pair t \<in># broker_todo s"
    by (auto simp: broker_Poll_def broker_todo_def split: list.splits)
qed

lemma complete_broker:
  assumes "broker_ok s"
  shows "broker_ok (broker_Complete s i e)"
    and "broker_Complete s i e = s \<or>
      (\<exists>p. (i, p) \<in># broker_todo s \<and> broker_GetResult s i = None \<and>
           broker_todo (broker_Complete s i e) = broker_todo s - {#(i, p)#} \<and>
           broker_GetResult (broker_Complete s i e) = (broker_GetResult s)(i \<mapsto> e))"
proof -
  note D = broker_okD [OF assms]
  show "broker_ok (broker_Complete s i e)"
    using assms D(4,5) by (auto simp: broker_ok_def broker_Complete_def split: option.splits)
  show "broker_Complete s i e = s \<or>
      (\<exists>p. (i, p) \<in># broker_todo s \<and> broker_GetResult s i = None \<and>
           broker_todo (broker_Complete s i e) = broker_todo s - {#(i, p)#} \<and>
           broker_GetResult (broker_Complete s i e) = (broker_GetResult s)(i \<mapsto> e))"
  proof (cases "inflight s i")
    case (Some en)
    have "task_pair (if_task en) = (i, t_Payload (if_task en))" using D(3) [OF Some] by (simp add: task_pair_def)
    then have "broker_todo s = broker_todo (broker_Complete s i e) + {#(i, t_Payload (if_task en))#}"
      using flights_remove [OF D(2) Some, of "\<lambda>e. task_pair (if_task e)"] Some
      by (simp add: broker_todo_def broker_Complete_def)
    moreover have "broker_GetResult (broker_Complete s i e) = (broker_GetResult s)(i \<mapsto> e)"
      using Some by (auto simp: broker_GetResult_def broker_Complete_def)
    moreover have "broker_GetResult s i = None" using D(6) [OF Some] by (simp add: broker_GetResult_def)
    ultimately show ?thesis by (intro disjI2 exI [of _ "t_Payload (if_task en)"]) simp
  qed (simp add: broker_Complete_def)
qed

lemma heartbeat_broker:
  assumes "broker_ok s"
  shows "broker_ok (broker_Heartbeat s i now)" and "broker_todo (broker_Heartbeat s i now) = broker_todo s"
    and "broker_GetResult (broker_Heartbeat s i now) = broker_GetResult s"
proof -
  note D = broker_okD [OF assms]
  show "broker_ok (broker_Heartbeat s i now)"
    using assms by (auto simp: broker_ok_def broker_Heartbeat_def split: option.splits)
  show "broker_todo (broker_Heartbeat s i now) = broker_todo s"
  proof (cases "inflight s i")
    case (Some e)
    then show ?thesis using flights_update [OF D(2) Some, of "\<lambda>e. task_pair (if_task e)"]
      by (simp add: broker_todo_def broker_Heartbeat_def)
  qed (simp add: broker_Heartbeat_def)
  show "broker_GetResult (broker_Heartbeat s i now) = broker_GetResult s"
    by (auto simp: broker_GetResult_def broker_Heartbeat_def split: option.splits)
qed

lemma requeue_broker:
  "broker_ok s \<Longrightarrow> broker_ok (requeue_loop now ids s) \<and> broker_todo (requeue_loop now ids s) = broker_todo s \<and>
   broker_GetResult (requeue_loop now ids s) = broker_GetResult s"
proof (induction ids arbitrary: s)
  case (Cons i ids)
  note D = broker_okD [OF Cons.prems]
  show ?case
  proof (cases "inflight s i")
    case (Some e)
    let ?s = "s\<lparr>pending := if_task e # pending s, inflight := (inflight s)(i := None)\<rparr>"
    have "broker_ok ?s"
      using Cons.prems D(3) [OF Some] D(6) [OF Some] Some by (auto simp: broker_ok_def)
    moreover have "broker_todo ?s = broker_todo s"
      using flights_remove [OF D(2) Some, of "\<lambda>e. task_pair (if_task e)"] by (simp add: broker_todo_def)
    moreover have "broker_GetResult ?s = broker_GetResult s" by (auto simp: broker_GetResult_def)
    ultimately show ?thesis using Cons Some by simp
  qed (use Cons in simp)
qed simp

interpretation broker: task_broker newBrokerServer "\<lambda>s i p. fst (broker_Submit s i p)"
  poll_pair broker_Complete broker_internal
  broker_ok broker_todo broker_GetResult
proof unfold_locales
  show "broker_ok newBrokerServer" by (simp add: broker_ok_def newBrokerServer_def)
  show "broker_todo newBrokerServer = {#}" by (simp add: broker_todo_def newBrokerServer_def)
  show "broker_GetResult newBrokerServer i = None" for i by (simp add: broker_GetResult_def newBrokerServer_def)
  show "broker_GetResult (fst (broker_Submit s i p)) = broker_GetResult s" for s :: "'p brokerServer" and i p
    by (auto simp: broker_GetResult_def broker_Submit_def Let_def)
  show "broker_GetResult (fst (poll_pair s w)) = broker_GetResult s" for s :: "'p brokerServer" and w
    by (auto simp: broker_GetResult_def broker_Poll_def poll_pair_def split: list.splits)
  fix s s' :: "'p brokerServer" and i e :: string and p :: 'p and w :: "string \<times> int" and x
  assume ok: "broker_ok s"
  show "broker_todo (fst (broker_Submit s i p)) = broker_todo s + {#(i, p)#}" by (rule submit_broker(1) [OF ok])
  show "i \<notin> fst ` set_mset (broker_todo s) \<Longrightarrow> broker_GetResult s i = None \<Longrightarrow> broker_ok (fst (broker_Submit s i p))"
    by (rule submit_broker(2) [OF ok])
  show "broker_ok (fst (poll_pair s w))" using poll_broker(1) [OF ok] by (simp add: poll_pair_def)
  show "broker_todo (fst (poll_pair s w)) = broker_todo s" using poll_broker(2) [OF ok] by (simp add: poll_pair_def)
  show "snd (poll_pair s w) = Some x \<Longrightarrow> x \<in># broker_todo s"
    using poll_broker(3) [OF ok] by (auto simp: poll_pair_def)
  show "broker_ok (broker_Complete s i e)" by (rule complete_broker(1) [OF ok])
  show "broker_Complete s i e = s \<or>
      (\<exists>p. (i, p) \<in># broker_todo s \<and> broker_GetResult s i = None \<and>
           broker_todo (broker_Complete s i e) = broker_todo s - {#(i, p)#} \<and>
           broker_GetResult (broker_Complete s i e) = (broker_GetResult s)(i \<mapsto> e))"
    by (rule complete_broker(2) [OF ok])
  show "broker_internal s s' \<Longrightarrow> broker_ok s'" "broker_internal s s' \<Longrightarrow> broker_todo s' = broker_todo s"
    "broker_internal s s' \<Longrightarrow> broker_GetResult s' = broker_GetResult s"
    using heartbeat_broker [OF ok] requeue_broker [OF ok] by (auto simp: broker_internal_def)
qed

end
