(* ===== verification/EmbedProtocol.thy ===== *)
theory EmbedProtocol
  imports Json "HOL-Library.Word"
begin

text \<open>
  The embedding subprocess and how the worker and the query tool talk to it (\<open>hw4/worker/main.go\<close>,
  \<open>hw4/query/main.go\<close>, \<open>hw4/tools/mock_embedder/main.go\<close>): one JSON line per request, one per answer. A
  line is a JSON value, or \<open>None\<close> if it is not JSON or blank. Floating-point arithmetic, and how a
  \<open>float32\<close> is written in JSON, are the record \<open>floats\<close>. In a hashed string a character is a byte.
\<close>

unbundle bit_operations_syntax

section \<open>Hashes\<close>

text \<open>\<open>fnv64\<close>: the loop over the string, on unbounded integers.\<close>

definition fnv_prime :: int where
  "fnv_prime = 1099511628211"

definition fnv_offset :: int where
  "fnv_offset = 14695981039346656037"

fun fnv_loop :: "int \<Rightarrow> string \<Rightarrow> int" where
  "fnv_loop h [] = h"
| "fnv_loop h (c # cs) = fnv_loop (((h XOR of_char c) * fnv_prime) mod 2 ^ 64) cs"

definition fnv64 :: "string \<Rightarrow> 64 word" where
  "fnv64 s = word_of_int (fnv_loop fnv_offset s)"

definition chunkIDToUUID :: "string \<Rightarrow> 64 word" where
  "chunkIDToUUID chunkID = fnv64 chunkID"

text \<open>FNV-1a as the standard library computes it, on words.\<close>

definition fnv_step :: "'a word \<Rightarrow> 'a::len word \<Rightarrow> char \<Rightarrow> 'a word" where
  "fnv_step prime h c = (h XOR of_char c) * prime"

definition fnv32a :: "string \<Rightarrow> 32 word" where
  "fnv32a s = foldl (fnv_step 16777619) 2166136261 s"

lemma fnv_loop_word:
  "word_of_int (fnv_loop h s) = foldl (fnv_step (word_of_int fnv_prime)) (word_of_int h :: 64 word) s"
proof (induction s arbitrary: h)
  case (Cons c cs)
  have m: "(word_of_int (x mod 2 ^ 64) :: 64 word) = word_of_int x" for x
    by (simp add: word_of_int_eq_iff take_bit_eq_mod)
  have x: "(word_of_int (h XOR of_char c) :: 64 word) = word_of_int h XOR of_char c"
    by (rule bit_eqI) (simp add: bit_simps of_char_def)
  have step: "(word_of_int (((h XOR of_char c) * fnv_prime) mod 2 ^ 64) :: 64 word) =
      fnv_step (word_of_int fnv_prime) (word_of_int h) c"
    unfolding m fnv_step_def x [symmetric] by simp
  show ?case unfolding fnv_loop.simps foldl.simps Cons step ..
qed simp

text \<open>The worker's hash on big integers is the 64-bit FNV-1a of the string.\<close>

lemma fnv64_is_fnv1a: "fnv64 s = foldl (fnv_step 1099511628211) 14695981039346656037 s"
  unfolding fnv64_def fnv_loop_word by (simp add: fnv_prime_def fnv_offset_def)

section \<open>Vectors\<close>

text \<open>
  The arithmetic of \<open>float64\<close> (\<open>'d\<close>) and \<open>float32\<close> (\<open>'s\<close>) that \<open>hashProject\<close> uses, and a \<open>float32\<close>
  as a JSON number, written and read.
\<close>

record ('s, 'd) floats =
  f_zero :: 'd
  f_of_int :: "int \<Rightarrow> 'd"
  f_add :: "'d \<Rightarrow> 'd \<Rightarrow> 'd"
  f_mul :: "'d \<Rightarrow> 'd \<Rightarrow> 'd"
  f_positive :: "'d \<Rightarrow> bool"
  f_inverse_sqrt :: "'d \<Rightarrow> 'd"
  f_narrow :: "'d \<Rightarrow> 's"
  f_mul32 :: "'s \<Rightarrow> 's \<Rightarrow> 's"
  f_zero32 :: 's
  f_write :: "'s \<Rightarrow> json"
  f_read :: "json \<Rightarrow> 's option"

definition vectorDim :: nat where
  "vectorDim = 384"

text \<open>The signed 32-bit hash of the text and a dimension.\<close>

definition raw_dim :: "string \<Rightarrow> nat \<Rightarrow> int" where
  "raw_dim body i = sint (fnv32a (body @ '':'' @ Itoa (int i)))"

fun project_loop :: "('s, 'd) floats \<Rightarrow> string \<Rightarrow> nat list \<Rightarrow> 's list \<times> 'd \<Rightarrow> 's list \<times> 'd" where
  "project_loop F body [] acc = acc"
| "project_loop F body (i # is) (vec, norm) =
     (let raw = f_of_int F (raw_dim body i)
      in project_loop F body is (vec @ [f_narrow F raw], f_add F norm (f_mul F raw raw)))"

definition hashProject :: "('s, 'd) floats \<Rightarrow> string \<Rightarrow> 's list" where
  "hashProject F body =
     (let (vec, norm) = project_loop F body [0..<vectorDim] ([], f_zero F)
      in if f_positive F norm then
           (let scale = f_narrow F (f_inverse_sqrt F norm) in map (\<lambda>v. f_mul32 F v scale) vec)
         else vec)"

lemma project_loop_length: "length (fst (project_loop F body is acc)) = length (fst acc) + length is"
  by (induction "is" arbitrary: acc) (auto simp: Let_def)

lemma hashProject_dim: "length (hashProject F body) = vectorDim"
  using project_loop_length [of F body "[0..<vectorDim]" "([], f_zero F)"]
  by (auto simp: hashProject_def Let_def split: prod.split)

section \<open>Requests and answers\<close>

record embedRequest =
  er_ChunkID :: string
  er_Text :: string

record 's embedResponse =
  es_ChunkID :: string
  es_Vector :: "'s list"

definition encode_request :: "embedRequest \<Rightarrow> json" where
  "encode_request r = JObj [(''chunk_id'', JStr (er_ChunkID r)), (''text'', JStr (er_Text r))]"

definition decode_request :: "json \<Rightarrow> embedRequest option" where
  "decode_request j =
     then_do (fields_of j) (\<lambda>kvs. then_do (str_field ''chunk_id'' kvs) (\<lambda>c.
       map_option (\<lambda>t. \<lparr>er_ChunkID = c, er_Text = t\<rparr>) (str_field ''text'' kvs)))"

definition encode_response :: "('s, 'd) floats \<Rightarrow> 's embedResponse \<Rightarrow> json" where
  "encode_response F r =
     JObj [(''chunk_id'', JStr (es_ChunkID r)), (''vector'', JArr (map (f_write F) (es_Vector r)))]"

text \<open>
  A vector is an array of numbers, where null is zero; as a whole, null is the empty vector. Of several
  \<open>vector\<close> fields the last one counts.
\<close>

fun read_elements :: "('s, 'd) floats \<Rightarrow> json list \<Rightarrow> 's list option" where
  "read_elements F [] = Some []"
| "read_elements F (j # js) =
     then_do (if j = JNull then Some (f_zero32 F) else f_read F j) (\<lambda>x.
       map_option ((#) x) (read_elements F js))"

fun read_vectors :: "('s, 'd) floats \<Rightarrow> 's list \<Rightarrow> json list \<Rightarrow> 's list option" where
  "read_vectors F vec [] = Some vec"
| "read_vectors F vec (JNull # js) = read_vectors F [] js"
| "read_vectors F vec (JArr xs # js) = then_do (read_elements F xs) (\<lambda>v. read_vectors F v js)"
| "read_vectors F vec (j # js) = None"

definition decode_response :: "('s, 'd) floats \<Rightarrow> json \<Rightarrow> 's embedResponse option" where
  "decode_response F j =
     then_do (fields_of j) (\<lambda>kvs. then_do (str_field ''chunk_id'' kvs) (\<lambda>c.
       map_option (\<lambda>v. \<lparr>es_ChunkID = c, es_Vector = v\<rparr>)
         (read_vectors F [] (map snd (filter (\<lambda>(k, v). ToLower k = ''vector'') kvs)))))"

text \<open>A number that was written can be read: how \<open>float32\<close> values are printed.\<close>

definition floats_roundtrip :: "('s, 'd) floats \<Rightarrow> bool" where
  "floats_roundtrip F \<longleftrightarrow> (\<forall>x. f_write F x \<noteq> JNull \<and> f_read F (f_write F x) = Some x)"

lemma lower_embed_names [simp]:
  "ToLower ''chunk_id'' = ''chunk_id''" "ToLower ''text'' = ''text''" "ToLower ''vector'' = ''vector''"
  by code_simp+

lemma decode_encode_request: "decode_request (encode_request r) = Some r"
  by (simp add: decode_request_def encode_request_def str_field_def values_of_def)

lemma read_written: "floats_roundtrip F \<Longrightarrow> read_elements F (map (f_write F) v) = Some v"
  by (induction v) (auto simp: floats_roundtrip_def)

lemma decode_encode_response: "floats_roundtrip F \<Longrightarrow> decode_response F (encode_response F r) = Some r"
  by (simp add: decode_response_def encode_response_def str_field_def values_of_def read_written)

section \<open>The two pipes\<close>

record channel =
  to_child :: "json option list"
  from_child :: "json option list"

definition open_channel :: channel where
  "open_channel = \<lparr>to_child = [], from_child = []\<rparr>"

text \<open>\<open>embed\<close>, before and after the wait for a line; \<open>None\<close>: there is no line yet.\<close>

definition embed_write :: "channel \<Rightarrow> embedRequest \<Rightarrow> channel" where
  "embed_write ch req = ch\<lparr>to_child := to_child ch @ [Some (encode_request req)]\<rparr>"

definition embed_read :: "('s, 'd) floats \<Rightarrow> channel \<Rightarrow> (channel \<times> (string + 's embedResponse)) option" where
  "embed_read F ch =
     (case from_child ch of
        [] \<Rightarrow> None
      | line # lines \<Rightarrow>
          Some (ch\<lparr>from_child := lines\<rparr>,
            case then_do line (decode_response F) of
              None \<Rightarrow> Inl ''decode subprocess response''
            | Some resp \<Rightarrow> Inr resp))"

text \<open>One round of the loop of the mock embedder.\<close>

definition mock_step :: "('s, 'd) floats \<Rightarrow> channel \<Rightarrow> channel" where
  "mock_step F ch =
     (case to_child ch of
        [] \<Rightarrow> ch
      | line # lines \<Rightarrow>
          let ch' = ch\<lparr>to_child := lines\<rparr>
          in case then_do line decode_request of
            None \<Rightarrow> ch'
          | Some req \<Rightarrow>
              ch'\<lparr>from_child := from_child ch' @
                [Some (encode_response F \<lparr>es_ChunkID = er_ChunkID req, es_Vector = hashProject F (er_Text req)\<rparr>)]\<rparr>)"

text \<open>The answer of the mock to a request, and the states of the pipes while it is awaited.\<close>

definition mock_answer :: "('s, 'd) floats \<Rightarrow> embedRequest \<Rightarrow> 's embedResponse" where
  "mock_answer F req = \<lparr>es_ChunkID = er_ChunkID req, es_Vector = hashProject F (er_Text req)\<rparr>"

definition awaiting :: "('s, 'd) floats \<Rightarrow> channel \<Rightarrow> embedRequest \<Rightarrow> bool" where
  "awaiting F ch req \<longleftrightarrow>
     ch = \<lparr>to_child = [Some (encode_request req)], from_child = []\<rparr> \<or>
     ch = \<lparr>to_child = [], from_child = [Some (encode_response F (mock_answer F req))]\<rparr>"

text \<open>
  What the worker relies on of a subprocess: while a request is open, a step of the subprocess keeps it
  so, and a line that is read is the answer to this request and leaves the pipes empty.
\<close>

locale embedding_service =
  fixes arith_ok :: "('s, 'd) floats \<Rightarrow> bool"
    and child :: "('s, 'd) floats \<Rightarrow> channel \<Rightarrow> channel"
    and answer :: "('s, 'd) floats \<Rightarrow> embedRequest \<Rightarrow> 's embedResponse"
    and waits :: "('s, 'd) floats \<Rightarrow> channel \<Rightarrow> embedRequest \<Rightarrow> bool"
  assumes asked: "waits F (embed_write open_channel req) req"
    and wait_step: "waits F ch req \<Longrightarrow> waits F (child F ch) req"
    and wait_read: "arith_ok F \<Longrightarrow> waits F ch req \<Longrightarrow> embed_read F ch = Some (ch', r) \<Longrightarrow>
      r = Inr (answer F req) \<and> ch' = open_channel"
begin

fun child_steps :: "('s, 'd) floats \<Rightarrow> nat \<Rightarrow> channel \<Rightarrow> channel" where
  "child_steps F 0 ch = ch"
| "child_steps F (Suc n) ch = child_steps F n (child F ch)"

lemma steps_wait: "waits F ch req \<Longrightarrow> waits F (child_steps F n ch) req"
  by (induction n arbitrary: ch) (auto intro: wait_step)

text \<open>Whatever the timing, the first line that can be read after a request is its answer.\<close>

lemma answered:
  "arith_ok F \<Longrightarrow> embed_read F (child_steps F n (embed_write open_channel req)) = Some (ch', r) \<Longrightarrow>
   r = Inr (answer F req) \<and> ch' = open_channel"
  using wait_read steps_wait asked by blast

end

interpretation mock: embedding_service floats_roundtrip mock_step mock_answer awaiting
proof unfold_locales
  fix F :: "('s, 'd) floats" and req ch ch' r
  show "awaiting F (embed_write open_channel req) req"
    by (simp add: awaiting_def embed_write_def open_channel_def)
  show "awaiting F ch req \<Longrightarrow> awaiting F (mock_step F ch) req"
    by (auto simp: awaiting_def mock_step_def mock_answer_def decode_encode_request Let_def)
  show "floats_roundtrip F \<Longrightarrow> awaiting F ch req \<Longrightarrow> embed_read F ch = Some (ch', r) \<Longrightarrow>
      r = Inr (mock_answer F req) \<and> ch' = open_channel"
    by (auto simp: awaiting_def embed_read_def open_channel_def decode_encode_response split: option.splits)
qed

section \<open>The query tool\<close>

text \<open>\<open>startEmbedder\<close>: the program and its arguments; \<open>None\<close> is the error of an empty command.\<close>

definition startEmbedder :: "string \<Rightarrow> (string \<times> string list) option" where
  "startEmbedder cmdStr = (case Fields cmdStr of [] \<Rightarrow> None | prog # args \<Rightarrow> Some (prog, args))"

text \<open>
  \<open>embedQuery\<close>: \<open>spawn\<close> is the channel to the subprocess once it has seen the request, with the answer
  or at its end; \<open>None\<close> if the process cannot be started or reached.
\<close>

definition embedQuery ::
  "('s, 'd) floats \<Rightarrow> (string \<times> string list \<Rightarrow> json \<Rightarrow> channel option) \<Rightarrow> string \<Rightarrow> string \<Rightarrow> string + 's list" where
  "embedQuery F spawn cmdStr queryText =
     (case startEmbedder cmdStr of
        None \<Rightarrow> Inl ''empty embedder command''
      | Some cmd \<Rightarrow>
          (case spawn cmd (encode_request \<lparr>er_ChunkID = ''query'', er_Text = queryText\<rparr>) of
             None \<Rightarrow> Inl ''start embedder''
           | Some ch \<Rightarrow>
               (case embed_read F ch of
                  None \<Rightarrow> Inl ''no response from embedder''
                | Some (ch', Inl e) \<Rightarrow> Inl ''decode embedder response''
                | Some (ch', Inr resp) \<Rightarrow> Inr (es_Vector resp))))"

text \<open>\<open>run\<close> of the query tool: the search itself is not written, so every run ends in an error.\<close>

definition query_run ::
  "('s, 'd) floats \<Rightarrow> (string \<times> string list \<Rightarrow> json \<Rightarrow> channel option) \<Rightarrow> string \<Rightarrow> string \<Rightarrow> bool \<Rightarrow> string" where
  "query_run F spawn queryText embedderCmd dialled =
     (case embedQuery F spawn embedderCmd queryText of
        Inl e \<Rightarrow> ''embed query: '' @ e
      | Inr vector \<Rightarrow> if \<not> dialled then ''dial qdrant'' else ''query search: not implemented'')"

definition query_main ::
  "('s, 'd) floats \<Rightarrow> (string \<times> string list \<Rightarrow> json \<Rightarrow> channel option) \<Rightarrow> string list \<Rightarrow> string \<Rightarrow> bool \<Rightarrow> string" where
  "query_main F spawn args embedderCmd dialled =
     (if length args < 1 then ''usage: query [flags] <query text>''
      else query_run F spawn (Join args '' '') embedderCmd dialled)"

text \<open>With the mock as subprocess the query vector is the projection of the query text.\<close>

lemma embedQuery_mock:
  assumes "floats_roundtrip F" and "startEmbedder cmdStr = Some cmd"
  shows "embedQuery F (\<lambda>c line. Some (mock_step F \<lparr>to_child = [Some line], from_child = []\<rparr>)) cmdStr queryText =
    Inr (hashProject F queryText)"
  using assms
  by (simp add: embedQuery_def mock_step_def embed_read_def decode_encode_request decode_encode_response)

end
