(* ===== verification/Producer.thy ===== *)
theory Producer
  imports Broker EmbedProtocol
begin

text \<open>
  The corpus producer (\<open>hw4/producer/main.go\<close>): cutting articles into passages, the payloads of the
  tasks, and the two loops of \<open>run\<close>, submitting and waiting. Opening the corpus and the broker
  connection is I/O and left out; the articles are what the decoder yields before its first error.
  A character is a code point below 256, where \<open>unicode.IsSpace\<close> is the set below.
\<close>

section \<open>Chunking\<close>

definition unicode_space :: "char \<Rightarrow> bool" where
  "unicode_space c \<longleftrightarrow> ascii_space c \<or> of_char c = (133 :: nat) \<or> of_char c = (160 :: nat)"

text \<open>
  The loop of \<open>chunkText\<close>. \<open>None\<close>: it does not return, because the step is 0, or the slice
  expression panics, because the step is negative.
\<close>

partial_function (option) chunk_loop ::
  "string list \<Rightarrow> int \<Rightarrow> int \<Rightarrow> string list \<Rightarrow> string list option" where
  "chunk_loop words maxWords i chunks =
     (if i < int (length words) then
        (let end0 = i + maxWords;
             end1 = (if end0 > int (length words) then int (length words) else end0)
         in if end1 < i then None
            else chunk_loop words maxWords (i + maxWords)
              (chunks @ [Join (take (nat (end1 - i)) (drop (nat i) words)) '' '']))
      else Some chunks)"

declare chunk_loop.simps [code]

definition chunkText :: "string \<Rightarrow> int \<Rightarrow> string list option" where
  "chunkText body maxWords = chunk_loop (FieldsFunc unicode_space body) maxWords 0 []"

text \<open>The passages as lists of words.\<close>

fun cut :: "nat \<Rightarrow> 'a list \<Rightarrow> 'a list list" where
  "cut n [] = []"
| "cut n (x # xs) = (if n = 0 then [] else take n (x # xs) # cut n (drop n (x # xs)))"

lemma cut_nonempty: "0 < n \<Longrightarrow> ws \<noteq> [] \<Longrightarrow> cut n ws = take n ws # cut n (drop n ws)"
  by (cases ws) auto

lemma cut_concat: "0 < n \<Longrightarrow> concat (cut n ws) = ws"
  by (induction n ws rule: cut.induct) (auto simp: append_take_drop_id simp del: take_Suc_Cons)

lemma cut_lengths:
  "0 < n \<Longrightarrow> ps \<in> set (cut n ws) \<Longrightarrow> ps \<noteq> [] \<and> length ps \<le> n \<and> set ps \<subseteq> set ws"
proof (induction n ws rule: cut.induct)
  case (2 n x xs)
  have sub: "set (take n (x # xs)) \<subseteq> set (x # xs)" "set (drop n (x # xs)) \<subseteq> set (x # xs)"
    by (rule set_take_subset, rule set_drop_subset)
  consider "ps = take n (x # xs)" | "ps \<in> set (cut n (drop n (x # xs)))"
    using 2(2,3) by (auto simp del: take_Suc_Cons)
  then show ?case
  proof cases
    case 1
    then show ?thesis using 2(2) sub(1) by auto
  next
    case 2
    then show ?thesis using "2.IH" \<open>0 < n\<close> sub(2) by auto
  qed
qed simp

lemma cut_full: "0 < n \<Longrightarrow> i + 1 < length (cut n ws) \<Longrightarrow> length (cut n ws ! i) = n"
proof (induction n ws arbitrary: i rule: cut.induct)
  case (2 n x xs)
  have "cut n (drop n (x # xs)) \<noteq> []" using 2(2,3) by auto
  then have long: "n < length (x # xs)" by (metis cut.simps(1) drop_all not_le)
  show ?case
  proof (cases i)
    case 0
    then show ?thesis using long 2(2) by simp
  next
    case (Suc j)
    then show ?thesis using 2 by simp
  qed
qed simp

lemma chunk_loop_cut:
  assumes "0 < m" and "0 \<le> i"
  shows "chunk_loop words m i chunks =
    Some (chunks @ map (\<lambda>ps. Join ps '' '') (cut (nat m) (drop (nat i) words)))"
  using assms(2)
proof (induction "nat (int (length words) - i)" arbitrary: i chunks rule: less_induct)
  case less
  show ?case
  proof (cases "i < int (length words)")
    case True
    let ?e = "if i + m > int (length words) then int (length words) else i + m"
    let ?p = "Join (take (nat (?e - i)) (drop (nat i) words)) '' ''"
    have t: "take (nat (?e - i)) (drop (nat i) words) = take (nat m) (drop (nat i) words)"
      using True assms(1) less.prems by (cases "i + m > int (length words)") auto
    have d: "drop (nat i) words \<noteq> []" "drop (nat m) (drop (nat i) words) = drop (nat (i + m)) words"
      using True assms(1) less.prems by (auto simp: nat_add_distrib add.commute)
    have "nat (int (length words) - (i + m)) < nat (int (length words) - i)" "0 \<le> i + m"
      using True assms(1) less.prems by simp_all
    from less.hyps [OF this, of "chunks @ [?p]"]
    have IH: "chunk_loop words m (i + m) (chunks @ [?p]) =
        Some ((chunks @ [?p]) @ map (\<lambda>ps. Join ps '' '') (cut (nat m) (drop (nat (i + m)) words)))" .
    have "chunk_loop words m i chunks = chunk_loop words m (i + m) (chunks @ [?p])"
      using True assms(1) by (subst chunk_loop.simps) (simp add: Let_def)
    then show ?thesis using IH assms(1) cut_nonempty [of "nat m" "drop (nat i) words"] t d by simp
  next
    case False
    then show ?thesis by (subst chunk_loop.simps) simp
  qed
qed

lemma chunkText_cut:
  "0 < m \<Longrightarrow> chunkText body m = Some (map (\<lambda>ps. Join ps '' '') (cut (nat m) (FieldsFunc unicode_space body)))"
  unfolding chunkText_def by (subst chunk_loop_cut) simp_all

lemma passage_words:
  assumes "0 < m" and "ps \<in> set (cut m (FieldsFunc unicode_space body))"
  shows "FieldsFunc unicode_space (Join ps '' '') = ps"
proof (rule FieldsFunc_Join)
  show "\<forall>w \<in> set ps. is_word unicode_space w"
    using cut_lengths [OF assms] FieldsFunc_words [of _ unicode_space body] by blast
  show "unicode_space CHR '' ''" by (simp add: unicode_space_def ascii_space_def)
qed

text \<open>
  C37. Chunking loses no word: for a positive chunk size \<open>chunkText\<close> returns, the words of the passages,
  one passage after the other, are the words of the text, every passage has at least one and at most
  that many words, and all but the last have exactly that many.
\<close>

theorem chunk_text_words:
  assumes "0 < maxWords"
  shows "\<exists>chunks. chunkText body maxWords = Some chunks \<and>
    concat (map (FieldsFunc unicode_space) chunks) = FieldsFunc unicode_space body \<and>
    (\<forall>c \<in> set chunks. 1 \<le> length (FieldsFunc unicode_space c) \<and>
       int (length (FieldsFunc unicode_space c)) \<le> maxWords) \<and>
    (\<forall>i. i + 1 < length chunks \<longrightarrow> int (length (FieldsFunc unicode_space (chunks ! i))) = maxWords)"
proof -
  let ?ps = "cut (nat maxWords) (FieldsFunc unicode_space body)"
  let ?cs = "map (\<lambda>ps. Join ps '' '') ?ps"
  have m: "0 < nat maxWords" using assms by simp
  have w: "FieldsFunc unicode_space (Join ps '' '') = ps" if "ps \<in> set ?ps" for ps
    by (rule passage_words [OF m that])
  have "map (FieldsFunc unicode_space) ?cs = ?ps" using w by (simp add: comp_def map_idI)
  moreover have "1 \<le> length (FieldsFunc unicode_space c) \<and> int (length (FieldsFunc unicode_space c)) \<le> maxWords"
    if c: "c \<in> set ?cs" for c
  proof -
    obtain ps where ps: "ps \<in> set ?ps" "c = Join ps '' ''" using c by auto
    then show ?thesis using cut_lengths [OF m ps(1)] w [OF ps(1)] assms by (auto simp: Suc_le_eq le_nat_iff)
  qed
  moreover have "int (length (FieldsFunc unicode_space (?cs ! i))) = maxWords" if i: "i + 1 < length ?cs" for i
  proof -
    have "length (?ps ! i) = nat maxWords" using cut_full [OF m, of i] i by simp
    moreover have "FieldsFunc unicode_space (?cs ! i) = ?ps ! i" using w [of "?ps ! i"] i by simp
    ultimately show ?thesis using assms by simp
  qed
  ultimately show ?thesis using chunkText_cut [OF assms] cut_concat [OF m] by (intro exI [of _ ?cs]) auto
qed

theorem chunk_text_words_witness:
  "chunkText ''a bb  c'' 2 = Some [''a bb'', ''c''] \<and>
   concat (map (FieldsFunc unicode_space) [''a bb'', ''c'']) = FieldsFunc unicode_space ''a bb  c''"
proof -
  have "chunkText ''a bb  c'' 2 = Some [''a bb'', ''c'']" by code_simp
  then show ?thesis using chunk_text_words [of 2 "''a bb  c''"] by auto
qed

text \<open>A chunk size of 0 never returns and a negative one panics, if there is a word at all.\<close>

lemma chunk_loop_zero:
  assumes "chunk_loop words m i chunks = Some r" and "m = 0"
  shows "int (length words) \<le> i"
proof -
  have "m = 0 \<longrightarrow> int (length words) \<le> i"
    by (rule chunk_loop.raw_induct [OF _ assms(1)]) (fastforce simp: Let_def split: if_splits)
  then show ?thesis using assms(2) by simp
qed

lemma chunkText_zero: "FieldsFunc unicode_space body \<noteq> [] \<Longrightarrow> chunkText body 0 = None"
  unfolding chunkText_def using chunk_loop_zero [of "FieldsFunc unicode_space body" 0 0 "[]"] by fastforce

lemma chunkText_negative: "FieldsFunc unicode_space body \<noteq> [] \<Longrightarrow> m < 0 \<Longrightarrow> chunkText body m = None"
  unfolding chunkText_def by (subst chunk_loop.simps) (simp add: Let_def)

section \<open>Payloads\<close>

record article =
  art_ID :: string
  art_Title :: string
  art_Text :: string

record taskPayload =
  tp_DocID :: string
  tp_ChunkID :: string
  tp_Title :: string
  tp_Text :: string

definition encode_payload :: "taskPayload \<Rightarrow> json" where
  "encode_payload p =
     JObj [(''doc_id'', JStr (tp_DocID p)), (''chunk_id'', JStr (tp_ChunkID p)),
       (''title'', JStr (tp_Title p)), (''text'', JStr (tp_Text p))]"

definition decode_payload :: "json \<Rightarrow> taskPayload option" where
  "decode_payload j =
     then_do (fields_of j) (\<lambda>kvs. then_do (str_field ''doc_id'' kvs) (\<lambda>d.
       then_do (str_field ''chunk_id'' kvs) (\<lambda>c. then_do (str_field ''title'' kvs) (\<lambda>t.
         map_option (\<lambda>x. \<lparr>tp_DocID = d, tp_ChunkID = c, tp_Title = t, tp_Text = x\<rparr>) (str_field ''text'' kvs)))))"

lemma lower_payload_names [simp]: "ToLower ''doc_id'' = ''doc_id''" "ToLower ''title'' = ''title''"
  by code_simp+

lemma decode_encode_payload: "decode_payload (encode_payload p) = Some p"
  by (simp add: decode_payload_def encode_payload_def str_field_def values_of_def)

text \<open>The payloads of one article, numbered from 0, and of all articles the decoder yields.\<close>

fun number_passages :: "article \<Rightarrow> int \<Rightarrow> string list \<Rightarrow> taskPayload list" where
  "number_passages art i [] = []"
| "number_passages art i (passage # ps) =
     \<lparr>tp_DocID = art_ID art, tp_ChunkID = art_ID art @ ''-'' @ Itoa i, tp_Title = art_Title art,
      tp_Text = passage\<rparr> # number_passages art (i + 1) ps"

fun corpus_payloads :: "article list \<Rightarrow> int \<Rightarrow> taskPayload list option" where
  "corpus_payloads [] chunkSize = Some []"
| "corpus_payloads (art # arts) chunkSize =
     then_do (chunkText (art_Text art) chunkSize) (\<lambda>chunks.
       map_option ((@) (number_passages art 0 chunks)) (corpus_payloads arts chunkSize))"

lemma corpus_payloads_Some: "0 < chunkSize \<Longrightarrow> \<exists>ps. corpus_payloads arts chunkSize = Some ps"
proof (induction arts)
  case (Cons art arts)
  then show ?case using chunkText_cut [of chunkSize "art_Text art"] by auto
qed simp

text \<open>Within an article the chunk ids are distinct.\<close>

lemma number_passages_ids:
  "map tp_ChunkID (number_passages art i ps) = map (\<lambda>j. art_ID art @ ''-'' @ Itoa (i + int j)) [0..<length ps]"
proof (induction ps arbitrary: i)
  case (Cons p ps)
  have "map (\<lambda>j. art_ID art @ ''-'' @ Itoa (i + int j)) [0..<Suc (length ps)] =
      (art_ID art @ ''-'' @ Itoa i) # map (\<lambda>j. art_ID art @ ''-'' @ Itoa (i + 1 + int j)) [0..<length ps]"
    unfolding upt_conv_Cons [OF zero_less_Suc] map_Suc_upt [symmetric] by (simp add: comp_def algebra_simps)
  then show ?case using Cons [of "i + 1"] by simp
qed simp

lemma number_passages_distinct: "distinct (map tp_ChunkID (number_passages art i ps))"
  unfolding number_passages_ids distinct_map by (auto intro!: inj_onI dest: Itoa_inj)

section \<open>The two loops\<close>

text \<open>
  The state of \<open>run\<close>: the chunks not submitted yet, \<open>taskIDs\<close>, and once it waits the map \<open>pending\<close>
  (here the ids that are still keys), the failures it has logged, and whether it has returned an error.
\<close>

record producer =
  pr_chunks :: "taskPayload list"
  pr_taskIDs :: "string list"
  pr_pending :: "string list option"
  pr_failed :: "(string \<times> string) list"
  pr_stopped :: bool

definition producer_start :: "taskPayload list \<Rightarrow> producer" where
  "producer_start ps = \<lparr>pr_chunks = ps, pr_taskIDs = [], pr_pending = None, pr_failed = [], pr_stopped = False\<rparr>"

text \<open>One round of the submitting loop: the payload to submit, and the state after the reply.\<close>

definition next_submit :: "producer \<Rightarrow> json option" where
  "next_submit pr = (case pr_chunks pr of [] \<Rightarrow> None | p # ps \<Rightarrow> Some (encode_payload p))"

definition submit_reply :: "producer \<Rightarrow> string \<Rightarrow> producer" where
  "submit_reply pr ident = pr\<lparr>pr_chunks := tl (pr_chunks pr), pr_taskIDs := pr_taskIDs pr @ [ident]\<rparr>"

text \<open>An error of \<open>Submit\<close> ends \<open>run\<close>.\<close>

definition submit_failed :: "producer \<Rightarrow> producer" where
  "submit_failed pr = pr\<lparr>pr_stopped := True\<rparr>"

definition start_waiting :: "producer \<Rightarrow> producer" where
  "start_waiting pr = pr\<lparr>pr_pending := Some (remdups (pr_taskIDs pr))\<rparr>"

text \<open>One round of the inner loop, with the reply of \<open>GetResult\<close> (\<open>None\<close>: not done).\<close>

definition result_reply :: "producer \<Rightarrow> string \<Rightarrow> string option \<Rightarrow> producer" where
  "result_reply pr ident res =
     (case res of
        None \<Rightarrow> pr
      | Some err \<Rightarrow>
          let pr' = (if err \<noteq> '''' then pr\<lparr>pr_failed := pr_failed pr @ [(ident, err)]\<rparr> else pr)
          in pr'\<lparr>pr_pending := map_option (removeAll ident) (pr_pending pr')\<rparr>)"

text \<open>The line printed at the end counts the chunks submitted, failed or not.\<close>

definition producer_report :: "producer \<Rightarrow> nat \<Rightarrow> string option" where
  "producer_report pr articleCount =
     (if \<not> pr_stopped pr \<and> pr_pending pr = Some [] then
        Some (''indexed '' @ Itoa (int (length (pr_taskIDs pr))) @ '' chunks from '' @
          Itoa (int articleCount) @ '' articles'')
      else None)"

end
