(* ===== verification/EmbedWorker.thy ===== *)
theory EmbedWorker
  imports Producer
begin

text \<open>
  The embedding worker (\<open>hw4/worker/main.go\<close>): the body of its loop, cut at every call it makes. The
  replies are arguments. A failure of decoding, embedding or upserting is reported to the broker and
  ends the worker.
\<close>

section \<open>State\<close>

text \<open>
  \<open>Embedding\<close> waits for a line of the subprocess, \<open>Upserting\<close> for the vector database, \<open>Finishing\<close>
  is before the call of \<open>Complete\<close> with its error, empty on success. The heartbeat goroutine runs in
  the first two.
\<close>

datatype 's phase =
    Polling
  | Embedding string taskPayload
  | Upserting string taskPayload "'s list"
  | Finishing string string
  | Exited string

record 's worker =
  w_workerID :: string
  w_phase :: "'s phase"
  w_emb :: channel

definition worker_start :: "string \<Rightarrow> 's worker" where
  "worker_start ident = \<lparr>w_workerID = ident, w_phase = Polling, w_emb = open_channel\<rparr>"

section \<open>The loop\<close>

text \<open>
  After \<open>Poll\<close>: \<open>reply\<close> is the task with its payload, \<open>None\<close> inside if that is not JSON. \<open>decodeErr\<close>
  is the text of the decoding error.
\<close>

definition worker_polled :: "'s worker \<Rightarrow> (string \<times> json option) option \<Rightarrow> string \<Rightarrow> 's worker" where
  "worker_polled w reply decodeErr =
     (case reply of
        None \<Rightarrow> w
      | Some (ident, payload) \<Rightarrow>
          (case then_do payload decode_payload of
             None \<Rightarrow> w\<lparr>w_phase := Finishing ident decodeErr\<rparr>
           | Some p \<Rightarrow>
               w\<lparr>w_phase := Embedding ident p,
                 w_emb := embed_write (w_emb w) \<lparr>er_ChunkID = tp_ChunkID p, er_Text = tp_Text p\<rparr>\<rparr>))"

text \<open>The line of the subprocess, if there is one.\<close>

definition worker_embedded :: "('s, 'd) floats \<Rightarrow> 's worker \<Rightarrow> 's worker option" where
  "worker_embedded F w =
     (case w_phase w of
        Embedding ident p \<Rightarrow>
          (case embed_read F (w_emb w) of
             None \<Rightarrow> None
           | Some (ch, Inl e) \<Rightarrow> Some (w\<lparr>w_emb := ch, w_phase := Finishing ident e\<rparr>)
           | Some (ch, Inr resp) \<Rightarrow> Some (w\<lparr>w_emb := ch, w_phase := Upserting ident p (es_Vector resp)\<rparr>))
      | _ \<Rightarrow> None)"

text \<open>A write error, or the end of the subprocess.\<close>

definition worker_embed_failed :: "'s worker \<Rightarrow> string \<Rightarrow> 's worker option" where
  "worker_embed_failed w err =
     (case w_phase w of Embedding ident p \<Rightarrow> Some (w\<lparr>w_phase := Finishing ident err\<rparr>) | _ \<Rightarrow> None)"

definition QdrantCollection :: string where
  "QdrantCollection = ''documents''"

definition VectorDim :: int where
  "VectorDim = 384"

text \<open>The point of the collection that \<open>upsertVector\<close> writes.\<close>

record 's point =
  pt_Collection :: string
  pt_Id :: "64 word"
  pt_Vectors :: "'s list"
  pt_Payload :: "(string \<times> string) list"

definition upsertVector :: "taskPayload \<Rightarrow> 's list \<Rightarrow> 's point" where
  "upsertVector p vector =
     \<lparr>pt_Collection = QdrantCollection, pt_Id = chunkIDToUUID (tp_ChunkID p), pt_Vectors = vector,
      pt_Payload = [(''doc_id'', tp_DocID p), (''title'', tp_Title p), (''text'', tp_Text p)]\<rparr>"

definition worker_upsert :: "'s worker \<Rightarrow> 's point option" where
  "worker_upsert w = (case w_phase w of Upserting ident p v \<Rightarrow> Some (upsertVector p v) | _ \<Rightarrow> None)"

definition worker_upserted :: "'s worker \<Rightarrow> string \<Rightarrow> 's worker option" where
  "worker_upserted w err =
     (case w_phase w of Upserting ident p v \<Rightarrow> Some (w\<lparr>w_phase := Finishing ident err\<rparr>) | _ \<Rightarrow> None)"

text \<open>The call of \<open>Complete\<close>, and what follows it whatever its reply.\<close>

definition worker_complete :: "'s worker \<Rightarrow> (string \<times> string) option" where
  "worker_complete w = (case w_phase w of Finishing ident err \<Rightarrow> Some (ident, err) | _ \<Rightarrow> None)"

definition worker_completed :: "'s worker \<Rightarrow> 's worker option" where
  "worker_completed w =
     (case w_phase w of
        Finishing ident err \<Rightarrow> Some (w\<lparr>w_phase := (if err = '''' then Polling else Exited err)\<rparr>)
      | _ \<Rightarrow> None)"

definition w_PollInterval :: int where
  "w_PollInterval = 100 * 1000000"

definition w_HeartbeatInterval :: int where
  "w_HeartbeatInterval = 3 * 1000000000"

text \<open>The task a heartbeat names; the goroutine is cancelled before \<open>Complete\<close>.\<close>

definition worker_heartbeat :: "'s worker \<Rightarrow> string option" where
  "worker_heartbeat w =
     (case w_phase w of Embedding ident p \<Rightarrow> Some ident | Upserting ident p v \<Rightarrow> Some ident | _ \<Rightarrow> None)"

end
