(* ===== verification/Pipeline.thy ===== *)
theory Pipeline
  imports EmbedWorker
begin

text \<open>
  The pipeline of \<open>hw4\<close> as a whole: the producer, the broker, any number of workers, each with its mock
  embedder, and the collection of points, in any interleaving of calls. A call is one step of the
  broker; its reply may be lost. A heartbeat may still be on its way when its worker has gone on. Uuids are new and error texts are not empty, by what the packages
  \<open>uuid\<close> and \<open>errors\<close> promise.
\<close>

section \<open>State and events\<close>

text \<open>\<open>pl_sent\<close> records which chunk was submitted under which id, for the statements only.\<close>

record 's pipeline =
  pl_broker :: "json option brokerServer"
  pl_worker :: "nat \<Rightarrow> 's worker"
  pl_points :: "'s point list"
  pl_producer :: producer
  pl_sent :: "(string \<times> taskPayload) list"
  pl_beats :: "string list"
  pl_now :: int

datatype pipeline_event =
    PSubmit string
  | PSubmitFail string bool
  | PWait
  | PCheck string
  | WPoll nat bool string
  | WChild nat
  | WEmbed nat
  | WEmbedFail nat string
  | WUpsert nat string bool
  | WComplete nat bool
  | WBeat nat
  | BBeat nat
  | BTick "string list"
  | Pass int

definition pipeline_start :: "(nat \<Rightarrow> string) \<Rightarrow> taskPayload list \<Rightarrow> 's pipeline" where
  "pipeline_start names chunks =
     \<lparr>pl_broker = newBrokerServer, pl_worker = (\<lambda>n. worker_start (names n)), pl_points = [],
      pl_producer = producer_start chunks, pl_sent = [], pl_beats = [], pl_now = 0\<rparr>"

abbreviation set_worker :: "'s pipeline \<Rightarrow> nat \<Rightarrow> 's worker \<Rightarrow> 's pipeline" where
  "set_worker s n w \<equiv> s\<lparr>pl_worker := (pl_worker s)(n := w)\<rparr>"

text \<open>
  What each event does; \<open>None\<close> if it cannot happen. The flag of \<open>PSubmitFail\<close> and \<open>WComplete\<close> says
  whether the call got through, that of \<open>WPoll\<close> whether its reply came back; an upsert that failed may have
  been applied, which is the flag of \<open>WUpsert\<close>.
\<close>

fun pipeline_fire :: "('s, 'd) floats \<Rightarrow> 's pipeline \<Rightarrow> pipeline_event \<Rightarrow> 's pipeline option" where
  "pipeline_fire F s (PSubmit i) =
     (let pr = pl_producer s
      in if pr_stopped pr \<or> pr_pending pr \<noteq> None \<or> i \<in> fst ` set (pl_sent s) then None
         else case (next_submit pr, pr_chunks pr) of
           (Some payload, p # ps) \<Rightarrow>
             Some (s\<lparr>pl_broker := fst (broker_Submit (pl_broker s) i (Some payload)),
                     pl_producer := submit_reply pr i, pl_sent := pl_sent s @ [(i, p)]\<rparr>)
         | _ \<Rightarrow> None)"
| "pipeline_fire F s (PSubmitFail i arrived) =
     (let pr = pl_producer s
      in if pr_stopped pr \<or> pr_pending pr \<noteq> None \<or> i \<in> fst ` set (pl_sent s) then None
         else case (next_submit pr, pr_chunks pr) of
           (Some payload, p # ps) \<Rightarrow>
             Some (if arrived then
                     s\<lparr>pl_broker := fst (broker_Submit (pl_broker s) i (Some payload)),
                       pl_producer := submit_failed pr, pl_sent := pl_sent s @ [(i, p)]\<rparr>
                   else s\<lparr>pl_producer := submit_failed pr\<rparr>)
         | _ \<Rightarrow> None)"
| "pipeline_fire F s PWait =
     (if pr_stopped (pl_producer s) \<or> pr_pending (pl_producer s) \<noteq> None \<or> pr_chunks (pl_producer s) \<noteq> [] then None
      else Some (s\<lparr>pl_producer := start_waiting (pl_producer s)\<rparr>))"
| "pipeline_fire F s (PCheck i) =
     (case pr_pending (pl_producer s) of
        None \<Rightarrow> None
      | Some ids \<Rightarrow>
          if i \<in> set ids then
            Some (s\<lparr>pl_producer := result_reply (pl_producer s) i (broker_GetResult (pl_broker s) i)\<rparr>)
          else None)"
| "pipeline_fire F s (WPoll n came decodeErr) =
     (let w = pl_worker s n; (b, reply) = poll_pair (pl_broker s) (w_workerID w, pl_now s)
      in if w_phase w = Polling \<and> decodeErr \<noteq> '''' then
           Some (if came then (set_worker s n (worker_polled w reply decodeErr))\<lparr>pl_broker := b\<rparr>
                 else s\<lparr>pl_broker := b\<rparr>)
         else None)"
| "pipeline_fire F s (WChild n) =
     Some (set_worker s n ((pl_worker s n)\<lparr>w_emb := mock_step F (w_emb (pl_worker s n))\<rparr>))"
| "pipeline_fire F s (WEmbed n) = map_option (set_worker s n) (worker_embedded F (pl_worker s n))"
| "pipeline_fire F s (WEmbedFail n e) =
     (if e = '''' then None else map_option (set_worker s n) (worker_embed_failed (pl_worker s n) e))"
| "pipeline_fire F s (WUpsert n e applied) =
     (if e = '''' \<and> \<not> applied then None
      else then_do (worker_upsert (pl_worker s n)) (\<lambda>pt.
        map_option (\<lambda>w. (set_worker s n w)\<lparr>pl_points := (if applied then pl_points s @ [pt] else pl_points s)\<rparr>)
          (worker_upserted (pl_worker s n) e)))"
| "pipeline_fire F s (WComplete n arrived) =
     then_do (worker_complete (pl_worker s n)) (\<lambda>(i, e).
       map_option (\<lambda>w. (set_worker s n w)
           \<lparr>pl_broker := (if arrived then broker_Complete (pl_broker s) i e else pl_broker s)\<rparr>)
         (worker_completed (pl_worker s n)))"
| "pipeline_fire F s (WBeat n) =
     map_option (\<lambda>i. s\<lparr>pl_beats := pl_beats s @ [i]\<rparr>) (worker_heartbeat (pl_worker s n))"
| "pipeline_fire F s (BBeat k) =
     (if k < length (pl_beats s) then
        Some (s\<lparr>pl_broker := broker_Heartbeat (pl_broker s) (pl_beats s ! k) (pl_now s),
                pl_beats := take k (pl_beats s) @ drop (Suc k) (pl_beats s)\<rparr>)
      else None)"
| "pipeline_fire F s (BTick ids) =
     (if iteration_order (pl_broker s) ids then Some (s\<lparr>pl_broker := requeue_loop (pl_now s) ids (pl_broker s)\<rparr>)
      else None)"
| "pipeline_fire F s (Pass d) = (if 0 \<le> d then Some (s\<lparr>pl_now := pl_now s + d\<rparr>) else None)"

inductive pipeline_reachable ::
  "('s, 'd) floats \<Rightarrow> (nat \<Rightarrow> string) \<Rightarrow> taskPayload list \<Rightarrow> 's pipeline \<Rightarrow> bool" for F names chunks where
  pl_boot: "pipeline_reachable F names chunks (pipeline_start names chunks)"
| pl_next: "pipeline_reachable F names chunks s \<Longrightarrow> pipeline_fire F s ev = Some s' \<Longrightarrow>
    pipeline_reachable F names chunks s'"

section \<open>The invariant\<close>

text \<open>The point of a chunk, with the vector of the mock embedder.\<close>

definition point_of :: "('s, 'd) floats \<Rightarrow> taskPayload \<Rightarrow> 's point" where
  "point_of F p = upsertVector p (hashProject F (tp_Text p))"

definition request_of :: "taskPayload \<Rightarrow> embedRequest" where
  "request_of p = \<lparr>er_ChunkID = tp_ChunkID p, er_Text = tp_Text p\<rparr>"

definition history :: "(string \<times> taskPayload) list \<Rightarrow> (string \<times> json option) list" where
  "history sent = map (\<lambda>(i, p). (i, Some (encode_payload p))) sent"

fun phase_ok :: "('s, 'd) floats \<Rightarrow> (string \<times> taskPayload) set \<Rightarrow> 's point set \<Rightarrow> 's phase \<Rightarrow> channel \<Rightarrow> bool" where
  "phase_ok F S P Polling ch \<longleftrightarrow> ch = open_channel"
| "phase_ok F S P (Embedding i p) ch \<longleftrightarrow> (i, p) \<in> S \<and> awaiting F ch (request_of p)"
| "phase_ok F S P (Upserting i p v) ch \<longleftrightarrow> (i, p) \<in> S \<and> v = hashProject F (tp_Text p) \<and> ch = open_channel"
| "phase_ok F S P (Finishing i e) ch \<longleftrightarrow>
     (e = '''' \<longrightarrow> ch = open_channel \<and> (\<exists>p. (i, p) \<in> S \<and> point_of F p \<in> P))"
| "phase_ok F S P (Exited e) ch \<longleftrightarrow> True"

definition workers_ok :: "('s, 'd) floats \<Rightarrow> 's pipeline \<Rightarrow> bool" where
  "workers_ok F s \<longleftrightarrow>
     (\<forall>n. phase_ok F (set (pl_sent s)) (set (pl_points s)) (w_phase (pl_worker s n)) (w_emb (pl_worker s n)))"

definition results_ok :: "('s, 'd) floats \<Rightarrow> 's pipeline \<Rightarrow> bool" where
  "results_ok F s \<longleftrightarrow>
     (\<forall>i. broker_GetResult (pl_broker s) i = Some '''' \<longrightarrow>
        (\<exists>p. (i, p) \<in> set (pl_sent s) \<and> point_of F p \<in> set (pl_points s))) \<and>
     set (pl_points s) \<subseteq> point_of F ` snd ` set (pl_sent s)"

definition producer_ok :: "taskPayload list \<Rightarrow> (string \<Rightarrow> string option) \<Rightarrow> (string \<times> taskPayload) list \<Rightarrow> producer \<Rightarrow> bool" where
  "producer_ok chunks result sent pr \<longleftrightarrow>
     (\<not> pr_stopped pr \<longrightarrow> map fst sent = pr_taskIDs pr \<and> map snd sent @ pr_chunks pr = chunks) \<and>
     (\<forall>ids. pr_pending pr = Some ids \<longrightarrow> pr_chunks pr = [] \<and>
        (\<forall>i \<in> set (pr_taskIDs pr). i \<in> set ids \<or>
           (\<exists>e. result i = Some e \<and> (e \<noteq> '''' \<longrightarrow> (i, e) \<in> set (pr_failed pr)))))"

definition pipeline_inv :: "('s, 'd) floats \<Rightarrow> taskPayload list \<Rightarrow> 's pipeline \<Rightarrow> bool" where
  "pipeline_inv F chunks s \<longleftrightarrow>
     broker.run (pl_broker s) (history (pl_sent s)) \<and> workers_ok F s \<and> results_ok F s \<and>
     producer_ok chunks (broker_GetResult (pl_broker s)) (pl_sent s) (pl_producer s)"

lemma phase_ok_mono: "phase_ok F S P ph ch \<Longrightarrow> S \<subseteq> S' \<Longrightarrow> P \<subseteq> P' \<Longrightarrow> phase_ok F S' P' ph ch"
  by (cases ph) auto

lemma history_ids: "fst ` set (history sent) = fst ` set sent"
  by (force simp: history_def)

text \<open>One worker changes; what was sent and the points only grow.\<close>

lemma workers_ok_update:
  assumes "workers_ok F s" and "set (pl_sent s) \<subseteq> set (pl_sent s')" and "set (pl_points s) \<subseteq> set (pl_points s')"
    and "\<And>k. k \<noteq> n \<Longrightarrow> pl_worker s' k = pl_worker s k"
    and "phase_ok F (set (pl_sent s')) (set (pl_points s')) (w_phase (pl_worker s' n)) (w_emb (pl_worker s' n))"
  shows "workers_ok F s'"
  unfolding workers_ok_def
proof
  fix k
  show "phase_ok F (set (pl_sent s')) (set (pl_points s')) (w_phase (pl_worker s' k)) (w_emb (pl_worker s' k))"
  proof (cases "k = n")
    case False
    then show ?thesis using phase_ok_mono assms(1-3) assms(4) [OF False] unfolding workers_ok_def by metis
  qed (use assms(5) in simp)
qed

text \<open>Steps of the broker that leave the results alone keep everything else.\<close>

lemma inv_broker:
  assumes "pipeline_inv F chunks s" and "broker.run b (history (pl_sent s))"
    and "broker_GetResult b = broker_GetResult (pl_broker s)"
  shows "pipeline_inv F chunks (s\<lparr>pl_broker := b\<rparr>)"
  using assms by (simp add: pipeline_inv_def workers_ok_def results_ok_def)

lemma inv_worker:
  assumes "pipeline_inv F chunks s"
    and "phase_ok F (set (pl_sent s)) (set (pl_points s)) (w_phase w) (w_emb w)"
  shows "pipeline_inv F chunks (set_worker s n w)"
proof -
  have "workers_ok F (set_worker s n w)"
    by (rule workers_ok_update [of F s _ n]) (use assms in \<open>auto simp: pipeline_inv_def\<close>)
  then show ?thesis using assms(1) by (simp add: pipeline_inv_def results_ok_def)
qed

lemma inv_parts:
  assumes "pipeline_inv F chunks s"
  shows "broker.run (pl_broker s) (history (pl_sent s))"
    and "broker_ok (pl_broker s)" and "broker.accounted (pl_broker s) (history (pl_sent s))"
    and "phase_ok F (set (pl_sent s)) (set (pl_points s)) (w_phase (pl_worker s n)) (w_emb (pl_worker s n))"
    and "results_ok F s" and "producer_ok chunks (broker_GetResult (pl_broker s)) (pl_sent s) (pl_producer s)"
  using assms broker.run_accounted by (auto simp: pipeline_inv_def workers_ok_def)

section \<open>Every event keeps it\<close>

lemma inv_sent:
  assumes inv: "pipeline_inv F chunks s" and new: "i \<notin> fst ` set (pl_sent s)"
    and s': "s' = s\<lparr>pl_broker := fst (broker_Submit (pl_broker s) i (Some (encode_payload p))),
      pl_producer := pr, pl_sent := pl_sent s @ [(i, p)]\<rparr>"
    and pr: "producer_ok chunks (broker_GetResult (pl_broker s)) (pl_sent s @ [(i, p)]) pr"
  shows "pipeline_inv F chunks s'"
proof -
  note I = inv_parts [OF inv]
  let ?b = "fst (broker_Submit (pl_broker s) i (Some (encode_payload p)))"
  have new: "i \<notin> fst ` set (history (pl_sent s))" using new history_ids by simp
  have "broker.run ?b (history (pl_sent s) @ [(i, Some (encode_payload p))])"
    by (rule broker.run_submit [OF I(1) new])
  then have run: "broker.run ?b (history (pl_sent s @ [(i, p)]))" by (simp add: history_def)
  have res: "broker_GetResult ?b = broker_GetResult (pl_broker s)" by (rule broker.submit_result)
  have "phase_ok F (set (pl_sent s')) (set (pl_points s')) (w_phase (pl_worker s 0)) (w_emb (pl_worker s 0))"
    by (rule phase_ok_mono [OF I(4)]) (auto simp: s')
  then have "workers_ok F s'"
    by (intro workers_ok_update [of F s s' 0]) (use inv in \<open>simp_all add: pipeline_inv_def s' subset_insertI\<close>)
  moreover have "results_ok F s'" using I(5) unfolding results_ok_def s' by (auto simp: res)
  ultimately show ?thesis using run pr by (simp add: pipeline_inv_def s' res)
qed

lemma inv_producer:
  assumes "pipeline_inv F chunks s" and "producer_ok chunks (broker_GetResult (pl_broker s)) (pl_sent s) pr"
  shows "pipeline_inv F chunks (s\<lparr>pl_producer := pr\<rparr>)"
  using assms by (simp add: pipeline_inv_def workers_ok_def results_ok_def)

lemma inv_submit:
  assumes inv: "pipeline_inv F chunks s" and f: "pipeline_fire F s (PSubmit i) = Some s'"
  shows "pipeline_inv F chunks s'"
proof -
  obtain p ps where p: "pr_chunks (pl_producer s) = p # ps" "i \<notin> fst ` set (pl_sent s)"
      "pr_pending (pl_producer s) = None" "\<not> pr_stopped (pl_producer s)"
    and s': "s' = s\<lparr>pl_broker := fst (broker_Submit (pl_broker s) i (Some (encode_payload p))),
        pl_producer := submit_reply (pl_producer s) i, pl_sent := pl_sent s @ [(i, p)]\<rparr>"
    using f by (auto simp: Let_def next_submit_def split: if_splits list.splits)
  show ?thesis
    by (rule inv_sent [OF inv p(2) s'])
      (use inv_parts(6) [OF inv] p in \<open>simp add: producer_ok_def submit_reply_def\<close>)
qed

lemma inv_submit_fail:
  assumes inv: "pipeline_inv F chunks s" and f: "pipeline_fire F s (PSubmitFail i arrived) = Some s'"
  shows "pipeline_inv F chunks s'"
proof -
  let ?pr = "submit_failed (pl_producer s)"
  obtain p ps where p: "pr_chunks (pl_producer s) = p # ps" "i \<notin> fst ` set (pl_sent s)"
      "pr_pending (pl_producer s) = None"
    and s': "s' = (if arrived then s\<lparr>pl_broker := fst (broker_Submit (pl_broker s) i (Some (encode_payload p))),
        pl_producer := ?pr, pl_sent := pl_sent s @ [(i, p)]\<rparr> else s\<lparr>pl_producer := ?pr\<rparr>)"
    using f by (auto simp: Let_def next_submit_def split: if_splits list.splits)
  have pr: "producer_ok chunks result sent ?pr" for result sent
    using p(3) by (simp add: producer_ok_def submit_failed_def)
  show ?thesis
  proof (cases arrived)
    case True
    show ?thesis by (rule inv_sent [OF inv p(2) _ pr]) (simp add: s' True)
  next
    case False
    then show ?thesis using inv_producer [OF inv pr] by (simp add: s')
  qed
qed

lemma inv_wait:
  assumes inv: "pipeline_inv F chunks s" and f: "pipeline_fire F s PWait = Some s'"
  shows "pipeline_inv F chunks s'"
proof -
  have "s' = s\<lparr>pl_producer := start_waiting (pl_producer s)\<rparr>" "pr_chunks (pl_producer s) = []"
    using f by (auto split: if_splits)
  then show ?thesis
    using inv_producer [OF inv, of "start_waiting (pl_producer s)"] inv_parts(6) [OF inv]
    by (simp add: producer_ok_def start_waiting_def)
qed

lemma result_reply_ok:
  assumes "producer_ok chunks result sent pr"
  shows "producer_ok chunks result sent (result_reply pr i (result i))"
proof (cases "result i")
  case (Some e)
  show ?thesis
  proof (cases "pr_pending pr")
    case None
    then show ?thesis using assms Some by (auto simp: producer_ok_def result_reply_def Let_def)
  next
    case ids: (Some ids)
    have old: "k \<in> set ids \<or> (\<exists>e. result k = Some e \<and> (e \<noteq> '''' \<longrightarrow> (k, e) \<in> set (pr_failed pr)))"
      if "k \<in> set (pr_taskIDs pr)" for k
      using assms ids that unfolding producer_ok_def by blast
    have "k \<in> set (removeAll i ids) \<or>
        (\<exists>e. result k = Some e \<and> (e \<noteq> '''' \<longrightarrow> (k, e) \<in> set (pr_failed (result_reply pr i (result i)))))"
      if "k \<in> set (pr_taskIDs pr)" for k
      using old [OF that] Some by (cases "k = i") (auto simp: result_reply_def Let_def)
    then show ?thesis using assms ids Some by (auto simp: producer_ok_def result_reply_def Let_def)
  qed
qed (use assms in \<open>simp add: result_reply_def\<close>)

lemma inv_check:
  assumes inv: "pipeline_inv F chunks s" and f: "pipeline_fire F s (PCheck i) = Some s'"
  shows "pipeline_inv F chunks s'"
proof -
  have "s' = s\<lparr>pl_producer := result_reply (pl_producer s) i (broker_GetResult (pl_broker s) i)\<rparr>"
    using f by (auto split: if_splits option.splits)
  then show ?thesis using inv_producer [OF inv result_reply_ok [OF inv_parts(6) [OF inv]]] by simp
qed

text \<open>A task that was handed out is one that was submitted, with the payload of its chunk.\<close>

lemma poll_sent:
  assumes inv: "pipeline_inv F chunks s" and r: "snd (poll_pair (pl_broker s) w) = Some (i, payload)"
  shows "\<exists>p. (i, p) \<in> set (pl_sent s) \<and> payload = Some (encode_payload p)"
proof -
  have "(i, payload) \<in># broker_todo (pl_broker s)" by (rule broker.poll_gives [OF inv_parts(2) [OF inv] r])
  moreover have "broker_todo (pl_broker s) =
      mset (filter (\<lambda>x. broker_GetResult (pl_broker s) (fst x) = None) (history (pl_sent s)))"
    using inv_parts(3) [OF inv] by (simp add: broker.accounted_def)
  ultimately have "(i, payload) \<in> set (history (pl_sent s))" by simp
  then show ?thesis by (auto simp: history_def)
qed

lemma inv_poll:
  assumes inv: "pipeline_inv F chunks s" and f: "pipeline_fire F s (WPoll n came e) = Some s'"
  shows "pipeline_inv F chunks s'"
proof -
  let ?w = "pl_worker s n" and ?q = "(w_workerID (pl_worker s n), pl_now s)"
  let ?b = "fst (poll_pair (pl_broker s) ?q)" and ?r = "snd (poll_pair (pl_broker s) ?q)"
  note I = inv_parts [OF inv]
  have e: "w_phase ?w = Polling" "e \<noteq> ''''"
    and s': "s' = (if came then (set_worker s n (worker_polled ?w ?r e))\<lparr>pl_broker := ?b\<rparr> else s\<lparr>pl_broker := ?b\<rparr>)"
    using f by (auto simp: Let_def split: if_splits prod.splits)
  have ch: "w_emb ?w = open_channel" using I(4) [of n] e(1) by simp
  have b: "broker.run ?b (history (pl_sent s))" "broker_GetResult ?b = broker_GetResult (pl_broker s)"
    by (rule broker.run_poll [OF I(1)], rule broker.poll_result)
  have "phase_ok F (set (pl_sent s)) (set (pl_points s))
      (w_phase (worker_polled ?w ?r e)) (w_emb (worker_polled ?w ?r e))"
  proof (cases ?r)
    case None
    then show ?thesis using e ch by (simp add: worker_polled_def)
  next
    case (Some x)
    obtain i payload where x: "x = (i, payload)" by (cases x)
    obtain p where p: "(i, p) \<in> set (pl_sent s)" "payload = Some (encode_payload p)"
      using poll_sent [OF inv Some [unfolded x]] by blast
    then have "worker_polled ?w ?r e = ?w\<lparr>w_phase := Embedding i p, w_emb := embed_write (w_emb ?w) (request_of p)\<rparr>"
      using Some x by (simp add: worker_polled_def decode_encode_payload request_of_def)
    then show ?thesis using p(1) mock.asked ch by simp
  qed
  from inv_worker [OF inv this] have "pipeline_inv F chunks (set_worker s n (worker_polled ?w ?r e))" .
  from inv_broker [OF this] inv_broker [OF inv b] show ?thesis using b by (simp add: s')
qed

lemma inv_child:
  assumes inv: "pipeline_inv F chunks s" and f: "pipeline_fire F s (WChild n) = Some s'"
  shows "pipeline_inv F chunks s'"
proof -
  let ?w = "pl_worker s n"
  have open_stays: "mock_step F open_channel = open_channel" by (simp add: mock_step_def open_channel_def)
  have "phase_ok F (set (pl_sent s)) (set (pl_points s)) (w_phase ?w) (mock_step F (w_emb ?w))"
    using inv_parts(4) [OF inv, of n] mock.wait_step by (cases "w_phase ?w") (auto simp: open_stays)
  then show ?thesis using inv_worker [OF inv, of "?w\<lparr>w_emb := mock_step F (w_emb ?w)\<rparr>" n] f by simp
qed

lemma inv_embed:
  assumes F: "floats_roundtrip F" and inv: "pipeline_inv F chunks s" and f: "pipeline_fire F s (WEmbed n) = Some s'"
  shows "pipeline_inv F chunks s'"
proof -
  let ?w = "pl_worker s n"
  obtain w where w: "worker_embedded F ?w = Some w" "s' = set_worker s n w" using f by auto
  obtain i p ch r where p: "w_phase ?w = Embedding i p" and r: "embed_read F (w_emb ?w) = Some (ch, r)"
    using w(1) by (auto simp: worker_embedded_def split: phase.splits option.splits)
  have ip: "(i, p) \<in> set (pl_sent s)" "awaiting F (w_emb ?w) (request_of p)" using inv_parts(4) [OF inv, of n] p by auto
  have "r = Inr (mock_answer F (request_of p))" "ch = open_channel" using mock.wait_read [OF F ip(2) r] by auto
  then have "w = ?w\<lparr>w_emb := open_channel, w_phase := Upserting i p (hashProject F (tp_Text p))\<rparr>"
    using w(1) p r by (simp add: worker_embedded_def mock_answer_def request_of_def)
  then show ?thesis using inv_worker [OF inv, of w n] ip(1) w(2) by simp
qed

lemma inv_embed_fail:
  assumes inv: "pipeline_inv F chunks s" and f: "pipeline_fire F s (WEmbedFail n e) = Some s'"
  shows "pipeline_inv F chunks s'"
proof -
  obtain w where w: "worker_embed_failed (pl_worker s n) e = Some w" "s' = set_worker s n w" and e: "e \<noteq> ''''"
    using f by (auto split: if_splits)
  then obtain i where "w = (pl_worker s n)\<lparr>w_phase := Finishing i e\<rparr>"
    by (auto simp: worker_embed_failed_def split: phase.splits)
  then show ?thesis using inv_worker [OF inv, of w n] w(2) e by simp
qed

lemma inv_upsert:
  assumes inv: "pipeline_inv F chunks s" and f: "pipeline_fire F s (WUpsert n e applied) = Some s'"
  shows "pipeline_inv F chunks s'"
proof -
  let ?w = "pl_worker s n"
  note I = inv_parts [OF inv]
  obtain i p v where ph: "w_phase ?w = Upserting i p v"
    using f by (auto simp: worker_upsert_def split: if_splits bind_splits phase.splits)
  have ok: "(i, p) \<in> set (pl_sent s)" "v = hashProject F (tp_Text p)" "w_emb ?w = open_channel"
    using I(4) [of n] ph by auto
  let ?pts = "if applied then pl_points s @ [point_of F p] else pl_points s"
  have s': "s' = (set_worker s n (?w\<lparr>w_phase := Finishing i e\<rparr>))\<lparr>pl_points := ?pts\<rparr>" and e: "e = '''' \<longrightarrow> applied"
    using f ph ok(2) by (auto simp: worker_upsert_def worker_upserted_def point_of_def split: if_splits)
  have "workers_ok F s'"
    by (rule workers_ok_update [of F s _ n]) (use inv ok e in \<open>auto simp: pipeline_inv_def s'\<close>)
  moreover have "results_ok F s'"
    using I(5) ok(1) unfolding results_ok_def s' by (auto intro!: image_eqI [of _ _ p] image_eqI [of _ snd "(i, p)"])
  ultimately show ?thesis using I(1,6) by (simp add: pipeline_inv_def s')
qed

text \<open>Completing: the result of one submitted task becomes known, for good.\<close>

lemma producer_ok_result:
  assumes "producer_ok chunks result sent pr" and "\<And>i e. result i = Some e \<Longrightarrow> result' i = Some e"
  shows "producer_ok chunks result' sent pr"
  using assms unfolding producer_ok_def by (metis (no_types, lifting))

lemma inv_complete:
  assumes inv: "pipeline_inv F chunks s" and f: "pipeline_fire F s (WComplete n arrived) = Some s'"
  shows "pipeline_inv F chunks s'"
proof -
  let ?w = "pl_worker s n"
  note I = inv_parts [OF inv]
  obtain i e where ph: "w_phase ?w = Finishing i e"
    using f by (auto simp: worker_complete_def split: bind_splits phase.splits)
  let ?w' = "?w\<lparr>w_phase := (if e = '''' then Polling else Exited e)\<rparr>"
  let ?b = "if arrived then broker_Complete (pl_broker s) i e else pl_broker s"
  have s': "s' = (set_worker s n ?w')\<lparr>pl_broker := ?b\<rparr>"
    using f ph by (auto simp: worker_complete_def worker_completed_def)
  have ok: "e = '''' \<Longrightarrow> w_emb ?w = open_channel \<and> (\<exists>p. (i, p) \<in> set (pl_sent s) \<and> point_of F p \<in> set (pl_points s))"
    using I(4) [of n] ph by simp
  have wk: "pipeline_inv F chunks (set_worker s n ?w')" by (rule inv_worker [OF inv]) (use ok in auto)
  show ?thesis
  proof (cases "arrived \<and> broker_Complete (pl_broker s) i e \<noteq> pl_broker s")
    case True
    then have new: "broker_GetResult (pl_broker s) i = None"
      "broker_GetResult ?b = (broker_GetResult (pl_broker s))(i \<mapsto> e)"
      using broker.complete_effect [OF I(2), of i e] by auto
    have "broker.run ?b (history (pl_sent s))" using broker.run_complete [OF I(1)] True by simp
    moreover have "results_ok F s'" using I(5) ok unfolding results_ok_def s' by (auto simp: new(2) split: if_splits)
    moreover have "producer_ok chunks (broker_GetResult ?b) (pl_sent s) (pl_producer s)"
      by (rule producer_ok_result [OF I(6)]) (use new in auto)
    ultimately show ?thesis using wk by (simp add: pipeline_inv_def workers_ok_def s')
  next
    case False
    then have "?b = pl_broker s" by auto
    then have "s' = set_worker s n ?w'" unfolding s' by simp
    then show ?thesis using wk by simp
  qed
qed

lemma inv_internal:
  assumes inv: "pipeline_inv F chunks s" and b: "broker_internal (pl_broker s) b"
  shows "pipeline_inv F chunks (s\<lparr>pl_broker := b\<rparr>)"
  by (rule inv_broker [OF inv broker.run_internal [OF inv_parts(1) [OF inv] b]
        broker.internal_result [OF inv_parts(2) [OF inv] b]])

lemma inv_fire:
  assumes "floats_roundtrip F" and inv: "pipeline_inv F chunks s" and f: "pipeline_fire F s ev = Some s'"
  shows "pipeline_inv F chunks s'"
proof (cases ev)
  case (WBeat n)
  then obtain i where "s' = s\<lparr>pl_beats := pl_beats s @ [i]\<rparr>" using f by auto
  then show ?thesis using inv by (simp add: pipeline_inv_def workers_ok_def results_ok_def)
next
  case (BBeat k)
  let ?b = "broker_Heartbeat (pl_broker s) (pl_beats s ! k) (pl_now s)"
  have "broker_internal (pl_broker s) ?b" unfolding broker_internal_def by blast
  from inv_internal [OF inv this] have "pipeline_inv F chunks (s\<lparr>pl_broker := ?b\<rparr>)" .
  then show ?thesis using f BBeat by (auto simp: pipeline_inv_def workers_ok_def results_ok_def split: if_splits)
next
  case (BTick ids)
  then have "s' = s\<lparr>pl_broker := requeue_loop (pl_now s) ids (pl_broker s)\<rparr>" "iteration_order (pl_broker s) ids"
    using f by (auto split: if_splits)
  then show ?thesis using inv_internal [OF inv] unfolding broker_internal_def by blast
next
  case (Pass d)
  then have "s' = s\<lparr>pl_now := pl_now s + d\<rparr>" using f by (auto split: if_splits)
  then show ?thesis using inv by (simp add: pipeline_inv_def workers_ok_def results_ok_def)
next
  case (PSubmit i)
  show ?thesis by (rule inv_submit [OF inv f [unfolded PSubmit]])
next
  case (PSubmitFail i arrived)
  show ?thesis by (rule inv_submit_fail [OF inv f [unfolded PSubmitFail]])
next
  case PWait
  show ?thesis by (rule inv_wait [OF inv f [unfolded PWait]])
next
  case (PCheck i)
  show ?thesis by (rule inv_check [OF inv f [unfolded PCheck]])
next
  case (WPoll n came e)
  show ?thesis by (rule inv_poll [OF inv f [unfolded WPoll]])
next
  case (WChild n)
  show ?thesis by (rule inv_child [OF inv f [unfolded WChild]])
next
  case (WEmbed n)
  show ?thesis by (rule inv_embed [OF assms(1) inv f [unfolded WEmbed]])
next
  case (WEmbedFail n e)
  show ?thesis by (rule inv_embed_fail [OF inv f [unfolded WEmbedFail]])
next
  case (WUpsert n e applied)
  show ?thesis by (rule inv_upsert [OF inv f [unfolded WUpsert]])
next
  case (WComplete n arrived)
  show ?thesis by (rule inv_complete [OF inv f [unfolded WComplete]])
qed

lemma inv_start: "pipeline_inv F chunks (pipeline_start names chunks)"
proof -
  have "broker_GetResult (newBrokerServer :: json option brokerServer) i \<noteq> Some ''''" for i
    by (simp add: broker.start_result)
  moreover have "broker.run (newBrokerServer :: json option brokerServer) []" by (rule broker.run_start)
  ultimately show ?thesis
    by (simp add: pipeline_inv_def pipeline_start_def history_def workers_ok_def results_ok_def producer_ok_def
        producer_start_def worker_start_def)
qed

lemma reachable_pipeline_inv:
  assumes "floats_roundtrip F"
  shows "pipeline_reachable F names chunks s \<Longrightarrow> pipeline_inv F chunks s"
  by (induction rule: pipeline_reachable.induct) (auto intro: inv_start inv_fire [OF assms])

end
