(* ===== verification/PipelineTheorems.thy ===== *)
theory PipelineTheorems
  imports Pipeline
begin

text \<open>
  What the end of the producer means for the collection of points, and a run of the whole pipeline with
  one worker.
\<close>

section \<open>The passages of an article among the chunks\<close>

lemma number_passages_nth:
  "k < length ps \<Longrightarrow> \<lparr>tp_DocID = art_ID art, tp_ChunkID = art_ID art @ ''-'' @ Itoa (i + int k),
     tp_Title = art_Title art, tp_Text = ps ! k\<rparr> \<in> set (number_passages art i ps)"
proof (induction ps arbitrary: i k)
  case (Cons p ps)
  show ?case
  proof (cases k)
    case (Suc j)
    have eq: "i + 1 + int j = i + int k" by (simp add: Suc)
    have "\<lparr>tp_DocID = art_ID art, tp_ChunkID = art_ID art @ ''-'' @ Itoa (i + 1 + int j),
        tp_Title = art_Title art, tp_Text = ps ! j\<rparr> \<in> set (number_passages art (i + 1) ps)"
      by (rule Cons.IH) (use Cons.prems Suc in simp)
    then show ?thesis unfolding eq by (simp add: Suc)
  qed simp
qed simp

lemma corpus_passages:
  "corpus_payloads arts chunkSize = Some chunks \<Longrightarrow> art \<in> set arts \<Longrightarrow>
   \<exists>ps. chunkText (art_Text art) chunkSize = Some ps \<and> set (number_passages art 0 ps) \<subseteq> set chunks"
proof (induction arts arbitrary: chunks)
  case (Cons a arts)
  obtain ps rest where ps: "chunkText (art_Text a) chunkSize = Some ps" "corpus_payloads arts chunkSize = Some rest"
    "chunks = number_passages a 0 ps @ rest" using Cons.prems(1) by (auto split: bind_splits)
  show ?case
  proof (cases "art = a")
    case False
    then show ?thesis using Cons.IH [OF ps(2)] Cons.prems(2) ps(3) by auto
  qed (use ps in simp)
qed simp

section \<open>The property\<close>

text \<open>Once the producer has seen all results, every chunk was sent and has one.\<close>

lemma chunk_accounted:
  assumes inv: "pipeline_inv F chunks s"
    and fin: "pr_pending (pl_producer s) = Some []" "\<not> pr_stopped (pl_producer s)" and p: "p \<in> set chunks"
  shows "\<exists>i e. (i, p) \<in> set (pl_sent s) \<and> broker_GetResult (pl_broker s) i = Some e \<and>
    (if e = '''' then point_of F p \<in> set (pl_points s) else (i, e) \<in> set (pr_failed (pl_producer s)))"
proof -
  note res = inv_parts(5) [OF inv] and pr = inv_parts(6) [OF inv]
  have ids: "map fst (pl_sent s) = pr_taskIDs (pl_producer s)" and sent: "map snd (pl_sent s) = chunks"
    using pr fin by (auto simp: producer_ok_def)
  obtain i where i: "(i, p) \<in> set (pl_sent s)" using p sent by auto
  then have "i \<in> set (pr_taskIDs (pl_producer s))" using ids by (metis fst_conv image_eqI set_map)
  then obtain e where e: "broker_GetResult (pl_broker s) i = Some e"
    "e \<noteq> '''' \<longrightarrow> (i, e) \<in> set (pr_failed (pl_producer s))" using pr fin unfolding producer_ok_def by fastforce
  have "point_of F p \<in> set (pl_points s)" if ok: "e = ''''"
  proof -
    obtain q where q: "(i, q) \<in> set (pl_sent s)" "point_of F q \<in> set (pl_points s)"
      using res e(1) ok unfolding results_ok_def by blast
    have "distinct (map fst (history (pl_sent s)))" using inv_parts(3) [OF inv] by (simp add: broker.accounted_def)
    then have "distinct (map fst (pl_sent s))" by (simp add: history_def comp_def case_prod_beta)
    then show ?thesis using eq_key_imp_eq_value [OF _ i q(1)] q(2) by simp
  qed
  then show ?thesis using i e by (intro exI [of _ i] exI [of _ e]) simp
qed

text \<open>
  C34. The report of the pipeline can be trusted, failures aside: when the producer prints its last line,
  the number in it is the number of passages of the corpus, and each passage of each article was submitted
  as a task \<open>i\<close> that has a result: either the result is empty and the passage has its point in the
  collection, under the hash of its chunk id and with the vector the embedder gives for its text, or the
  producer has logged the failure of just this task \<open>i\<close>. The collection holds nothing but points of passages.
  This is so whatever was re-enqueued, done twice, or lost on the way.
\<close>

theorem pipeline_reports_indexed:
  assumes "floats_roundtrip F" and "corpus_payloads arts chunkSize = Some chunks"
    and "pipeline_reachable F names chunks s" and "producer_report (pl_producer s) (length arts) = Some line"
  shows "line = ''indexed '' @ Itoa (int (length chunks)) @ '' chunks from '' @ Itoa (int (length arts)) @ '' articles'' \<and>
    (\<forall>art \<in> set arts. \<exists>ps. chunkText (art_Text art) chunkSize = Some ps \<and> (\<forall>k < length ps.
       \<exists>i e.
       (i, \<lparr>tp_DocID = art_ID art, tp_ChunkID = art_ID art @ ''-'' @ Itoa (int k), tp_Title = art_Title art,
            tp_Text = ps ! k\<rparr>) \<in> set (pl_sent s) \<and>
       broker_GetResult (pl_broker s) i = Some e \<and>
       (if e = '''' then
          \<lparr>pt_Collection = ''documents'', pt_Id = chunkIDToUUID (art_ID art @ ''-'' @ Itoa (int k)),
           pt_Vectors = hashProject F (ps ! k),
           pt_Payload = [(''doc_id'', art_ID art), (''title'', art_Title art), (''text'', ps ! k)]\<rparr> \<in> set (pl_points s)
        else (i, e) \<in> set (pr_failed (pl_producer s))))) \<and>
    set (pl_points s) \<subseteq> point_of F ` set chunks"
proof -
  have inv: "pipeline_inv F chunks s" by (rule reachable_pipeline_inv [OF assms(1,3)])
  note res = inv_parts(5) [OF inv] and pr = inv_parts(6) [OF inv]
  have fin: "pr_pending (pl_producer s) = Some []" "\<not> pr_stopped (pl_producer s)"
    and line: "line = ''indexed '' @ Itoa (int (length (pr_taskIDs (pl_producer s)))) @ '' chunks from '' @
      Itoa (int (length arts)) @ '' articles''"
    using assms(4) by (auto simp: producer_report_def split: if_splits)
  have ids: "map fst (pl_sent s) = pr_taskIDs (pl_producer s)" and sent: "map snd (pl_sent s) = chunks"
    using pr fin by (auto simp: producer_ok_def)
  have len: "length (pr_taskIDs (pl_producer s)) = length chunks" using ids sent by (metis length_map)
  have "set (pl_points s) \<subseteq> point_of F ` set chunks"
    using res sent unfolding results_ok_def by (metis set_map)
  moreover have "\<exists>ps. chunkText (art_Text art) chunkSize = Some ps \<and> (\<forall>k < length ps.
       \<exists>i e.
       (i, \<lparr>tp_DocID = art_ID art, tp_ChunkID = art_ID art @ ''-'' @ Itoa (int k), tp_Title = art_Title art,
            tp_Text = ps ! k\<rparr>) \<in> set (pl_sent s) \<and>
       broker_GetResult (pl_broker s) i = Some e \<and>
       (if e = '''' then
          \<lparr>pt_Collection = ''documents'', pt_Id = chunkIDToUUID (art_ID art @ ''-'' @ Itoa (int k)),
           pt_Vectors = hashProject F (ps ! k),
           pt_Payload = [(''doc_id'', art_ID art), (''title'', art_Title art), (''text'', ps ! k)]\<rparr> \<in> set (pl_points s)
        else (i, e) \<in> set (pr_failed (pl_producer s))))"
    if art: "art \<in> set arts" for art
  proof -
    obtain ps where ps: "chunkText (art_Text art) chunkSize = Some ps" "set (number_passages art 0 ps) \<subseteq> set chunks"
      using corpus_passages [OF assms(2) art] by blast
    show ?thesis
    proof (intro exI [of _ ps] conjI ps(1) allI impI)
      fix k assume "k < length ps"
      from chunk_accounted [OF inv fin subsetD [OF ps(2) number_passages_nth [OF this]]]
      show "\<exists>i e.
           (i, \<lparr>tp_DocID = art_ID art, tp_ChunkID = art_ID art @ ''-'' @ Itoa (int k), tp_Title = art_Title art,
                tp_Text = ps ! k\<rparr>) \<in> set (pl_sent s) \<and>
           broker_GetResult (pl_broker s) i = Some e \<and>
           (if e = '''' then
              \<lparr>pt_Collection = ''documents'', pt_Id = chunkIDToUUID (art_ID art @ ''-'' @ Itoa (int k)),
               pt_Vectors = hashProject F (ps ! k),
               pt_Payload = [(''doc_id'', art_ID art), (''title'', art_Title art), (''text'', ps ! k)]\<rparr> \<in> set (pl_points s)
            else (i, e) \<in> set (pr_failed (pl_producer s)))"
        by (simp only: point_of_def upsertVector_def QdrantCollection_def add_0 taskPayload.simps)
    qed
  qed
  ultimately show ?thesis using line len by simp
qed

section \<open>A run\<close>

text \<open>Numbers for the parameters: integers in place of floats.\<close>

definition int_floats :: "(int, int) floats" where
  "int_floats =
     \<lparr>f_zero = 0, f_of_int = id, f_add = (+), f_mul = (*), f_positive = (\<lambda>x. 0 < x), f_inverse_sqrt = (\<lambda>x. 1),
      f_narrow = id, f_mul32 = (*), f_zero32 = 0, f_write = JInt,
      f_read = (\<lambda>j. case j of JInt n \<Rightarrow> Some n | _ \<Rightarrow> None)\<rparr>"

lemma int_floats_roundtrip: "floats_roundtrip int_floats"
  by (simp add: floats_roundtrip_def int_floats_def)

fun pipeline_run :: "('s, 'd) floats \<Rightarrow> 's pipeline \<Rightarrow> pipeline_event list \<Rightarrow> 's pipeline option" where
  "pipeline_run F s [] = Some s"
| "pipeline_run F s (ev # evs) = then_do (pipeline_fire F s ev) (\<lambda>s'. pipeline_run F s' evs)"

lemma pipeline_run_reachable:
  "pipeline_run F s evs = Some s' \<Longrightarrow> pipeline_reachable F names chunks s \<Longrightarrow> pipeline_reachable F names chunks s'"
  by (induction evs arbitrary: s) (auto split: bind_splits intro: pl_next)

text \<open>
  An article of three words in chunks of two. The first task is embedded; the reply of its first
  \<open>Complete\<close> is lost with the call, so it is re-enqueued and done again. The subprocess dies during the
  second.
\<close>

definition demo_article :: article where
  "demo_article = \<lparr>art_ID = ''d'', art_Title = ''t'', art_Text = ''a b c''\<rparr>"

definition demo_chunks :: "taskPayload list" where
  "demo_chunks =
     [\<lparr>tp_DocID = ''d'', tp_ChunkID = ''d-0'', tp_Title = ''t'', tp_Text = ''a b''\<rparr>,
      \<lparr>tp_DocID = ''d'', tp_ChunkID = ''d-1'', tp_Title = ''t'', tp_Text = ''c''\<rparr>]"

lemma demo_payloads: "corpus_payloads [demo_article] 2 = Some demo_chunks"
  by code_simp

definition demo_start :: "int pipeline" where
  "demo_start = pipeline_start (\<lambda>_. ''worker-1'') demo_chunks"

definition demo_events :: "pipeline_event list" where
  "demo_events =
     [PSubmit ''u'', PSubmit ''v'', PWait,
      WPoll 0 True ''x'', WChild 0, WEmbed 0, WUpsert 0 '''' True, WComplete 0 False,
      Pass 11000000000, BTick [''u''],
      WPoll 0 True ''x'', WChild 0, WEmbed 0, WUpsert 0 '''' True, WComplete 0 True, PCheck ''u'',
      WPoll 0 True ''x'', WEmbedFail 0 ''eof'', WComplete 0 True, PCheck ''v'']"

lemmas broker_defs = newBrokerServer_def broker_Submit_def broker_Poll_def poll_pair_def task_pair_def
  broker_Complete_def broker_GetResult_def TaskTimeout_def iteration_order_def

lemmas producer_defs = producer_start_def next_submit_def submit_reply_def submit_failed_def start_waiting_def result_reply_def

lemma demo_answer:
  "worker_embedded int_floats \<lparr>w_workerID = x, w_phase = Embedding i p,
     w_emb = mock_step int_floats (embed_write open_channel \<lparr>er_ChunkID = c, er_Text = t\<rparr>)\<rparr> =
   Some \<lparr>w_workerID = x, w_phase = Upserting i p (hashProject int_floats t), w_emb = open_channel\<rparr>"
  by (simp add: worker_embedded_def mock_step_def embed_write_def embed_read_def open_channel_def
      decode_encode_request decode_encode_response [OF int_floats_roundtrip])

lemma demo_numbers: "Itoa 2 = ''2''" "Itoa 1 = ''1''"
  by code_simp+

lemma demo_end:
  "case pipeline_run int_floats demo_start demo_events of None \<Rightarrow> False
   | Some s \<Rightarrow> producer_report (pl_producer s) 1 = Some ''indexed 2 chunks from 1 articles'' \<and>
       length (pl_points s) = 2 \<and> pr_failed (pl_producer s) = [(''v'', ''eof'')]"
  by (simp add: demo_start_def pipeline_start_def demo_events_def demo_chunks_def demo_answer demo_numbers
      decode_encode_payload worker_start_def worker_polled_def worker_embed_failed_def worker_upsert_def
      worker_upserted_def worker_complete_def worker_completed_def broker_defs producer_defs producer_report_def)

theorem pipeline_reports_indexed_witness:
  "\<exists>s. pipeline_run int_floats demo_start demo_events = Some s \<and> pr_failed (pl_producer s) = [(''v'', ''eof'')] \<and>
     length (pl_points s) = 2 \<and> set (pl_points s) \<subseteq> point_of int_floats ` set demo_chunks"
proof -
  obtain s where s: "pipeline_run int_floats demo_start demo_events = Some s"
    "producer_report (pl_producer s) (length [demo_article]) = Some ''indexed 2 chunks from 1 articles''"
    "length (pl_points s) = 2" "pr_failed (pl_producer s) = [(''v'', ''eof'')]"
    using demo_end by (auto split: option.splits)
  have "pipeline_reachable int_floats (\<lambda>_. ''worker-1'') demo_chunks s"
    by (rule pipeline_run_reachable [OF s(1)]) (simp add: demo_start_def pl_boot)
  from pipeline_reports_indexed [OF int_floats_roundtrip demo_payloads this s(2)] show ?thesis using s by blast
qed

end
