(* ===== verification/PipelineProgress.thy ===== *)
theory PipelineProgress
  imports PipelineTheorems
begin

text \<open>
  The pipeline can always finish: as long as the producer runs and one worker is sound, there is a
  continuation without further failures, in which only that worker acts, that ends with the report of
  the producer. Tasks that other workers took and will never complete come back through the re-enqueuing
  of the broker.
\<close>

section \<open>Runs without further failures\<close>

fun smooth :: "nat \<Rightarrow> pipeline_event \<Rightarrow> bool" where
  "smooth n (PSubmit i) = True"
| "smooth n (PSubmitFail i arrived) = False"
| "smooth n PWait = True"
| "smooth n (PCheck i) = True"
| "smooth n (WPoll k came e) = (k = n \<and> came)"
| "smooth n (WChild k) = (k = n)"
| "smooth n (WEmbed k) = (k = n)"
| "smooth n (WEmbedFail k e) = False"
| "smooth n (WUpsert k e applied) = (k = n \<and> e = '''')"
| "smooth n (WComplete k arrived) = (k = n \<and> arrived)"
| "smooth n (WBeat k) = False"
| "smooth n (BBeat k) = False"
| "smooth n (BTick ids) = True"
| "smooth n (Pass d) = True"

definition leads_to :: "('s, 'd) floats \<Rightarrow> nat \<Rightarrow> 's pipeline \<Rightarrow> 's pipeline \<Rightarrow> bool" where
  "leads_to F n s s' \<longleftrightarrow> (\<exists>evs. pipeline_run F s evs = Some s' \<and> list_all (smooth n) evs)"

lemma leads_refl: "leads_to F n s s"
  unfolding leads_to_def by (intro exI [of _ "[]"]) simp

lemma leads_step:
  assumes "pipeline_fire F s ev = Some s1" and "smooth n ev" and "leads_to F n s1 s'"
  shows "leads_to F n s s'"
proof -
  obtain evs where "pipeline_run F s1 evs = Some s'" "list_all (smooth n) evs"
    using assms(3) by (auto simp: leads_to_def)
  then show ?thesis using assms(1,2) unfolding leads_to_def by (intro exI [of _ "ev # evs"]) simp
qed

lemma pipeline_run_append:
  "pipeline_run F s (a @ b) = then_do (pipeline_run F s a) (\<lambda>s1. pipeline_run F s1 b)"
proof (induction a arbitrary: s)
  case (Cons ev a)
  then show ?case by (cases "pipeline_fire F s ev") simp_all
qed simp

lemma leads_trans:
  assumes "leads_to F n s s1" and "leads_to F n s1 s2"
  shows "leads_to F n s s2"
proof -
  obtain a b where "pipeline_run F s a = Some s1" "list_all (smooth n) a"
    "pipeline_run F s1 b = Some s2" "list_all (smooth n) b"
    using assms by (auto simp: leads_to_def)
  then show ?thesis
    unfolding leads_to_def by (intro exI [of _ "a @ b"]) (simp add: pipeline_run_append)
qed

lemma leads_inv:
  assumes F: "floats_roundtrip F" and "pipeline_inv F chunks s" and "leads_to F n s s'"
  shows "pipeline_inv F chunks s'"
proof -
  have "pipeline_run F s evs = Some s' \<Longrightarrow> pipeline_inv F chunks s \<Longrightarrow> pipeline_inv F chunks s'" for evs
    by (induction evs arbitrary: s) (auto split: bind_splits intro: inv_fire [OF F])
  then show ?thesis using assms(2,3) by (auto simp: leads_to_def)
qed

section \<open>The worker finishes its task\<close>

text \<open>A worker that has not failed; the task it holds.\<close>

fun sound_phase :: "'s phase \<Rightarrow> bool" where
  "sound_phase (Exited e) = False"
| "sound_phase (Finishing i e) = (e = '''')"
| "sound_phase _ = True"

fun held_task :: "'s phase \<Rightarrow> string option" where
  "held_task (Embedding i p) = Some i"
| "held_task (Upserting i p v) = Some i"
| "held_task (Finishing i e) = Some i"
| "held_task _ = None"

definition works_off :: "('s, 'd) floats \<Rightarrow> nat \<Rightarrow> 's pipeline \<Rightarrow> string \<Rightarrow> 's pipeline \<Rightarrow> bool" where
  "works_off F n s i s' \<longleftrightarrow>
     leads_to F n s s' \<and> w_phase (pl_worker s' n) = Polling \<and> pl_producer s' = pl_producer s \<and>
     pl_sent s' = pl_sent s \<and> pl_broker s' = broker_Complete (pl_broker s) i ''''"

lemma works_off_step:
  assumes "pipeline_fire F s ev = Some s1" and "\<exists>s'. works_off F n s1 i s'" and "smooth n ev"
    and "pl_producer s1 = pl_producer s" and "pl_sent s1 = pl_sent s" and "pl_broker s1 = pl_broker s"
  shows "\<exists>s'. works_off F n s i s'"
  using assms leads_step [OF assms(1,3)] unfolding works_off_def by metis

lemma off_finishing:
  assumes "w_phase (pl_worker s n) = Finishing i ''''"
  shows "\<exists>s'. works_off F n s i s'"
proof -
  let ?s' = "(set_worker s n ((pl_worker s n)\<lparr>w_phase := Polling\<rparr>))\<lparr>pl_broker := broker_Complete (pl_broker s) i ''''\<rparr>"
  have "pipeline_fire F s (WComplete n True) = Some ?s'"
    using assms by (simp add: worker_complete_def worker_completed_def)
  then have "leads_to F n s ?s'" by (rule leads_step) (simp_all add: leads_refl)
  then have "works_off F n s i ?s'" by (simp add: works_off_def)
  then show ?thesis by blast
qed

lemma off_upserting:
  assumes "w_phase (pl_worker s n) = Upserting i p v"
  shows "\<exists>s'. works_off F n s i s'"
proof -
  let ?s1 = "(set_worker s n ((pl_worker s n)\<lparr>w_phase := Finishing i ''''\<rparr>))\<lparr>pl_points := pl_points s @ [upsertVector p v]\<rparr>"
  have "pipeline_fire F s (WUpsert n '''' True) = Some ?s1"
    using assms by (simp add: worker_upsert_def worker_upserted_def)
  moreover have "\<exists>s'. works_off F n ?s1 i s'" by (rule off_finishing) simp
  ultimately show ?thesis by (rule works_off_step) simp_all
qed

lemma off_answered:
  assumes F: "floats_roundtrip F" and "w_phase (pl_worker s n) = Embedding i p"
    and "w_emb (pl_worker s n) = \<lparr>to_child = [], from_child = [Some (encode_response F (mock_answer F (request_of p)))]\<rparr>"
  shows "\<exists>s'. works_off F n s i s'"
proof -
  let ?v = "es_Vector (mock_answer F (request_of p))"
  let ?s1 = "set_worker s n ((pl_worker s n)\<lparr>w_emb := \<lparr>to_child = [], from_child = []\<rparr>, w_phase := Upserting i p ?v\<rparr>)"
  have "pipeline_fire F s (WEmbed n) = Some ?s1"
    using assms(2,3) by (simp add: worker_embedded_def embed_read_def decode_encode_response [OF F])
  moreover have "\<exists>s'. works_off F n ?s1 i s'" by (rule off_upserting) simp
  ultimately show ?thesis by (rule works_off_step) simp_all
qed

lemma off_embedding:
  assumes F: "floats_roundtrip F" and ph: "w_phase (pl_worker s n) = Embedding i p"
    and aw: "awaiting F (w_emb (pl_worker s n)) (request_of p)"
  shows "\<exists>s'. works_off F n s i s'"
  using aw unfolding awaiting_def
proof
  assume asked: "w_emb (pl_worker s n) = \<lparr>to_child = [Some (encode_request (request_of p))], from_child = []\<rparr>"
  let ?s1 = "set_worker s n ((pl_worker s n)\<lparr>w_emb := mock_step F (w_emb (pl_worker s n))\<rparr>)"
  have "pipeline_fire F s (WChild n) = Some ?s1" by simp
  moreover have "\<exists>s'. works_off F n ?s1 i s'"
    by (rule off_answered [OF F, where p = p])
      (simp_all add: ph asked mock_step_def decode_encode_request mock_answer_def)
  ultimately show ?thesis by (rule works_off_step) simp_all
qed (rule off_answered [OF F ph])

lemma sound_works_off:
  assumes F: "floats_roundtrip F" and inv: "pipeline_inv F chunks s"
    and ok: "sound_phase (w_phase (pl_worker s n))" and i: "held_task (w_phase (pl_worker s n)) = Some i"
  shows "\<exists>s'. works_off F n s i s'"
proof (cases "w_phase (pl_worker s n)")
  case (Embedding j p)
  then show ?thesis using off_embedding [OF F Embedding] inv_parts(4) [OF inv, of n] i by simp
next
  case (Upserting j p v)
  then show ?thesis using off_upserting [OF Upserting] i by simp
next
  case (Finishing j e)
  then show ?thesis using off_finishing [of s n j] ok i by simp
qed (use ok i in simp_all)

section \<open>All tasks get done\<close>

text \<open>No failure is added: a new result is a success.\<close>

definition no_new_failure :: "'s pipeline \<Rightarrow> 's pipeline \<Rightarrow> bool" where
  "no_new_failure s s' \<longleftrightarrow>
     (\<forall>i e. broker_GetResult (pl_broker s') i = Some e \<longrightarrow> e = '''' \<or> broker_GetResult (pl_broker s) i = Some e)"

lemma no_new_failure_trans: "no_new_failure s s1 \<Longrightarrow> no_new_failure s1 s2 \<Longrightarrow> no_new_failure s s2"
  unfolding no_new_failure_def by blast

lemma complete_no_failure:
  assumes "broker_ok b" and "broker_GetResult (broker_Complete b i '''') j = Some e"
  shows "e = '''' \<or> broker_GetResult b j = Some e"
  using complete_broker(2) [OF assms(1), of i "''''"] assms(2) by (auto split: if_splits)

text \<open>The worker is idle, and the producer is where it was.\<close>

definition idle_again :: "('s, 'd) floats \<Rightarrow> nat \<Rightarrow> 's pipeline \<Rightarrow> 's pipeline \<Rightarrow> bool" where
  "idle_again F n s s' \<longleftrightarrow>
     leads_to F n s s' \<and> w_phase (pl_worker s' n) = Polling \<and> pl_producer s' = pl_producer s \<and>
     pl_sent s' = pl_sent s \<and> no_new_failure s s'"

lemma idle_again_trans: "idle_again F n s s1 \<Longrightarrow> idle_again F n s1 s2 \<Longrightarrow> idle_again F n s s2"
  unfolding idle_again_def using leads_trans no_new_failure_trans by metis

lemma becomes_idle:
  assumes F: "floats_roundtrip F" and inv: "pipeline_inv F chunks s"
    and ok: "sound_phase (w_phase (pl_worker s n))"
  shows "\<exists>s'. idle_again F n s s'"
proof (cases "held_task (w_phase (pl_worker s n))")
  case None
  then have "w_phase (pl_worker s n) = Polling" using ok by (cases "w_phase (pl_worker s n)") simp_all
  then show ?thesis using leads_refl by (auto simp: idle_again_def no_new_failure_def)
next
  case (Some i)
  obtain s' where "works_off F n s i s'" using sound_works_off [OF F inv ok Some] by blast
  then show ?thesis
    using complete_no_failure [OF inv_parts(2) [OF inv], of i] unfolding works_off_def idle_again_def no_new_failure_def
    by metis
qed

text \<open>A pending task: the worker takes it and completes it.\<close>

lemma one_task_done:
  assumes F: "floats_roundtrip F" and inv: "pipeline_inv F chunks s"
    and idle: "w_phase (pl_worker s n) = Polling" and p: "pending (pl_broker s) \<noteq> []"
  shows "\<exists>s'. idle_again F n s s' \<and> size (broker_todo (pl_broker s')) < size (broker_todo (pl_broker s))"
proof -
  let ?b = "pl_broker s" and ?w = "pl_worker s n"
  obtain t ts where t: "pending ?b = t # ts" using p by (cases "pending ?b") auto
  let ?q = "(w_workerID ?w, pl_now s)"
  define b1 where "b1 = fst (poll_pair ?b ?q)"
  have poll: "poll_pair ?b ?q = (b1, Some (t_Id t, t_Payload t))" and fl: "inflight b1 (t_Id t) \<noteq> None"
    using t by (simp_all add: b1_def poll_pair_def broker_Poll_def task_pair_def)
  obtain tp where tp: "(t_Id t, tp) \<in> set (pl_sent s)" "t_Payload t = Some (encode_payload tp)"
    using poll_sent [OF inv, of ?q] poll by auto
  let ?w1 = "worker_polled ?w (Some (t_Id t, t_Payload t)) ''x''"
  let ?s1 = "(set_worker s n ?w1)\<lparr>pl_broker := b1\<rparr>"
  have fire: "pipeline_fire F s (WPoll n True ''x'') = Some ?s1" using idle poll by simp
  have w1: "w_phase ?w1 = Embedding (t_Id t) tp" using tp(2) by (simp add: worker_polled_def decode_encode_payload)
  have inv1: "pipeline_inv F chunks ?s1" using inv_fire [OF F inv fire] .
  obtain s' where s': "works_off F n ?s1 (t_Id t) s'"
    using sound_works_off [OF F inv1, of n "t_Id t"] w1 by auto
  have b: "broker_ok ?b" "broker_ok b1" using inv_parts(2) inv inv1 by fastforce+
  have res: "broker_GetResult b1 = broker_GetResult ?b" "broker_todo b1 = broker_todo ?b"
    unfolding b1_def by (rule broker.poll_result, rule broker.poll_todo [OF b(1)])
  have "no_new_failure s s'"
    using s' complete_no_failure [OF b(2)] res(1) unfolding works_off_def no_new_failure_def by auto
  then have idle': "idle_again F n s s'"
    using s' leads_step [OF fire] unfolding idle_again_def works_off_def by simp
  have "broker_Complete b1 (t_Id t) '''' \<noteq> b1"
  proof
    assume "broker_Complete b1 (t_Id t) '''' = b1"
    then have "inflight (broker_Complete b1 (t_Id t) '''') (t_Id t) = inflight b1 (t_Id t)" by simp
    then show False using fl by (auto simp: broker_Complete_def)
  qed
  then obtain pl where "(t_Id t, pl) \<in># broker_todo b1"
    "broker_todo (broker_Complete b1 (t_Id t) '''') = broker_todo b1 - {#(t_Id t, pl)#}"
    using complete_broker(2) [OF b(2), of "t_Id t" "''''"] by blast
  then have "size (broker_todo (pl_broker s')) < size (broker_todo ?b)"
    using s' res(2) by (simp add: works_off_def size_Diff1_less)
  then show ?thesis using idle' by blast
qed

text \<open>No pending task but one in flight: time passes until the broker takes it back.\<close>

lemma requeue_keeps_pending: "pending b \<noteq> [] \<Longrightarrow> pending (requeue_loop now ids b) \<noteq> []"
  by (induction ids arbitrary: b) (auto split: option.splits)

lemma requeue_takes_back:
  "i \<in> set ids \<Longrightarrow> inflight b i = Some e \<Longrightarrow> TaskTimeout < now - if_lastHeartbeat e \<Longrightarrow>
     pending (requeue_loop now ids b) \<noteq> []"
proof (induction ids arbitrary: b)
  case (Cons j ids)
  show ?case
  proof (cases "j = i")
    case True
    then show ?thesis using Cons.prems(2,3) by (simp add: requeue_keeps_pending)
  next
    case False
    show ?thesis
    proof (cases "inflight b j")
      case None
      then show ?thesis using Cons False by simp
    next
      case (Some e')
      then show ?thesis using Cons False by (auto intro: requeue_keeps_pending)
    qed
  qed
qed simp

lemma stalled_comes_back:
  assumes inv: "pipeline_inv F chunks s" and idle: "w_phase (pl_worker s n) = Polling"
    and none: "pending (pl_broker s) = []" and todo: "broker_todo (pl_broker s) \<noteq> {#}"
  shows "\<exists>s'. idle_again F n s s' \<and> pending (pl_broker s') \<noteq> [] \<and>
    broker_todo (pl_broker s') = broker_todo (pl_broker s)"
proof -
  let ?b = "pl_broker s"
  have ok: "broker_ok ?b" using inv_parts(2) [OF inv] .
  have fin: "finite (dom (inflight ?b))" using broker_okD(2) [OF ok] .
  have "dom (inflight ?b) \<noteq> {}" using todo none by (auto simp: broker_todo_def)
  then obtain i e where e: "inflight ?b i = Some e" by blast
  obtain ids where ids: "set ids = dom (inflight ?b)" "distinct ids"
    using finite_distinct_list [OF fin] by blast
  let ?d = "max 0 (if_lastHeartbeat e + TaskTimeout + 1 - pl_now s)"
  let ?now = "pl_now s + ?d"
  let ?s1 = "s\<lparr>pl_now := ?now\<rparr>"
  let ?s2 = "?s1\<lparr>pl_broker := requeue_loop ?now ids ?b\<rparr>"
  have "pipeline_fire F s (Pass ?d) = Some ?s1" by simp
  moreover have "pipeline_fire F ?s1 (BTick ids) = Some ?s2" using ids by (simp add: iteration_order_def)
  ultimately have ld: "leads_to F n s ?s2"
    by (intro leads_step [of F s "Pass ?d" ?s1] leads_step [of F ?s1 "BTick ids" ?s2]) (simp_all add: leads_refl)
  have late: "TaskTimeout < ?now - if_lastHeartbeat e" by linarith
  have "i \<in> set ids" using e ids(1) by auto
  then have "pending (requeue_loop ?now ids ?b) \<noteq> []" using requeue_takes_back e late by blast
  moreover note requeue_broker [OF ok, of ?now ids]
  ultimately show ?thesis
    using ld idle by (intro exI [of _ ?s2]) (simp add: idle_again_def no_new_failure_def)
qed

lemma all_tasks_done:
  assumes F: "floats_roundtrip F"
  shows "pipeline_inv F chunks s \<Longrightarrow> w_phase (pl_worker s n) = Polling \<Longrightarrow>
    \<exists>s'. idle_again F n s s' \<and> broker_todo (pl_broker s') = {#}"
proof (induction "size (broker_todo (pl_broker s))" arbitrary: s rule: less_induct)
  case less
  show ?case
  proof (cases "broker_todo (pl_broker s) = {#}")
    case True
    then show ?thesis using less.prems(2) leads_refl
      by (intro exI [of _ s]) (simp add: idle_again_def no_new_failure_def leads_refl)
  next
    case False
    obtain s1 where s1: "idle_again F n s s1" "pending (pl_broker s1) \<noteq> []"
      "broker_todo (pl_broker s1) = broker_todo (pl_broker s)"
    proof (cases "pending (pl_broker s) = []")
      case True
      then show ?thesis using stalled_comes_back [OF less.prems True False] that by blast
    next
      case pend: False
      have "idle_again F n s s" using less.prems(2) by (simp add: idle_again_def no_new_failure_def leads_refl)
      then show ?thesis using that pend by blast
    qed
    have inv1: "pipeline_inv F chunks s1" and idle1: "w_phase (pl_worker s1 n) = Polling"
      using s1(1) leads_inv [OF F less.prems(1)] by (auto simp: idle_again_def)
    obtain s2 where s2: "idle_again F n s1 s2"
      "size (broker_todo (pl_broker s2)) < size (broker_todo (pl_broker s))"
      using one_task_done [OF F inv1 idle1 s1(2)] s1(3) by auto
    have "pipeline_inv F chunks s2" "w_phase (pl_worker s2 n) = Polling"
      using s2(1) leads_inv [OF F inv1] by (auto simp: idle_again_def)
    then obtain s' where "idle_again F n s2 s'" "broker_todo (pl_broker s') = {#}"
      using less.hyps [OF s2(2)] by blast
    then show ?thesis using idle_again_trans [OF idle_again_trans [OF s1(1) s2(1)]] by blast
  qed
qed

section \<open>The producer\<close>

text \<open>Uuids do not run out: every remaining chunk can be submitted, and then the producer waits.\<close>

lemma submits_all:
  "\<not> pr_stopped (pl_producer s) \<Longrightarrow> pr_pending (pl_producer s) = None \<Longrightarrow>
    \<exists>s'. leads_to F n s s' \<and> pl_worker s' = pl_worker s \<and> \<not> pr_stopped (pl_producer s') \<and>
      pr_pending (pl_producer s') \<noteq> None \<and> no_new_failure s s'"
proof (induction "pr_chunks (pl_producer s)" arbitrary: s)
  case Nil
  let ?s' = "s\<lparr>pl_producer := start_waiting (pl_producer s)\<rparr>"
  have "pipeline_fire F s PWait = Some ?s'" using Nil by simp
  then have "leads_to F n s ?s'" by (rule leads_step) (simp_all add: leads_refl)
  then show ?case
    using Nil.prems(1) by (intro exI [of _ ?s']) (simp add: start_waiting_def no_new_failure_def)
next
  case (Cons p ps)
  have c: "pr_chunks (pl_producer s) = p # ps" using Cons.hyps(2) by simp
  have "infinite (UNIV :: string set)" by (rule infinite_UNIV_listI)
  then obtain i where i: "i \<notin> fst ` set (pl_sent s)" using ex_new_if_finite by (metis finite_imageI List.finite_set)
  let ?s1 = "s\<lparr>pl_broker := fst (broker_Submit (pl_broker s) i (Some (encode_payload p))),
    pl_producer := submit_reply (pl_producer s) i, pl_sent := pl_sent s @ [(i, p)]\<rparr>"
  have fire: "pipeline_fire F s (PSubmit i) = Some ?s1"
    using Cons.prems i c by (simp add: next_submit_def Let_def)
  have "ps = pr_chunks (pl_producer ?s1)" "\<not> pr_stopped (pl_producer ?s1)" "pr_pending (pl_producer ?s1) = None"
    using Cons.prems c by (simp_all add: submit_reply_def)
  then obtain s' where s': "leads_to F n ?s1 s'" "pl_worker s' = pl_worker ?s1"
    "\<not> pr_stopped (pl_producer s')" "pr_pending (pl_producer s') \<noteq> None" "no_new_failure ?s1 s'"
    using Cons.hyps(1) by blast
  have "no_new_failure s ?s1" by (simp add: no_new_failure_def broker.submit_result)
  then have "no_new_failure s s'" using s'(5) no_new_failure_trans by blast
  then show ?case using s' leads_step [OF fire] by (intro exI [of _ s']) simp
qed

text \<open>It only waits for tasks it submitted.\<close>

lemma pending_submitted:
  "pipeline_reachable F names chunks s \<Longrightarrow> pr_pending (pl_producer s) = Some ids \<Longrightarrow>
     set ids \<subseteq> set (pr_taskIDs (pl_producer s))"
proof (induction arbitrary: ids rule: pipeline_reachable.induct)
  case pl_boot
  then show ?case by (simp add: pipeline_start_def producer_start_def)
next
  case (pl_next s ev s')
  show ?case
  proof (cases "pl_producer s' = pl_producer s")
    case True
    then show ?thesis using pl_next by simp
  next
    case False
    then show ?thesis
      using pl_next.hyps(2) pl_next.prems pl_next.IH
      by (cases ev)
        (auto simp: Let_def submit_failed_def submit_reply_def start_waiting_def result_reply_def poll_pair_def
          split: if_splits list.splits option.splits bind_splits prod.splits, blast+)
  qed
qed

text \<open>When every result is there, one sweep empties \<open>pending\<close>.\<close>

lemma sweep_empties:
  "pr_pending (pl_producer s) = Some ids \<Longrightarrow> \<forall>i \<in> set ids. broker_GetResult (pl_broker s) i \<noteq> None \<Longrightarrow>
    \<not> pr_stopped (pl_producer s) \<Longrightarrow>
    \<exists>s'. leads_to F n s s' \<and> pr_pending (pl_producer s') = Some [] \<and> \<not> pr_stopped (pl_producer s') \<and>
      pl_broker s' = pl_broker s"
proof (induction "length ids" arbitrary: s ids rule: less_induct)
  case less
  show ?case
  proof (cases ids)
    case Nil
    then show ?thesis using less.prems leads_refl by blast
  next
    case (Cons i js)
    obtain e where e: "broker_GetResult (pl_broker s) i = Some e" using less.prems(2) Cons by auto
    let ?s1 = "s\<lparr>pl_producer := result_reply (pl_producer s) i (Some e)\<rparr>"
    have fire: "pipeline_fire F s (PCheck i) = Some ?s1" using less.prems(1) Cons e by simp
    have "length (removeAll i ids) < length ids" using Cons by (simp add: le_imp_less_Suc length_removeAll_less_eq)
    moreover have "pr_pending (pl_producer ?s1) = Some (removeAll i ids)" "\<not> pr_stopped (pl_producer ?s1)"
      using less.prems(1,3) by (simp_all add: result_reply_def Let_def)
    moreover have "\<forall>j \<in> set (removeAll i ids). broker_GetResult (pl_broker ?s1) j \<noteq> None" using less.prems(2) by simp
    ultimately obtain s' where s': "leads_to F n ?s1 s'" "pr_pending (pl_producer s') = Some []"
      "\<not> pr_stopped (pl_producer s')" "pl_broker s' = pl_broker ?s1"
      using less.hyps by blast
    then show ?thesis using leads_step [OF fire] by (intro exI [of _ s']) simp
  qed
qed

section \<open>The property\<close>

lemma waits_for_all:
  assumes "\<not> pr_stopped (pl_producer s)"
  shows "\<exists>s'. leads_to F n s s' \<and> pl_worker s' = pl_worker s \<and> \<not> pr_stopped (pl_producer s') \<and>
      pr_pending (pl_producer s') \<noteq> None \<and> no_new_failure s s'"
proof (cases "pr_pending (pl_producer s) = None")
  case False
  then show ?thesis
    using assms by (intro exI [of _ s]) (simp add: leads_refl no_new_failure_def)
qed (rule submits_all [OF assms])

text \<open>
  C35. The pipeline can always finish: in every reachable state in which the producer has not given up
  and some worker is sound, whatever the other workers took with them, there is a continuation without
  failures, with no other worker acting, that ends with the report; then every chunk has its point in the
  collection, except those whose tasks had already failed.
\<close>

theorem pipeline_can_finish:
  assumes "floats_roundtrip F" and "pipeline_reachable F names chunks s"
    and "\<not> pr_stopped (pl_producer s)" and "sound_phase (w_phase (pl_worker s n))"
  shows "\<exists>evs s'. pipeline_run F s evs = Some s' \<and> list_all (smooth n) evs \<and>
    producer_report (pl_producer s') articles \<noteq> None \<and>
    (\<forall>p \<in> set chunks. point_of F p \<in> set (pl_points s') \<or>
       (\<exists>i e. (i, p) \<in> set (pl_sent s') \<and> e \<noteq> '''' \<and> broker_GetResult (pl_broker s) i = Some e))"
proof -
  note F = assms(1)
  have inv: "pipeline_inv F chunks s" using reachable_pipeline_inv [OF F assms(2)] .
  obtain s1 where s1: "idle_again F n s s1" using becomes_idle [OF F inv assms(4)] by blast
  then have p1: "\<not> pr_stopped (pl_producer s1)" using assms(3) by (simp add: idle_again_def)
  obtain s2 where s2: "leads_to F n s1 s2" "pl_worker s2 = pl_worker s1" "\<not> pr_stopped (pl_producer s2)"
    "pr_pending (pl_producer s2) \<noteq> None" "no_new_failure s1 s2"
    using waits_for_all [OF p1] by blast
  have l2: "leads_to F n s s2" using s1 s2(1) leads_trans by (auto simp: idle_again_def)
  have "w_phase (pl_worker s2 n) = Polling" using s1 s2(2) by (simp add: idle_again_def)
  then obtain s3 where s3: "idle_again F n s2 s3" "broker_todo (pl_broker s3) = {#}"
    using all_tasks_done [OF F leads_inv [OF F inv l2]] by blast
  have l3: "leads_to F n s s3" using l2 s3(1) leads_trans by (auto simp: idle_again_def)
  have inv3: "pipeline_inv F chunks s3" using leads_inv [OF F inv l3] .
  obtain ids where ids: "pr_pending (pl_producer s3) = Some ids" "\<not> pr_stopped (pl_producer s3)"
    using s2(3,4) s3(1) by (auto simp: idle_again_def)
  have "broker_GetResult (pl_broker s3) i \<noteq> None" if i: "i \<in> set ids" for i
  proof -
    obtain evs where "pipeline_run F s evs = Some s3" using l3 by (auto simp: leads_to_def)
    then have "i \<in> set (pr_taskIDs (pl_producer s3))"
      using pending_submitted [OF pipeline_run_reachable [OF _ assms(2)] ids(1)] i by blast
    moreover have "map fst (pl_sent s3) = pr_taskIDs (pl_producer s3)"
      using inv_parts(6) [OF inv3] ids(2) by (simp add: producer_ok_def)
    ultimately have "i \<in> fst ` set (history (pl_sent s3))" by (metis history_ids set_map)
    then obtain x where "x \<in> set (history (pl_sent s3))" "fst x = i" by blast
    moreover have "broker_todo (pl_broker s3) =
        mset (filter (\<lambda>x. broker_GetResult (pl_broker s3) (fst x) = None) (history (pl_sent s3)))"
      using inv_parts(3) [OF inv3] by (simp add: broker.accounted_def)
    then have "filter (\<lambda>x. broker_GetResult (pl_broker s3) (fst x) = None) (history (pl_sent s3)) = []"
      using s3(2) by (metis mset_zero_iff)
    then have "broker_GetResult (pl_broker s3) (fst y) \<noteq> None" if "y \<in> set (history (pl_sent s3))" for y
      using that unfolding filter_empty_conv by blast
    ultimately show ?thesis by blast
  qed
  then obtain s' where s': "leads_to F n s3 s'" "pr_pending (pl_producer s') = Some []"
    "\<not> pr_stopped (pl_producer s')" "pl_broker s' = pl_broker s3"
    using sweep_empties [OF ids(1) _ ids(2)] by blast
  have l: "leads_to F n s s'" using leads_trans [OF l3 s'(1)] .
  have "no_new_failure s s3" using s1 s2(5) s3(1) no_new_failure_trans by (metis idle_again_def)
  then have nf: "no_new_failure s s'" using s'(4) by (simp add: no_new_failure_def)
  have "point_of F p \<in> set (pl_points s') \<or>
      (\<exists>i e. (i, p) \<in> set (pl_sent s') \<and> e \<noteq> '''' \<and> broker_GetResult (pl_broker s) i = Some e)"
    if p: "p \<in> set chunks" for p
    using chunk_accounted [OF leads_inv [OF F inv l] s'(2,3) p] nf unfolding no_new_failure_def
    by (auto split: if_splits)
  moreover have "producer_report (pl_producer s') articles \<noteq> None" using s'(2,3) by (simp add: producer_report_def)
  ultimately show ?thesis using l unfolding leads_to_def by blast
qed

text \<open>The first worker of the run took a task and died in the middle of it: the second takes over.\<close>

definition deserted_events :: "pipeline_event list" where
  "deserted_events = [PSubmit ''u'', WPoll 0 True ''x'', WChild 0]"

theorem pipeline_can_finish_witness:
  "\<exists>s. pipeline_run int_floats demo_start deserted_events = Some s \<and> pl_points s = [] \<and>
     (\<exists>evs s'. pipeline_run int_floats s evs = Some s' \<and> list_all (smooth 1) evs \<and>
        producer_report (pl_producer s') 1 \<noteq> None \<and>
        (\<forall>p \<in> set demo_chunks. point_of int_floats p \<in> set (pl_points s')))"
proof -
  obtain s where s: "pipeline_run int_floats demo_start deserted_events = Some s" "pl_points s = []"
    "\<not> pr_stopped (pl_producer s)" "w_phase (pl_worker s 1) = Polling" "br_done (pl_broker s) = (\<lambda>_. False)"
    by (simp add: demo_start_def pipeline_start_def deserted_events_def demo_chunks_def
        decode_encode_payload worker_start_def worker_polled_def broker_defs producer_defs)
  have "pipeline_reachable int_floats (\<lambda>_. ''worker-1'') demo_chunks s"
    by (rule pipeline_run_reachable [OF s(1)]) (simp add: demo_start_def pl_boot)
  moreover have "broker_GetResult (pl_broker s) i = None" for i using s(5) by (simp add: broker_GetResult_def)
  ultimately show ?thesis
    using pipeline_can_finish [OF int_floats_roundtrip _ s(3), of _ _ 1 1] s(1,2,4)
    by (metis option.distinct(1) sound_phase.simps(3))
qed

end
