(* ===== verification/BrokerTheorems.thy ===== *)
theory BrokerTheorems
  imports Broker "HOL-Library.Sublist"
begin

text \<open>
  The properties of the task broker: no task is lost or duplicated, results are final, and the tasks of
  silent workers come back to the front of the queue.
\<close>

section \<open>Histories\<close>

text \<open>
  Any sequence of calls and ticks, with the clock and the submitted tasks. That an id is new is the
  promise of the package \<open>uuid\<close>.
\<close>

inductive broker_history :: "'p brokerServer \<Rightarrow> int \<Rightarrow> (string \<times> 'p) list \<Rightarrow> bool" where
  hist_start: "broker_history newBrokerServer 0 []"
| hist_wait: "broker_history s now h \<Longrightarrow> 0 \<le> d \<Longrightarrow> broker_history s (now + d) h"
| hist_submit: "broker_history s now h \<Longrightarrow> i \<notin> fst ` set h \<Longrightarrow>
    broker_history (fst (broker_Submit s i p)) now (h @ [(i, p)])"
| hist_poll: "broker_history s now h \<Longrightarrow> broker_history (fst (broker_Poll s w now)) now h"
| hist_complete: "broker_history s now h \<Longrightarrow> broker_history (broker_Complete s i e) now h"
| hist_heartbeat: "broker_history s now h \<Longrightarrow> broker_history (broker_Heartbeat s i now) now h"
| hist_requeue: "broker_history s now h \<Longrightarrow> iteration_order s ids \<Longrightarrow> broker_history (requeue_loop now ids s) now h"

lemma history_run: "broker_history s now h \<Longrightarrow> broker.run s h"
proof (induction rule: broker_history.induct)
  case hist_start
  show ?case by (rule broker.run_start)
next
  case (hist_wait s now h d)
  show ?case by (rule hist_wait.IH)
next
  case (hist_submit s now h i p)
  show ?case by (rule broker.run_submit [OF hist_submit.IH hist_submit.hyps(2)])
next
  case (hist_poll s now h w)
  have eq: "fst (poll_pair s (w, now)) = fst (broker_Poll s w now)" by (simp add: poll_pair_def)
  show ?case using broker.run_poll [OF hist_poll.IH, of "(w, now)"] unfolding eq .
next
  case (hist_complete s now h i e)
  show ?case by (rule broker.run_complete [OF hist_complete.IH])
next
  case (hist_heartbeat s now h i)
  have "broker_internal s (broker_Heartbeat s i now)" unfolding broker_internal_def by blast
  then show ?case by (rule broker.run_internal [OF hist_heartbeat.IH])
next
  case (hist_requeue s now h ids)
  have "broker_internal s (requeue_loop now ids s)" unfolding broker_internal_def using hist_requeue.hyps(2) by blast
  then show ?case by (rule broker.run_internal [OF hist_requeue.IH])
qed

lemma history_ok: "broker_history s now h \<Longrightarrow> broker_ok s"
  and history_accounted: "broker_history s now h \<Longrightarrow> broker.accounted s h"
  using history_run broker.run_accounted by blast+

text \<open>No call changes a result that is there.\<close>

lemma results_stay:
  assumes "broker_history s now h" and "broker_GetResult s i = Some e"
  shows "broker_GetResult (broker_Complete s j e') i = Some e"
    and "broker_GetResult (fst (broker_Submit s j p)) i = Some e"
    and "broker_GetResult (fst (broker_Poll s w now)) i = Some e"
    and "broker_GetResult (broker_Heartbeat s j now) i = Some e"
    and "broker_GetResult (requeue_loop now ids s) i = Some e"
proof -
  note ok = history_ok [OF assms(1)]
  show "broker_GetResult (broker_Complete s j e') i = Some e" by (rule broker.result_final [OF ok assms(2)])
  show "broker_GetResult (fst (broker_Submit s j p)) i = Some e" using assms(2) by (simp add: broker.submit_result)
  show "broker_GetResult (fst (broker_Poll s w now)) i = Some e"
    using assms(2) broker.poll_result [of s "(w, now)"] by (simp add: poll_pair_def)
  show "broker_GetResult (broker_Heartbeat s j now) i = Some e"
    using assms(2) heartbeat_broker [OF ok, of j now] by simp
  show "broker_GetResult (requeue_loop now ids s) i = Some e"
    using assms(2) requeue_broker [OF ok, of now ids] by simp
qed

section \<open>Re-enqueuing\<close>

definition stalled :: "int \<Rightarrow> 'p inFlightEntry \<Rightarrow> bool" where
  "stalled now e \<longleftrightarrow> now - if_lastHeartbeat e > TaskTimeout"

lemma requeue_loop_result:
  "distinct ids \<Longrightarrow>
   inflight (requeue_loop now ids s) i =
     (case inflight s i of None \<Rightarrow> None | Some e \<Rightarrow> if i \<in> set ids \<and> stalled now e then None else Some e) \<and>
   pending (requeue_loop now ids s) =
     rev (map (\<lambda>i. if_task (the (inflight s i)))
       (filter (\<lambda>i. case inflight s i of None \<Rightarrow> False | Some e \<Rightarrow> stalled now e) ids)) @ pending s"
proof (induction ids arbitrary: s)
  case (Cons j ids)
  have j: "j \<notin> set ids" "distinct ids" using Cons.prems by auto
  let ?s = "case inflight s j of None \<Rightarrow> s
      | Some e \<Rightarrow> if now - if_lastHeartbeat e > TaskTimeout
        then s\<lparr>pending := if_task e # pending s, inflight := (inflight s)(j := None)\<rparr> else s"
  have step: "requeue_loop now (j # ids) s = requeue_loop now ids ?s" by simp
  have same: "inflight ?s k = inflight s k" if "k \<noteq> j" for k using that by (auto split: option.splits)
  have fl: "filter (\<lambda>i. case inflight ?s i of None \<Rightarrow> False | Some e \<Rightarrow> stalled now e) ids =
      filter (\<lambda>i. case inflight s i of None \<Rightarrow> False | Some e \<Rightarrow> stalled now e) ids"
  proof (rule filter_cong [OF refl])
    fix x assume "x \<in> set ids"
    then have "x \<noteq> j" using j by auto
    show "(case inflight ?s x of None \<Rightarrow> False | Some e \<Rightarrow> stalled now e) =
        (case inflight s x of None \<Rightarrow> False | Some e \<Rightarrow> stalled now e)" unfolding same [OF \<open>x \<noteq> j\<close>] ..
  qed
  have mp: "map (\<lambda>i. if_task (the (inflight ?s i))) (filter P ids) = map (\<lambda>i. if_task (the (inflight s i))) (filter P ids)" for P
  proof (rule map_cong [OF refl])
    fix x assume "x \<in> set (filter P ids)"
    then have "x \<noteq> j" using j by auto
    show "if_task (the (inflight ?s x)) = if_task (the (inflight s x))" unfolding same [OF \<open>x \<noteq> j\<close>] ..
  qed
  note IH = Cons.IH [OF j(2), of ?s, unfolded fl mp]
  show ?case unfolding step
    using IH same [of i] j by (cases "i = j") (auto simp: stalled_def split: option.splits)
qed (auto split: option.splits)

section \<open>Properties\<close>

text \<open>
  C33. The broker loses and duplicates nothing: after any sequence of calls, heartbeats and timeouts the
  submitted tasks are exactly those still held (in the queue or with a worker, each once) and those with
  a result; no id is in two places.
\<close>

theorem broker_conserves_tasks:
  assumes "broker_history s now h"
  shows "mset h = mset (map task_pair (pending s)) +
      image_mset (\<lambda>i. task_pair (if_task (the (inflight s i)))) (mset_set (dom (inflight s))) +
      mset (filter (\<lambda>x. broker_GetResult s (fst x) \<noteq> None) h) \<and>
    distinct (map fst h) \<and> distinct (map t_Id (pending s)) \<and>
    (\<forall>t \<in> set (pending s). inflight s (t_Id t) = None \<and> broker_GetResult s (t_Id t) = None) \<and>
    (\<forall>i. inflight s i \<noteq> None \<longrightarrow> broker_GetResult s i = None)"
proof -
  have acc: "distinct (map fst h)" "broker_todo s = mset (filter (\<lambda>x. broker_GetResult s (fst x) = None) h)"
    using history_accounted [OF assms] unfolding broker.accounted_def by auto
  note D = broker_okD [OF history_ok [OF assms]]
  have "mset h = mset (filter (\<lambda>x. broker_GetResult s (fst x) = None) h) +
      mset (filter (\<lambda>x. broker_GetResult s (fst x) \<noteq> None) h)"
    by (simp add: multiset_partition)
  moreover have "\<forall>i. inflight s i \<noteq> None \<longrightarrow> broker_GetResult s i = None"
  proof (intro allI impI)
    fix i assume "inflight s i \<noteq> None"
    then obtain e where "inflight s i = Some e" by blast
    then show "broker_GetResult s i = None" using D(6) by (simp add: broker_GetResult_def)
  qed
  moreover have "\<forall>t \<in> set (pending s). inflight s (t_Id t) = None \<and> broker_GetResult s (t_Id t) = None"
    using D(4,5) by (simp add: broker_GetResult_def)
  ultimately show ?thesis using acc D(1) unfolding broker_todo_def by simp
qed

text \<open>
  The tasks of silent workers come back: a tick of the re-enqueuing loop, in whatever order it visits
  the map, puts exactly the tasks whose last heartbeat is older than the timeout in front of the queue,
  keeps the rest of the queue, leaves every other task with its worker, and the next \<open>Poll\<close> hands one of
  them out.
\<close>

theorem stalled_tasks_return:
  assumes "broker_history s now h" and "iteration_order s ids"
  shows "(\<forall>i e. inflight s i = Some e \<longrightarrow>
      inflight (requeue_loop now ids s) i = (if now - if_lastHeartbeat e > TaskTimeout then None else Some e)) \<and>
    (\<exists>front. pending (requeue_loop now ids s) = front @ pending s \<and>
       set front = {if_task e |i e. inflight s i = Some e \<and> now - if_lastHeartbeat e > TaskTimeout} \<and>
       (front \<noteq> [] \<longrightarrow> snd (broker_Poll (requeue_loop now ids s) w now) = Some (hd front)))"
proof -
  have d: "distinct ids" and ids: "set ids = dom (inflight s)" using assms(2) by (auto simp: iteration_order_def)
  note r = requeue_loop_result [OF d, of now s]
  let ?front = "rev (map (\<lambda>i. if_task (the (inflight s i)))
       (filter (\<lambda>i. case inflight s i of None \<Rightarrow> False | Some e \<Rightarrow> stalled now e) ids))"
  have fl: "\<forall>i e. inflight s i = Some e \<longrightarrow>
      inflight (requeue_loop now ids s) i = (if now - if_lastHeartbeat e > TaskTimeout then None else Some e)"
    using r ids by (auto simp: stalled_def)
  have "set ?front = {if_task e |i e. inflight s i = Some e \<and> now - if_lastHeartbeat e > TaskTimeout}"
    using ids by (force simp: stalled_def image_iff split: option.splits)
  moreover have p: "pending (requeue_loop now ids s) = ?front @ pending s" using r by blast
  moreover have "snd (broker_Poll (requeue_loop now ids s) w now) = Some (hd ?front)" if "?front \<noteq> []"
    unfolding broker_Poll_def p using that by (cases ?front) auto
  ultimately show ?thesis using fl by blast
qed

section \<open>Witnesses\<close>

text \<open>Two tasks, one polled at time 0 and silent for eleven seconds.\<close>

definition two_tasks :: "string brokerServer" where
  "two_tasks = fst (broker_Poll (fst (broker_Submit (fst (broker_Submit newBrokerServer ''t1'' ''p'')) ''t2'' ''q'')) ''w'' 0)"

lemma two_tasks_history: "broker_history two_tasks 11000000000 [(''t1'', ''p''), (''t2'', ''q'')]"
proof -
  have "broker_history (fst (broker_Submit newBrokerServer ''t1'' ''p'')) 0 ([] @ [(''t1'', ''p'')])"
    by (intro hist_submit hist_start) simp
  then have "broker_history (fst (broker_Submit (fst (broker_Submit newBrokerServer ''t1'' ''p'')) ''t2'' ''q'')) 0
      ([(''t1'', ''p'')] @ [(''t2'', ''q'')])" by (intro hist_submit) auto
  then have "broker_history two_tasks (0 + 11000000000) [(''t1'', ''p''), (''t2'', ''q'')]"
    unfolding two_tasks_def by (intro hist_wait hist_poll) auto
  then show ?thesis by simp
qed

theorem broker_conserves_tasks_witness:
  "mset [(''t1'', ''p''), (''t2'', ''q'')] = mset (map task_pair (pending two_tasks)) +
     image_mset (\<lambda>i. task_pair (if_task (the (inflight two_tasks i)))) (mset_set (dom (inflight two_tasks))) \<and>
   map t_Id (pending two_tasks) = [''t2'']"
proof -
  have r: "broker_GetResult two_tasks ''t1'' = None" "broker_GetResult two_tasks ''t2'' = None"
    "map t_Id (pending two_tasks) = [''t2'']" by code_simp+
  show ?thesis using broker_conserves_tasks [OF two_tasks_history] r by simp
qed

theorem stalled_tasks_return_witness:
  "inflight (requeue_loop 11000000000 [''t1''] two_tasks) ''t1'' = None \<and> inflight two_tasks ''t1'' \<noteq> None"
proof -
  have i: "inflight two_tasks = [''t1'' \<mapsto>
      \<lparr>if_task = \<lparr>t_Id = ''t1'', t_Payload = ''p''\<rparr>, if_workerID = ''w'', if_lastHeartbeat = 0\<rparr>]"
    by (simp add: two_tasks_def broker_Poll_def broker_Submit_def newBrokerServer_def)
  then have "iteration_order two_tasks [''t1'']" by (simp add: iteration_order_def)
  from stalled_tasks_return [OF two_tasks_history this] show ?thesis using i by (simp add: TaskTimeout_def)
qed

end
