(* ===== verification/PipelineStart.thy ===== *)
theory PipelineStart
  imports PipelineTheorems BrokerTheorems GoFlag
begin

text \<open>
  How the programs of \<open>hw4\<close> start (\<open>main\<close> and the beginning of \<open>run\<close> in \<open>broker/main.go\<close>,
  \<open>producer/main.go\<close> and \<open>worker/main.go\<close>), and what that means for the pipeline: its initial state, the
  collection the points go to, and whether a task can time out under a live worker.
\<close>

section \<open>The world\<close>

text \<open>
  Files, connections and subprocesses are the operating system's; the vector database, with states
  \<open>'q\<close>, answers whether a collection exists and may create one with a vector size. \<open>None\<close> is an error,
  except that of \<open>h_spawn\<close>, which is the error of the pipes or of the start, if any. An opened corpus
  is the stream of JSON values of the unpacked file; \<open>None\<close> in it is text that is not JSON.
\<close>

record ('f, 'q) hw4_world =
  h_open :: "string \<Rightarrow> 'f option"
  h_gunzip :: "'f \<Rightarrow> json option list option"
  h_dial :: "string \<Rightarrow> bool"
  h_listen :: "string \<Rightarrow> bool"
  h_spawn :: "string \<times> string list \<Rightarrow> string option"
  q_get :: "'q \<Rightarrow> string \<Rightarrow> bool"
  q_create :: "'q \<Rightarrow> string \<Rightarrow> int \<Rightarrow> 'q option"

text \<open>
  A program that does not start: the \<open>flag\<close> package ends it, or it logs an error and exits with status 1.
\<close>

datatype exit_reason = FlagExit flag_error | Fatal string

definition with_parsed :: "flags \<Rightarrow> (flags \<Rightarrow> string list \<Rightarrow> string + 'a) \<Rightarrow> string list \<Rightarrow> exit_reason + 'a" where
  "with_parsed defs prog args =
     (case flag_parse defs args of
        Inl e \<Rightarrow> Inl (FlagExit e)
      | Inr (fs, rest) \<Rightarrow> (case prog fs rest of Inl e \<Rightarrow> Inl (Fatal e) | Inr x \<Rightarrow> Inr x))"

lemma with_parsed_Inr: "with_parsed defs prog args = Inr x \<Longrightarrow> \<exists>fs rest. prog fs rest = Inr x"
  unfolding with_parsed_def by (auto split: sum.splits prod.splits)

section \<open>The broker\<close>

definition broker_main :: "('f, 'q) hw4_world \<Rightarrow> int \<Rightarrow> string + 'p brokerServer" where
  "broker_main w port = (if \<not> h_listen w ('':'' @ Itoa port) then Inl ''listen'' else Inr newBrokerServer)"

definition broker_program :: "('f, 'q) hw4_world \<Rightarrow> string list \<Rightarrow> exit_reason + 'p brokerServer" where
  "broker_program w args =
     with_parsed [(''port'', FInt 9000)] (\<lambda>fs rest. broker_main w (int_flag fs ''port'')) args"

section \<open>The producer\<close>

definition decode_article :: "json \<Rightarrow> article option" where
  "decode_article j =
     then_do (fields_of j) (\<lambda>kvs. then_do (str_field ''id'' kvs) (\<lambda>i. then_do (str_field ''title'' kvs) (\<lambda>t.
       map_option (\<lambda>x. \<lparr>art_ID = i, art_Title = t, art_Text = x\<rparr>) (str_field ''text'' kvs))))"

text \<open>The decoding loop ends at the first value that is not an article, as at the end of the file.\<close>

fun read_corpus :: "json option list \<Rightarrow> article list" where
  "read_corpus [] = []"
| "read_corpus (line # lines) =
     (case then_do line decode_article of None \<Rightarrow> [] | Some art \<Rightarrow> art # read_corpus lines)"

text \<open>
  \<open>Inl\<close> is the error \<open>run\<close> returns; otherwise the number of articles and the producer with the chunks it
  will submit. \<open>None\<close>: chunking does not return.
\<close>

definition producer_run ::
  "('f, 'q) hw4_world \<Rightarrow> string \<Rightarrow> string \<Rightarrow> int \<Rightarrow> (string + (nat \<times> producer)) option" where
  "producer_run w corpusPath brokerAddr chunkSize =
     (case h_open w corpusPath of
        None \<Rightarrow> Some (Inl ''open corpus'')
      | Some f \<Rightarrow>
          (case h_gunzip w f of
             None \<Rightarrow> Some (Inl ''gzip reader'')
           | Some lines \<Rightarrow>
               if \<not> h_dial w brokerAddr then Some (Inl ''dial broker'')
               else map_option (\<lambda>ps. Inr (length (read_corpus lines), producer_start ps))
                 (corpus_payloads (read_corpus lines) chunkSize)))"

definition producer_flags :: flags where
  "producer_flags =
     [(''corpus'', FString ''corpus/wiki.jsonl.gz''), (''broker'', FString ''localhost:9000''), (''chunk-size'', FInt 200)]"

text \<open>The outer option, as in \<open>producer_run\<close>, is that of chunking.\<close>

definition producer_program ::
  "('f, 'q) hw4_world \<Rightarrow> string list \<Rightarrow> (exit_reason + (nat \<times> producer)) option" where
  "producer_program w args =
     (case flag_parse producer_flags args of
        Inl e \<Rightarrow> Some (Inl (FlagExit e))
      | Inr (fs, rest) \<Rightarrow>
          map_option (map_sum Fatal id)
            (producer_run w (string_flag fs ''corpus'') (string_flag fs ''broker'') (int_flag fs ''chunk-size'')))"

text \<open>
  A chunk size of 0 on the command line: from the first article with a word on, the producer chunks for
  ever.
\<close>

lemma chunk_size_zero_hangs:
  assumes "h_open w ''corpus/wiki.jsonl.gz'' = Some f" and "h_gunzip w f = Some lines"
    and "h_dial w ''localhost:9000''" and "read_corpus lines = art # arts"
    and "FieldsFunc unicode_space (art_Text art) \<noteq> []"
  shows "producer_program w [''-chunk-size'', ''0''] = None"
proof -
  have "case flag_parse producer_flags [''-chunk-size'', ''0''] of
      Inl e \<Rightarrow> False
    | Inr (fs, rest) \<Rightarrow> string_flag fs ''corpus'' = ''corpus/wiki.jsonl.gz'' \<and>
        string_flag fs ''broker'' = ''localhost:9000'' \<and> int_flag fs ''chunk-size'' = 0" by code_simp
  then show ?thesis
    using assms chunkText_zero [OF assms(5)]
    by (auto simp: producer_program_def producer_run_def split: sum.splits)
qed

section \<open>The worker\<close>

text \<open>\<open>startEmbedder\<close> as a whole: the two pipes and the process.\<close>

definition start_process :: "('f, 'q) hw4_world \<Rightarrow> string \<Rightarrow> string + channel" where
  "start_process w cmdStr =
     (case startEmbedder cmdStr of
        None \<Rightarrow> Inl ''empty embedder command''
      | Some cmd \<Rightarrow> (case h_spawn w cmd of Some e \<Rightarrow> Inl e | None \<Rightarrow> Inr open_channel))"

text \<open>\<open>Get\<close> and, when it failed, \<open>Create\<close>; other workers may run in between.\<close>

definition create_collection :: "('f, 'q) hw4_world \<Rightarrow> bool \<Rightarrow> 'q \<Rightarrow> 'q option" where
  "create_collection w exists q = (if exists then Some q else q_create w q QdrantCollection VectorDim)"

definition ensure_collection :: "('f, 'q) hw4_world \<Rightarrow> 'q \<Rightarrow> 'q option" where
  "ensure_collection w q = create_collection w (q_get w q QdrantCollection) q"

definition worker_run ::
  "('f, 'q) hw4_world \<Rightarrow> 'q \<Rightarrow> int \<Rightarrow> string \<Rightarrow> string \<Rightarrow> string \<Rightarrow> string + ('q \<times> 's worker)" where
  "worker_run w q pid brokerAddr qdrantAddr embedderCmd =
     (if \<not> h_dial w brokerAddr then Inl ''dial broker''
      else if \<not> h_dial w qdrantAddr then Inl ''dial qdrant''
      else case ensure_collection w q of
        None \<Rightarrow> Inl ''create qdrant collection''
      | Some q' \<Rightarrow>
          (case start_process w embedderCmd of
             Inl e \<Rightarrow> Inl (''start embedder: '' @ e)
           | Inr ch \<Rightarrow> Inr (q', (worker_start (''worker-'' @ Itoa pid))\<lparr>w_emb := ch\<rparr>)))"

definition worker_main ::
  "('f, 'q) hw4_world \<Rightarrow> 'q \<Rightarrow> int \<Rightarrow> string \<Rightarrow> string \<Rightarrow> string \<Rightarrow> string + ('q \<times> 's worker)" where
  "worker_main w q pid brokerAddr qdrantAddr embedderCmd =
     (if embedderCmd = '''' then Inl ''--embedder is required''
      else worker_run w q pid brokerAddr qdrantAddr embedderCmd)"

definition worker_flags :: flags where
  "worker_flags =
     [(''broker'', FString ''localhost:9000''), (''qdrant'', FString ''localhost:6334''), (''embedder'', FString '''')]"

definition worker_program ::
  "('f, 'q) hw4_world \<Rightarrow> 'q \<Rightarrow> int \<Rightarrow> string list \<Rightarrow> exit_reason + ('q \<times> 's worker)" where
  "worker_program w q pid args =
     with_parsed worker_flags
       (\<lambda>fs rest. worker_main w q pid (string_flag fs ''broker'') (string_flag fs ''qdrant'') (string_flag fs ''embedder''))
       args"

lemma worker_main_starts:
  "worker_main w q pid ba qa cmd = Inr (q', wk) \<Longrightarrow>
     wk = worker_start (''worker-'' @ Itoa pid) \<and> ensure_collection w q = Some q'"
  by (auto simp: worker_main_def worker_run_def start_process_def worker_start_def
      split: if_splits option.splits sum.splits)

lemma worker_program_starts:
  "worker_program w q pid args = Inr (q', wk) \<Longrightarrow>
     wk = worker_start (''worker-'' @ Itoa pid) \<and> ensure_collection w q = Some q'"
  unfolding worker_program_def by (drule with_parsed_Inr) (auto dest: worker_main_starts)

section \<open>The query tool\<close>

definition query_flags :: flags where
  "query_flags =
     [(''qdrant'', FString ''localhost:6334''), (''embedder'', FString ''python3 tools/embedder/embedder.py''),
      (''top'', FInt 5)]"

text \<open>The tool always ends with an error; the words after the flags are the query.\<close>

definition query_program ::
  "('s, 'd) floats \<Rightarrow> (string \<times> string list \<Rightarrow> json \<Rightarrow> channel option) \<Rightarrow> (string \<Rightarrow> bool) \<Rightarrow> string list \<Rightarrow> exit_reason"
  where
  "query_program F spawn dial args =
     (case flag_parse query_flags args of
        Inl e \<Rightarrow> FlagExit e
      | Inr (fs, rest) \<Rightarrow>
          Fatal (query_main F spawn rest (string_flag fs ''embedder'') (dial (string_flag fs ''qdrant''))))"

section \<open>The pipeline that has started\<close>

definition assembled :: "json option brokerServer \<Rightarrow> (nat \<Rightarrow> 's worker) \<Rightarrow> producer \<Rightarrow> 's pipeline" where
  "assembled b ws pr =
     \<lparr>pl_broker = b, pl_worker = ws, pl_points = [], pl_producer = pr, pl_sent = [], pl_beats = [], pl_now = 0\<rparr>"

lemma map_sum_Inr: "map_sum f id x = Inr y \<longleftrightarrow> x = Inr y"
  by (cases x) auto

lemma assembled_start:
  assumes "broker_program w bargs = Inr b" and "producer_program w pargs = Some (Inr (n, pr))"
    and "\<And>k. \<exists>w q q' args. worker_program w q (pids k) args = Inr (q', ws k)"
  shows "\<exists>lines m chunks. corpus_payloads (read_corpus lines) m = Some chunks \<and> n = length (read_corpus lines) \<and>
    assembled b ws pr = pipeline_start (\<lambda>k. ''worker-'' @ Itoa (pids k)) chunks"
proof -
  obtain corpus ba m where "producer_run w corpus ba m = Some (Inr (n, pr))"
    using assms(2) by (auto simp: producer_program_def map_sum_Inr split: sum.splits)
  then obtain lines chunks where l: "corpus_payloads (read_corpus lines) m = Some chunks" "n = length (read_corpus lines)"
    "pr = producer_start chunks"
    by (auto simp: producer_run_def split: option.splits if_splits)
  have "ws k = worker_start (''worker-'' @ Itoa (pids k))" for k
    using assms(3) [of k] by (auto dest: worker_program_starts)
  then have "ws = (\<lambda>k. worker_start (''worker-'' @ Itoa (pids k)))" by blast
  moreover obtain port where "broker_main w port = Inr b"
    using with_parsed_Inr [OF assms(1) [unfolded broker_program_def]] by blast
  then have "b = newBrokerServer" by (simp add: broker_main_def split: if_splits)
  ultimately show ?thesis using l by (auto simp: assembled_def pipeline_start_def)
qed

section \<open>The collection\<close>

text \<open>
  A database has the collections \<open>dim\<close> tells, with their vector sizes: \<open>Get\<close> succeeds only for one that
  exists, \<open>Create\<close> makes one of the given size, and fails if there is one.
\<close>

definition collections_law :: "('f, 'q) hw4_world \<Rightarrow> ('q \<Rightarrow> string \<Rightarrow> int option) \<Rightarrow> bool" where
  "collections_law w dim \<longleftrightarrow>
     (\<forall>q c. q_get w q c \<longrightarrow> dim q c \<noteq> None) \<and>
     (\<forall>q c n q'. q_create w q c n = Some q' \<longrightarrow> dim q c = None \<and> dim q' c = Some n)"

text \<open>
  C36. The points fit the collection: when a worker has found no collection at its start and has made
  one, every point that any worker writes into the collection, in any run of the pipeline, goes to that
  collection and has exactly the dimension it was created with.
\<close>

theorem points_fit_collection:
  assumes "collections_law w dim" and "dim q QdrantCollection = None"
    and "worker_program w q pid args = Inr (q', wk)"
    and "floats_roundtrip F" and "pipeline_reachable F names chunks s" and "pt \<in> set (pl_points s)"
  shows "dim q' (pt_Collection pt) = Some (int (length (pt_Vectors pt)))"
proof -
  have "\<not> q_get w q QdrantCollection" using assms(1,2) unfolding collections_law_def by blast
  then have "q_create w q QdrantCollection VectorDim = Some q'"
    using worker_program_starts [OF assms(3)] by (simp add: ensure_collection_def create_collection_def)
  then have dim: "dim q' QdrantCollection = Some VectorDim"
    using assms(1) unfolding collections_law_def by blast
  have "results_ok F s" using inv_parts(5) [OF reachable_pipeline_inv [OF assms(4,5)]] .
  then obtain p where "pt = point_of F p" using assms(6) unfolding results_ok_def by blast
  then have "pt_Collection pt = QdrantCollection" "length (pt_Vectors pt) = vectorDim"
    by (simp_all add: point_of_def upsertVector_def hashProject_dim)
  then show ?thesis using dim by (simp add: VectorDim_def vectorDim_def)
qed

text \<open>A database as a map from names to sizes.\<close>

definition demo_world :: "(unit, string \<rightharpoonup> int) hw4_world" where
  "demo_world =
     \<lparr>h_open = (\<lambda>_. Some ()), h_gunzip = (\<lambda>_. Some []), h_dial = (\<lambda>_. True), h_listen = (\<lambda>_. True),
      h_spawn = (\<lambda>_. None), q_get = (\<lambda>q c. q c \<noteq> None),
      q_create = (\<lambda>q c n. if q c = None then Some (q(c \<mapsto> n)) else None)\<rparr>"

lemma demo_law: "collections_law demo_world (\<lambda>q. q)"
  by (simp add: collections_law_def demo_world_def)

definition demo_args :: "string list" where
  "demo_args = [''--qdrant'', ''db:6334'', ''-embedder=embed'']"

definition demo_worker :: "exit_reason + ((string \<rightharpoonup> int) \<times> int worker)" where
  "demo_worker = worker_program demo_world Map.empty 7 demo_args"

lemma demo_worker_starts: "\<exists>q wk. demo_worker = Inr (q, wk)"
proof -
  have p: "case flag_parse worker_flags demo_args of
      Inl e \<Rightarrow> False | Inr (fs, rest) \<Rightarrow> string_flag fs ''embedder'' = ''embed''" by code_simp
  have "startEmbedder ''embed'' = Some (''embed'', [])" by code_simp
  then show ?thesis
    using p by (auto simp: demo_worker_def worker_program_def with_parsed_def worker_main_def worker_run_def
        start_process_def ensure_collection_def create_collection_def demo_world_def split: sum.splits prod.splits)
qed

theorem points_fit_collection_witness:
  "\<exists>q wk s. demo_worker = Inr (q, wk) \<and> pipeline_run int_floats demo_start demo_events = Some s \<and>
     pl_points s \<noteq> [] \<and> (\<forall>pt \<in> set (pl_points s). q (pt_Collection pt) = Some (int (length (pt_Vectors pt))))"
proof -
  obtain s where s: "pipeline_run int_floats demo_start demo_events = Some s" "length (pl_points s) = 2"
    using demo_end by (auto split: option.splits)
  have re: "pipeline_reachable int_floats (\<lambda>_. ''worker-1'') demo_chunks s"
    by (rule pipeline_run_reachable [OF s(1)]) (simp add: demo_start_def pl_boot)
  obtain q wk where w: "demo_worker = Inr (q, wk)" using demo_worker_starts by blast
  have "q (pt_Collection pt) = Some (int (length (pt_Vectors pt)))" if "pt \<in> set (pl_points s)" for pt
    using points_fit_collection [OF demo_law _ w [unfolded demo_worker_def] int_floats_roundtrip re that] by simp
  moreover have "pl_points s \<noteq> []" using s(2) by auto
  ultimately show ?thesis using w s(1) by blast
qed

text \<open>
  Two workers that start together may both find no collection; the second one's \<open>Create\<close> then fails, and
  the worker ends with an error although the collection it needs is there.
\<close>

lemma creation_race:
  assumes "collections_law w dim" and "create_collection w False q = Some q1"
  shows "create_collection w False q1 = None \<and> dim q1 QdrantCollection = Some VectorDim"
proof -
  have "dim q1 QdrantCollection = Some VectorDim"
    using assms unfolding collections_law_def create_collection_def by auto
  then show ?thesis
    using assms(1) unfolding collections_law_def create_collection_def
    by (cases "q_create w q1 QdrantCollection VectorDim") auto
qed

section \<open>Heartbeats and the timeout\<close>

text \<open>
  A worker that beats every \<open>HeartbeatInterval\<close> keeps its task, even if two heartbeats in a row are
  lost.
\<close>

lemma beating_keeps_task:
  assumes "iteration_order b ids" and "inflight b i = Some e"
    and "now - if_lastHeartbeat e \<le> 3 * w_HeartbeatInterval"
  shows "inflight (requeue_loop now ids b) i = Some e"
proof -
  have "\<not> stalled now e" using assms(3) by (simp add: stalled_def w_HeartbeatInterval_def TaskTimeout_def)
  then show ?thesis
    using requeue_loop_result [of ids now b i] assms(1,2) by (simp add: iteration_order_def)
qed

text \<open>A silent worker loses its task at the latest at the first tick after the timeout.\<close>

lemma silence_loses_task:
  assumes "iteration_order b ids" and "inflight b i = Some e"
    and "TaskTimeout + CheckInterval \<le> now - if_lastHeartbeat e"
  shows "inflight (requeue_loop now ids b) i = None"
proof -
  have "stalled now e" using assms(3) by (simp add: stalled_def CheckInterval_def)
  then show ?thesis
    using requeue_loop_result [of ids now b i] assms(1,2) by (simp add: iteration_order_def domI)
qed

section \<open>The delay of the mock embedder\<close>

text \<open>
  \<open>time.Duration(*delayMs) * time.Millisecond\<close> in 64 bits, and the pause before an answer: none if it
  is not positive.
\<close>

definition mock_delay :: "int \<Rightarrow> int" where
  "mock_delay delayMs = sint ((word_of_int delayMs :: 64 word) * 1000000)"

definition mock_pause :: "int \<Rightarrow> int" where
  "mock_pause delayMs = (if mock_delay delayMs > 0 then mock_delay delayMs else 0)"

definition mock_program :: "string list \<Rightarrow> flag_error + int" where
  "mock_program args =
     map_sum id (\<lambda>(fs, rest). mock_pause (int_flag fs ''delay'')) (flag_parse [(''delay'', FInt 0)] args)"

lemma mock_delay_small:
  assumes "0 \<le> ms" and "ms \<le> 9223372036854"
  shows "mock_delay ms = ms * 1000000"
proof -
  have eq: "(word_of_int ms :: 64 word) * 1000000 = word_of_int (ms * 1000000)" by simp
  have "sint (word_of_int x :: 64 word) = signed_take_bit 63 x" for x by transfer simp
  then have "mock_delay ms = signed_take_bit 63 (ms * 1000000)" unfolding mock_delay_def eq .
  also have "\<dots> = ms * 1000000" using assms by (intro signed_take_bit_int_eq_self) auto
  finally show ?thesis .
qed

end
