(* ===== verification/Spec2Isabelle.thy ===== *)
theory Spec2Isabelle
  imports RaftTheorems RaftProgress KvSession PbSession PbProgress ServerStart GameLines GameAgreement
    PipelineProgress PipelineStart
begin

text \<open>
  The verification library of a repository of four Go programs, the assignments of a course on
  distributed systems: \<open>hw1\<close>, the board game Connect-M with a server, a client and a terminal version;
  \<open>hw2\<close>, a key-value store replicated by a primary to its backups, ordered by Lamport clocks; \<open>hw3\<close>, the
  same store on top of Raft; \<open>hw4\<close>, a pipeline that cuts a corpus into passages and has workers embed
  them. The definitions are translated from the source and keep its names; a prefix tells apart what two
  programs call the same (\<open>pb_\<close> and \<open>ts_\<close> for \<open>hw2\<close>, \<open>store_\<close> for the store of \<open>hw3\<close>, \<open>broker_\<close>).

  \<^bold>\<open>Conventions.\<close> A struct is a record, an enumeration a datatype. A function that may panic returns an
  option, and \<open>None\<close> is the panic; every index into a slice is checked (\<open>slice_get\<close>, \<open>slice_set\<close>). Errors
  are the left values of a sum. Integers are mathematical, as terms, indices, timestamps and columns only
  count; the hashes, which wrap, are machine words. What runs under one lock is one step; a function is cut
  where it releases a lock, at an RPC or a wait, and the pieces of all nodes and calls interleave freely
  (where two critical sections are one step, the text beside the definition says why nothing can tell).
  Messages can be delayed for ever and calls can fail before or after they took effect.

  \<^bold>\<open>Shared.\<close> \<open>Prelude\<close>: panics, slices, lists. \<open>GoText\<close>: the string and number functions of the standard
  library the programs use, with the round trip of \<open>Atoi\<close> and \<open>Itoa\<close>. \<open>GoFlag\<close>: command lines as the
  package \<open>flag\<close> parses them. \<open>Json\<close>: JSON values and decoding into structs as \<open>encoding/json\<close> does it.
  \<open>JsonText\<close>: JSON as text, written and parsed, and the lines of \<open>bufio.Scanner\<close> with their limit. \<open>Rpc\<close>:
  gRPC results.

  \<^bold>\<open>Raft\<close> (\<open>hw3/config\<close>, \<open>hw3/internal/log\<close>, \<open>hw3/raft\<close>). \<open>ClusterConfig\<close> is the configuration, \<open>RaftLog\<close> the
  log with its invariant (entry \<open>i\<close> has index \<open>i\<close>, terms do not decrease), \<open>RaftNode\<close> every method of
  \<open>raft.go\<close>, \<open>RaftNodeFacts\<close> what each does on each branch (the merge of \<open>AppendEntries\<close> against a reference
  merge, the commit scan). \<open>RaftCluster\<close> is the system: all nodes, all RPCs in flight, all waiting goroutines;
  \<open>fire\<close> executes one event and \<open>reachable\<close> are the states of its runs. \<open>RaftProtocol\<close> is the abstract
  protocol, over the locale \<open>quorum_system\<close> of overlapping quorums, with ghost logs per term; \<open>RaftSafety\<close>
  proves its invariant, and \<open>protocol_run\<close> is any number of its steps. \<open>RaftSimulation\<close>, \<open>RaftSteps\<close>, \<open>RaftReplication\<close> and \<open>RaftCommit\<close> match every event of
  the cluster by steps of the protocol (majorities of the configuration interpret the locale).
  \<open>RaftLiveness\<close>: the replication loop for a peer ends. \<open>RaftExecutions\<close>: evaluated runs. \<open>RaftTheorems\<close>: the
  properties, among them election safety, log matching, leader completeness and state machine safety.
  \<open>RaftProgress\<close>: from any reachable cluster of two nodes or more a majority can elect a leader, replicate, commit and apply a
  command by events of its own, so no state is a dead end.

  \<^bold>\<open>The stores\<close> (\<open>hw2/internal/store\<close>, \<open>hw3/internal/store\<close>). \<open>KvStore\<close> has both, two interpretations of the
  locale \<open>kv_store\<close>, which says what a lookup returns after any sequence of writes.

  \<^bold>\<open>The store on Raft\<close> (\<open>hw3/server\<close>). \<open>KvServer\<close> has the handlers, the apply loop and the coding of commands;
  \<open>KvSystem\<close> composes one server per node with the cluster and proves the invariant that ties every waiting
  \<open>Put\<close> to the entry it submitted; \<open>KvExecutions\<close> has runs, \<open>KvTheorems\<close> what an acknowledged, an aborted
  and a timed-out \<open>Put\<close> mean, that replicas agree, and what keys with colons do.

  \<^bold>\<open>The primary-backup store\<close> (\<open>hw2/internal/clock\<close>, \<open>hw2/server\<close>). \<open>LamportClock\<close> has the clock and the clock
  condition for the locale \<open>logical_clock\<close>; \<open>PrimaryBackup\<close> one node, with ballots as an instance of
  \<open>linorder\<close>; \<open>PbCluster\<close> the system; \<open>PbTheorems\<close> writes and reads; \<open>PbElections\<close> and \<open>PbSuccession\<close>
  elections; \<open>PbProgress\<close> that a primary can always complete a write; \<open>PbExecutions\<close> the runs, among them two that show what the design does not give (overlapping
  writes that leave replicas different for ever, and an election both candidates lose).

  \<^bold>\<open>The clients and the start of the servers.\<close> \<open>KvClient\<close> has the command-line clients (\<open>hw2/client\<close>,
  \<open>hw3/client\<close>), \<open>Wire\<close> a connection between a client and any cluster, with the locale \<open>courier\<close> for what a
  call does to the cluster. \<open>KvSession\<close> and \<open>PbSession\<close> interpret it on \<open>KvSystem\<close> and \<open>PbCluster\<close> and show
  what a successful put lets a later get print. \<open>ServerStart\<close> has the \<open>main\<close> functions of \<open>hw2/server\<close> and \<open>hw3/server\<close> up to the running
  servers, with the files, connections and listeners of the system as a record of functions, and shows
  that the started processes are in the initial states of \<open>PbCluster\<close> and \<open>KvSystem\<close>.

  \<^bold>\<open>Connect-M\<close> (\<open>hw1\<close>). \<open>Game\<close> is \<open>game.go\<close>; \<open>GameRules\<close> its well-formed boards, what a move does on every
  branch, and that \<open>CheckWin\<close>, which looks around the last move, agrees with the rule of the game.
  \<open>GameWire\<close> has all messages of both directions with their round trips, \<open>GameServer\<close> the server,
  \<open>GameServerTheorems\<close> its invariant, \<open>GameClient\<close> the client, \<open>GameTui\<close> the terminal game. \<open>GameSession\<close>
  composes the server with any number of clients and the lines in flight, and shows that all clients
  that report an outcome report the one true one, and that only leaving or losing the connection lets a
  client end with status 0 without one. \<open>GameAgreement\<close> shows that the terminal game and the server play
  the same game on the same typed numbers, \<open>GameLines\<close> that messages survive as lines of text, and for which boards they fit.

  \<^bold>\<open>The embedding pipeline\<close> (\<open>hw4\<close>). \<open>Broker\<close> has the RPCs and the re-enqueuing of the broker, and the locale
  \<open>task_broker\<close> with what producer and workers rely on, interpreted on the code; \<open>BrokerTheorems\<close> that no task
  is lost, duplicated, or left with a silent worker. \<open>EmbedProtocol\<close> has the hashes (the big-integer loop is
  the 64-bit FNV-1a), the protocol of the subprocess as the locale \<open>embedding_service\<close>, interpreted on the
  mock embedder, and the query tool; \<open>Producer\<close> chunking and the two loops of the producer; \<open>EmbedWorker\<close> the
  loop of a worker. \<open>Pipeline\<close> composes them all, \<open>PipelineTheorems\<close> shows what the producer's report means,
  \<open>PipelineProgress\<close> that a worker that runs can always bring the producer to its report. \<open>PipelineStart\<close>
  has the starts of broker, producer and worker, the creation of the collection and the time constants.

  \<^bold>\<open>Loops and fuel.\<close> Loops are recursive functions with termination proofs. There is fuel in two places: the
  replication loop \<open>catch_up\<close>, where the length of the leader's log plus two is shown to be enough, and a
  bound on the depth of the calls in \<open>json_parse\<close>, where twice the length of the text is.
  \<open>chunk_loop\<close>, which may not end, is a partial function; for a positive chunk size it is shown to return.
  Loops that run as long as the process are the step relations.

  \<^bold>\<open>Hypotheses.\<close> Connect-M is played on a positive number of rows and columns with a positive \<open>M\<close>; the server
  does not check it. Progress of Raft needs two nodes, as one alone never leads, and what is read from the
  store on Raft is what was written only for keys without a colon. Configurations number their nodes from 0 (\<open>positional\<close>), as the shipped files do and the code
  of \<open>hw3\<close> assumes when it indexes by id. Uuids are new. A \<open>float32\<close> that is written as JSON reads back as
  itself (\<open>floats_roundtrip\<close>); the arithmetic of floats is a parameter. A vector database knows the size of
  a collection it has, and creates only one it does not have (\<open>collections_law\<close>).

  \<^bold>\<open>Not modelled.\<close> gRPC's own serving of requests; text that is not UTF-8; logging, prompts and stderr,
  except where they are a result; the generated gRPC stubs; \<open>embedder.py\<close>; the Qdrant collection beyond its existence, its
  vector size and the list of points written; persistence, which the programs do not have. Time is
  modelled where the code compares it (heartbeats and timeouts of \<open>hw2\<close> and \<open>hw4\<close>); elsewhere a timeout
  may fire at any moment.
\<close>

end
